(* ===== verification/Prelude.thy ===== *)
theory Prelude
  imports
    Main
    "HOL-Library.Word"
    "HOL-Library.Finite_Map"
    "HOL-Library.List_Lexorder"
    "HOL-Library.Product_Lexorder"
    "HOL-Library.Option_ord"
    "HOL-Library.Multiset"
begin

text \<open>
  Shared vocabulary of the development: the machine integers of the Rust sources, the
  checked and saturating arithmetic of the standard library, little- and big-endian byte
  strings, key-ordered iteration over a finite map (the model of \<open>HashMap\<close> and
  \<open>BTreeMap\<close> loops) and the lemma collections the components extend.
\<close>

named_theorems word_to_nat \<open>facts that move word arithmetic without wrap-around to \<open>nat\<close>\<close>

section \<open>Machine integers\<close>

type_synonym u8 = "8 word"
type_synonym u16 = "16 word"
type_synonym u32 = "32 word"
type_synonym u64 = "64 word"
type_synonym i64 = "64 word" \<comment> \<open>two's complement, read with \<open>sint\<close>\<close>
type_synonym bytes = "u8 list"

text \<open>The integer methods of the Rust standard library that the sources call.\<close>

definition checked_add :: "'a::len word \<Rightarrow> 'a word \<Rightarrow> 'a word option" where
  "checked_add a b = (if unat a + unat b < 2 ^ LENGTH('a) then Some (a + b) else None)"

definition checked_sub :: "'a::len word \<Rightarrow> 'a word \<Rightarrow> 'a word option" where
  "checked_sub a b = (if b \<le> a then Some (a - b) else None)"

definition saturating_add :: "'a::len word \<Rightarrow> 'a word \<Rightarrow> 'a word" where
  "saturating_add a b = (case checked_add a b of Some c \<Rightarrow> c | None \<Rightarrow> - 1)"

lemma unat_minus_one_word_eq: "unat (- 1 :: 'a::len word) = 2 ^ LENGTH('a) - 1"
  by (simp add: unsigned_minus_1_eq_mask mask_eq_exp_minus_1)

lemma unat_lt_pow: "unat (a :: 'a::len word) < 2 ^ LENGTH('a)"
  by (rule unsigned_less)

lemma checked_add_Some_iff:
  "checked_add a b = Some c \<longleftrightarrow> unat c = unat a + unat (b :: 'a::len word)"
proof
  assume "checked_add a b = Some c"
  then show "unat c = unat a + unat b"
    by (auto simp: checked_add_def unat_word_ariths split: if_splits)
next
  assume c: "unat c = unat a + unat b"
  then have "unat a + unat b < 2 ^ LENGTH('a)"
    using unat_lt_pow [of c] by simp
  with c show "checked_add a b = Some c"
    by (simp add: checked_add_def word_unat_eq_iff unat_word_ariths)
qed

lemma checked_add_None_iff:
  "checked_add a b = None \<longleftrightarrow> 2 ^ LENGTH('a) \<le> unat a + unat (b :: 'a::len word)"
  by (auto simp: checked_add_def)

lemma unat_saturating_add:
  "unat (saturating_add a b) = min (unat a + unat (b :: 'a::len word)) (2 ^ LENGTH('a) - 1)"
proof (cases "checked_add a b")
  case None
  then have "2 ^ LENGTH('a) \<le> unat a + unat b" by (simp add: checked_add_None_iff)
  with None show ?thesis by (simp add: saturating_add_def unat_minus_one_word_eq)
next
  case (Some c)
  then have "unat c = unat a + unat b" by (simp add: checked_add_Some_iff)
  moreover have "unat c \<le> 2 ^ LENGTH('a) - 1"
    using unat_lt_pow [of c] by linarith
  ultimately show ?thesis using Some by (simp add: saturating_add_def)
qed

lemma saturating_add_0 [simp]: "saturating_add a 0 = (a :: 'a::len word)"
  by (simp add: saturating_add_def checked_add_def unat_lt_pow)

lemma saturating_add_ge: "a \<le> saturating_add a (b :: 'a::len word)"
proof -
  have "unat a \<le> 2 ^ LENGTH('a) - 1"
    using unat_lt_pow [of a] by linarith
  then show ?thesis by (simp add: word_le_nat_alt unat_saturating_add)
qed

lemma saturating_add_commute: "saturating_add a b = saturating_add b (a :: 'a::len word)"
  by (simp add: word_unat_eq_iff unat_saturating_add add.commute)

lemma saturating_add_assoc:
  "saturating_add (saturating_add a b) c = saturating_add a (saturating_add b (c :: 'a::len word))"
proof -
  have min_assoc: "min (min (x + y) m + z) m = min (x + min (y + z) m) m" for x y z m :: nat
    by (simp add: min_def)
  show ?thesis by (simp add: word_unat_eq_iff unat_saturating_add min_assoc)
qed

lemma unat_diff_le [word_to_nat]: "b \<le> a \<Longrightarrow> unat (a - b) = unat a - unat (b :: 'a::len word)"
  by (rule unat_sub)

lemmas [word_to_nat] = word_le_nat_alt word_less_nat_alt word_unat_eq_iff

section \<open>Byte strings\<close>

text \<open>\<open>to_le_bytes\<close>/\<open>from_le_bytes\<close> and \<open>to_be_bytes\<close>/\<open>from_be_bytes\<close> over the unsigned value.\<close>

fun le_bytes :: "nat \<Rightarrow> nat \<Rightarrow> bytes" where
  "le_bytes 0 v = []"
| "le_bytes (Suc n) v = word_of_nat (v mod 256) # le_bytes n (v div 256)"

fun le_value :: "bytes \<Rightarrow> nat" where
  "le_value [] = 0"
| "le_value (b # bs) = unat b + 256 * le_value bs"

definition be_bytes :: "nat \<Rightarrow> nat \<Rightarrow> bytes" where
  "be_bytes n v = rev (le_bytes n v)"

definition be_value :: "bytes \<Rightarrow> nat" where
  "be_value bs = le_value (rev bs)"

lemma length_le_bytes [simp]: "length (le_bytes n v) = n"
  by (induction n arbitrary: v) auto

lemma length_be_bytes [simp]: "length (be_bytes n v) = n"
  by (simp add: be_bytes_def)

lemma unat_byte_of_nat [simp]: "unat (word_of_nat (v mod 256) :: u8) = v mod 256"
  by (simp add: unat_of_nat)

lemma le_value_le_bytes: "le_value (le_bytes n v) = v mod 256 ^ n"
proof (induction n arbitrary: v)
  case 0
  then show ?case by simp
next
  case (Suc n)
  have "v mod 256 ^ Suc n = 256 * (v div 256 mod 256 ^ n) + v mod 256"
    by (simp add: mod_mult2_eq)
  then show ?case using Suc by simp
qed

lemma be_value_be_bytes: "be_value (be_bytes n v) = v mod 256 ^ n"
  by (simp add: be_value_def be_bytes_def le_value_le_bytes)

lemma le_value_less: "le_value bs < 256 ^ length bs"
proof (induction bs)
  case Nil
  then show ?case by simp
next
  case (Cons b bs)
  have "unat b < 256" using unat_lt_pow [of b] by simp
  with Cons show ?case by simp
qed

lemma le_bytes_le_value: "le_bytes (length bs) (le_value bs) = bs"
proof (induction bs)
  case Nil
  then show ?case by simp
next
  case (Cons b bs)
  have b: "unat b < 256" using unat_lt_pow [of b] by simp
  then have "(unat b + 256 * le_value bs) mod 256 = unat b"
    and "(unat b + 256 * le_value bs) div 256 = le_value bs"
    by simp_all
  with Cons show ?case by simp
qed

lemma be_bytes_be_value: "be_bytes (length bs) (be_value bs) = bs"
  using le_bytes_le_value [of "rev bs"] by (simp add: be_bytes_def be_value_def)

section \<open>Finite maps\<close>

text \<open>
  A \<open>HashMap\<close> or \<open>BTreeMap\<close> is a finite map. A loop over its entries visits them in key
  order; where the Rust container promises no order, the lemmas below show that the result
  of the loop does not depend on it.
\<close>

definition fm_fold :: "('k::linorder \<Rightarrow> 'v \<Rightarrow> 's \<Rightarrow> 's) \<Rightarrow> ('k, 'v) fmap \<Rightarrow> 's \<Rightarrow> 's" where
  "fm_fold f m s = fold (\<lambda>(k, v). f k v) (sorted_list_of_fmap m) s"

definition fm_values :: "('k::linorder, 'v) fmap \<Rightarrow> 'v list" where
  "fm_values m = map snd (sorted_list_of_fmap m)"

definition fm_size :: "('k::linorder, 'v) fmap \<Rightarrow> nat" where
  "fm_size m = length (sorted_list_of_fmap m)"

lemma fm_size_fcard: "fm_size m = fcard (fmdom m)"
  by (simp add: fm_size_def sorted_list_of_fmap_def sorted_list_of_fset.rep_eq fcard.rep_eq)

lemma map_fst_sorted_list_of_fmap [simp]:
  "map fst (sorted_list_of_fmap m) = sorted_list_of_fset (fmdom m)"
  by (simp add: sorted_list_of_fmap_def comp_def)

lemma distinct_sorted_list_of_fmap: "distinct (map fst (sorted_list_of_fmap m))"
  by (simp add: sorted_list_of_fset.rep_eq)

lemma sorted_sorted_list_of_fmap: "sorted (map fst (sorted_list_of_fmap m))"
  by (simp add: sorted_list_of_fset.rep_eq)

lemma in_sorted_list_of_fmap [simp]:
  "(k, v) \<in> set (sorted_list_of_fmap m) \<longleftrightarrow> fmlookup m k = Some v"
  using map_of_eq_Some_iff [OF distinct_sorted_list_of_fmap, of m k v] by simp

lemma in_fm_values: "v \<in> set (fm_values m) \<longleftrightarrow> (\<exists>k. fmlookup m k = Some v)"
proof
  show "v \<in> set (fm_values m) \<Longrightarrow> \<exists>k. fmlookup m k = Some v"
    by (auto simp: fm_values_def)
  show "\<exists>k. fmlookup m k = Some v \<Longrightarrow> v \<in> set (fm_values m)"
    by (metis fm_values_def image_eqI in_sorted_list_of_fmap list.set_map snd_conv)
qed

text \<open>
  A loop whose body at an entry changes only that key: what the final map holds at a key is
  decided by what the two maps hold there.
\<close>

lemma fold_pointwise:
  assumes step: "\<And>k v m k'. fmlookup (f k v m) k' =
      (if k' = k then g k (fmlookup m k) v else fmlookup m k')"
    and "distinct (map fst xs)"
  shows "fmlookup (fold (\<lambda>(k, v). f k v) xs m) k =
    (case map_of xs k of None \<Rightarrow> fmlookup m k | Some v \<Rightarrow> g k (fmlookup m k) v)"
  using assms(2)
proof (induction xs arbitrary: m)
  case Nil
  then show ?case by simp
next
  case (Cons x xs)
  obtain k' v' where x: "x = (k', v')" by (cases x)
  with Cons.prems have "map_of xs k' = None" by (simp add: map_of_eq_None_iff)
  with Cons x show ?case by (simp add: step split: option.split)
qed

lemma fm_fold_pointwise:
  assumes "\<And>k v m k'. fmlookup (f k v m) k' =
      (if k' = k then g k (fmlookup m k) v else fmlookup m k')"
  shows "fmlookup (fm_fold f src m) k =
    (case fmlookup src k of None \<Rightarrow> fmlookup m k | Some v \<Rightarrow> g k (fmlookup m k) v)"
  by (simp add: fm_fold_def fold_pointwise [where g = g, OF assms distinct_sorted_list_of_fmap])

lemma sorted_list_of_fmap_empty [simp]: "sorted_list_of_fmap fmempty = []"
  by (simp add: sorted_list_of_fmap_def sorted_list_of_fset.rep_eq)

lemma fm_fold_empty [simp]: "fm_fold f fmempty s = s"
  by (simp add: fm_fold_def)

end
