(* ===== verification/Ids.thy ===== *)
theory Ids
  imports Prelude
begin

text \<open>
  Identities: \<open>ClientId\<close> and \<open>ElementId\<close> (\<^verbatim>\<open>clientid.rs\<close>, \<^verbatim>\<open>elementid.rs\<close>), the element kinds
  and their classification. A UUID is a 128-bit word whose bytes are its big-endian digits,
  so the byte order of \<open>[u8; 16]\<close> is the numeric order. The hash \<open>Uuid::new_v5\<close> is a
  parameter \<open>new_v5\<close> of the definitions that call it.
\<close>

type_synonym uuid = "128 word"
type_synonym v5 = "uuid \<Rightarrow> bytes \<Rightarrow> uuid"

definition uuid_from_bytes :: "bytes \<Rightarrow> uuid" where
  "uuid_from_bytes bs = word_of_nat (be_value bs)"

definition uuid_into_bytes :: "uuid \<Rightarrow> bytes" where
  "uuid_into_bytes u = be_bytes 16 (unat u)"

section \<open>Client ids\<close>

datatype clientid = ClientId (client_uuid: uuid)

definition clientid_from_bytes :: "bytes \<Rightarrow> clientid" where
  "clientid_from_bytes bs = ClientId (uuid_from_bytes bs)"

definition clientid_as_bytes :: "clientid \<Rightarrow> bytes" where
  "clientid_as_bytes c = uuid_into_bytes (client_uuid c)"

definition for_channel :: "v5 \<Rightarrow> clientid \<Rightarrow> u32 \<Rightarrow> clientid" where
  "for_channel new_v5 c channel =
     (if channel = 0 then c
      else ClientId (new_v5 (client_uuid c) (be_bytes 4 (unat channel))))"

instantiation clientid :: linorder
begin

definition less_eq_clientid :: "clientid \<Rightarrow> clientid \<Rightarrow> bool" where
  "a \<le> b \<longleftrightarrow> client_uuid a \<le> client_uuid b"

definition less_clientid :: "clientid \<Rightarrow> clientid \<Rightarrow> bool" where
  "a < b \<longleftrightarrow> client_uuid a < client_uuid b"

instance
  by standard (auto simp: less_eq_clientid_def less_clientid_def intro: clientid.expand)

end

section \<open>Element ids and kinds\<close>

datatype elementid = ElementId (element_uuid: uuid)

datatype element_kind =
  KScalar | KRegister | KCounter | KMap | KList | KText | KXmlElement | KXmlFragment

fun kind_tag :: "element_kind \<Rightarrow> u8" where
  "kind_tag KScalar = 0"
| "kind_tag KRegister = 1"
| "kind_tag KCounter = 2"
| "kind_tag KMap = 3"
| "kind_tag KList = 4"
| "kind_tag KText = 5"
| "kind_tag KXmlElement = 6"
| "kind_tag KXmlFragment = 7"

definition from_tag :: "u8 \<Rightarrow> element_kind option" where
  "from_tag tag =
     (if tag = 0 then Some KScalar
      else if tag = 1 then Some KRegister
      else if tag = 2 then Some KCounter
      else if tag = 3 then Some KMap
      else if tag = 4 then Some KList
      else if tag = 5 then Some KText
      else if tag = 6 then Some KXmlElement
      else if tag = 7 then Some KXmlFragment
      else None)"

fun kind_is_container :: "element_kind \<Rightarrow> bool" where
  "kind_is_container KMap = True"
| "kind_is_container KList = True"
| "kind_is_container KText = True"
| "kind_is_container KXmlElement = True"
| "kind_is_container KXmlFragment = True"
| "kind_is_container KScalar = False"
| "kind_is_container KRegister = False"
| "kind_is_container KCounter = False"

fun is_key_derived_container :: "element_kind \<Rightarrow> bool" where
  "is_key_derived_container KMap = True"
| "is_key_derived_container KList = True"
| "is_key_derived_container KText = True"
| "is_key_derived_container KXmlFragment = True"
| "is_key_derived_container KScalar = False"
| "is_key_derived_container KRegister = False"
| "is_key_derived_container KCounter = False"
| "is_key_derived_container KXmlElement = False"

definition KEY_DERIVED_CONTAINERS :: "element_kind list" where
  "KEY_DERIVED_CONTAINERS = [KMap, KList, KText, KXmlFragment]"

definition elementid_from_bytes :: "bytes \<Rightarrow> elementid" where
  "elementid_from_bytes bs = ElementId (uuid_from_bytes bs)"

definition elementid_as_bytes :: "elementid \<Rightarrow> bytes" where
  "elementid_as_bytes e = uuid_into_bytes (element_uuid e)"

definition derive :: "v5 \<Rightarrow> elementid \<Rightarrow> bytes \<Rightarrow> element_kind \<Rightarrow> elementid" where
  "derive new_v5 parent key kind = ElementId (new_v5 (element_uuid parent) (key @ [kind_tag kind]))"

text \<open>The order of \<open>sort_by_key(as_bytes)\<close>.\<close>

instantiation elementid :: linorder
begin

definition less_eq_elementid :: "elementid \<Rightarrow> elementid \<Rightarrow> bool" where
  "a \<le> b \<longleftrightarrow> element_uuid a \<le> element_uuid b"

definition less_elementid :: "elementid \<Rightarrow> elementid \<Rightarrow> bool" where
  "a < b \<longleftrightarrow> element_uuid a < element_uuid b"

instance
  by standard (auto simp: less_eq_elementid_def less_elementid_def intro: elementid.expand)

end

section \<open>Lemmas\<close>

lemma uuid_from_into_bytes [simp]: "uuid_from_bytes (uuid_into_bytes u) = u"
proof -
  have "unat u < 256 ^ 16" using unat_lt_pow [of u] by simp
  then show ?thesis
    by (simp add: uuid_from_bytes_def uuid_into_bytes_def be_value_be_bytes)
qed

lemma length_uuid_into_bytes [simp]: "length (uuid_into_bytes u) = 16"
  by (simp add: uuid_into_bytes_def)

lemma uuid_into_from_bytes: "length bs = 16 \<Longrightarrow> uuid_into_bytes (uuid_from_bytes bs) = bs"
proof -
  assume n: "length bs = 16"
  then have "be_value bs < 2 ^ 128"
    using le_value_less [of "rev bs"] by (simp add: be_value_def)
  then have "unat (word_of_nat (be_value bs) :: uuid) = be_value bs"
    by (simp add: unat_of_nat)
  with n show ?thesis
    using be_bytes_be_value [of bs] by (simp add: uuid_into_bytes_def uuid_from_bytes_def)
qed

lemma clientid_roundtrip [simp]: "clientid_from_bytes (clientid_as_bytes c) = c"
  by (simp add: clientid_from_bytes_def clientid_as_bytes_def)

lemma elementid_roundtrip [simp]: "elementid_from_bytes (elementid_as_bytes e) = e"
  by (simp add: elementid_from_bytes_def elementid_as_bytes_def)

lemma length_as_bytes [simp]:
  "length (clientid_as_bytes c) = 16" "length (elementid_as_bytes e) = 16"
  by (simp_all add: clientid_as_bytes_def elementid_as_bytes_def)

lemma clientid_as_bytes_from: "length bs = 16 \<Longrightarrow> clientid_as_bytes (clientid_from_bytes bs) = bs"
  by (simp add: clientid_as_bytes_def clientid_from_bytes_def uuid_into_from_bytes)

lemma elementid_as_bytes_from:
  "length bs = 16 \<Longrightarrow> elementid_as_bytes (elementid_from_bytes bs) = bs"
  by (simp add: elementid_as_bytes_def elementid_from_bytes_def uuid_into_from_bytes)

lemma from_tag_kind_tag [simp]: "from_tag (kind_tag k) = Some k"
  by (cases k) (simp_all add: from_tag_def)

lemma kind_tag_from_tag: "from_tag t = Some k \<Longrightarrow> kind_tag k = t"
  by (auto simp: from_tag_def split: if_splits)

lemma kind_tag_inject [simp]: "kind_tag a = kind_tag b \<longleftrightarrow> a = b"
  by (metis from_tag_kind_tag option.inject)

lemma key_derived_iff: "is_key_derived_container k \<longleftrightarrow> k \<in> set KEY_DERIVED_CONTAINERS"
  by (cases k) (simp_all add: KEY_DERIVED_CONTAINERS_def)

lemma key_derived_is_container: "is_key_derived_container k \<Longrightarrow> kind_is_container k"
  by (cases k) simp_all

end
