(* ===== verification/Acl.thy ===== *)
theory Acl
  imports Ids
begin

text \<open>
  \<^verbatim>\<open>acl.rs\<close>: the doc-level authorization tuples and their evaluator. The first part is the
  as-present decision over the live tuples, the second the authority layer: rooting of grants
  at the creator, provenance-based revocation and provenance-bounded deny, solved by a bounded
  iteration. The resolver from an element id to its current path is a parameter.
\<close>

section \<open>Tuples and actors\<close>

datatype acl_subject = Actor clientid | Group bytes | Authenticated | Anonymous | Anyone

datatype capability = CapRead | CapWrite | CapPublishAwareness | CapOwn

datatype acl_grant = GrantCapability capability | GrantRole bytes

datatype acl_effect = EffAllow | EffDeny

datatype acl_scope = ScopePath bytes | ScopeElement elementid

type_synonym path_resolver = "elementid \<Rightarrow> bytes option"

fun scope_resolve :: "path_resolver \<Rightarrow> acl_scope \<Rightarrow> bytes option" where
  "scope_resolve resolve (ScopePath p) = Some p"
| "scope_resolve resolve (ScopeElement eid) = resolve eid"

record acl_tuple =
  tuple_id :: elementid
  subject :: acl_subject
  grant :: acl_grant
  effect :: acl_effect
  scope :: acl_scope
  grantor :: clientid

record acl_actor =
  actor_id :: clientid
  groups :: "bytes list"
  roles :: "bytes list"
  authenticated :: bool

definition acl_actor_new :: "clientid \<Rightarrow> acl_actor" where
  "acl_actor_new cid = \<lparr>actor_id = cid, groups = [], roles = [], authenticated = True\<rparr>"

fun subject_matches :: "acl_subject \<Rightarrow> acl_actor \<Rightarrow> bool" where
  "subject_matches (Actor cid) actor \<longleftrightarrow> cid = actor_id actor"
| "subject_matches (Group g) actor \<longleftrightarrow> list_ex (\<lambda>m. m = g) (groups actor)"
| "subject_matches Authenticated actor \<longleftrightarrow> authenticated actor"
| "subject_matches Anonymous actor \<longleftrightarrow> \<not> authenticated actor"
| "subject_matches Anyone actor \<longleftrightarrow> True"

fun governs :: "bytes \<Rightarrow> bytes \<Rightarrow> bool" where
  "governs [] target \<longleftrightarrow> True"
| "governs (s # ss) [] \<longleftrightarrow> False"
| "governs (s # ss) (t # ts) \<longleftrightarrow> s = t \<and> governs ss ts"

datatype acl_decision = DecAllow | DecDeny | DecAbstain

section \<open>The as-present decision\<close>

record cap_flags =
  deny_cap :: bool
  allow_cap :: bool
  deny_own :: bool
  allow_own :: bool

definition tuple_governs :: "path_resolver \<Rightarrow> acl_actor \<Rightarrow> bytes \<Rightarrow> acl_tuple \<Rightarrow> bool" where
  "tuple_governs resolve actor path t =
     (case scope_resolve resolve (scope t) of
        None \<Rightarrow> False
      | Some scope_path \<Rightarrow> subject_matches (subject t) actor \<and> governs scope_path path)"

definition scan_tuple ::
    "path_resolver \<Rightarrow> acl_actor \<Rightarrow> bytes \<Rightarrow> capability \<Rightarrow> acl_tuple \<Rightarrow> cap_flags \<Rightarrow> cap_flags" where
  "scan_tuple resolve actor path capability t f =
     (if \<not> tuple_governs resolve actor path t then f
      else case grant t of
        GrantRole _ \<Rightarrow> f
      | GrantCapability c \<Rightarrow>
          (case effect t of
             EffDeny \<Rightarrow>
               (if c = capability then f\<lparr>deny_cap := True\<rparr>
                else if c = CapOwn then f\<lparr>deny_own := True\<rparr> else f)
           | EffAllow \<Rightarrow>
               (if c = capability then f\<lparr>allow_cap := True\<rparr>
                else if c = CapOwn then f\<lparr>allow_own := True\<rparr> else f)))"

definition decide_capability ::
    "acl_tuple list \<Rightarrow> acl_actor \<Rightarrow> bytes \<Rightarrow> capability \<Rightarrow> path_resolver \<Rightarrow> acl_decision" where
  "decide_capability tuples actor path capability resolve =
     (let f = fold (scan_tuple resolve actor path capability) tuples
                \<lparr>deny_cap = False, allow_cap = False, deny_own = False, allow_own = False\<rparr>
      in if deny_cap f then DecDeny
         else if allow_own f \<and> \<not> deny_own f then DecAllow
         else if allow_cap f then DecAllow
         else DecAbstain)"

definition evaluate ::
    "acl_tuple list \<Rightarrow> acl_actor \<Rightarrow> bytes \<Rightarrow> capability \<Rightarrow> path_resolver \<Rightarrow> bool" where
  "evaluate tuples actor path capability resolve =
     (decide_capability tuples actor path capability resolve = DecAllow)"

definition scan_role ::
    "path_resolver \<Rightarrow> acl_actor \<Rightarrow> bytes \<Rightarrow> acl_tuple \<Rightarrow> bytes list \<times> bytes list \<Rightarrow> bytes list \<times> bytes list" where
  "scan_role resolve actor path t s =
     (if \<not> tuple_governs resolve actor path t then s
      else case grant t of
        GrantCapability _ \<Rightarrow> s
      | GrantRole r \<Rightarrow>
          (case (effect t, s) of
             (EffAllow, (allowed, denied)) \<Rightarrow> (List.insert r allowed, denied)
           | (EffDeny, (allowed, denied)) \<Rightarrow> (allowed, List.insert r denied)))"

definition effective_roles ::
    "acl_tuple list \<Rightarrow> acl_actor \<Rightarrow> bytes \<Rightarrow> path_resolver \<Rightarrow> bytes list" where
  "effective_roles tuples actor path resolve =
     (let (allowed, denied) = fold (scan_role resolve actor path) tuples (remdups (roles actor), [])
      in filter (\<lambda>r. r \<notin> set denied) (sort allowed))"

section \<open>The authority layer\<close>

record acl_record =
  tuple :: acl_tuple
  revoked_by :: "clientid list"

definition resolved_governs :: "bytes option \<Rightarrow> bytes \<Rightarrow> bool" where
  "resolved_governs p target = (case p of None \<Rightarrow> False | Some q \<Rightarrow> governs q target)"

definition is_own_allow :: "acl_tuple \<Rightarrow> clientid \<Rightarrow> bool" where
  "is_own_allow t actor \<longleftrightarrow>
     subject t = Actor actor \<and> grant t = GrantCapability CapOwn \<and> effect t = EffAllow"

definition owns_path ::
    "acl_record list \<Rightarrow> bytes option list \<Rightarrow> clientid \<Rightarrow> clientid \<Rightarrow> bytes \<Rightarrow> bool list \<Rightarrow> bool list \<Rightarrow> bool"
where
  "owns_path records resolved creator actor target rooted revoked =
     (if actor = creator then True
      else list_ex (\<lambda>(i, r). is_own_allow (tuple r) actor
             \<and> resolved_governs (resolved ! i) target \<and> rooted ! i \<and> \<not> revoked ! i)
           (enumerate 0 records))"

definition root_pass ::
    "acl_record list \<Rightarrow> bytes option list \<Rightarrow> clientid \<Rightarrow> bool list \<Rightarrow> bool list \<Rightarrow> bool list" where
  "root_pass records resolved creator rooted revoked =
     map (\<lambda>(i, r). case resolved ! i of
             None \<Rightarrow> False
           | Some p \<Rightarrow> owns_path records resolved creator (grantor (tuple r)) p rooted revoked)
       (enumerate 0 records)"

definition revoke_pass ::
    "acl_record list \<Rightarrow> bytes option list \<Rightarrow> clientid \<Rightarrow> bool list \<Rightarrow> bool list \<Rightarrow> bool list" where
  "revoke_pass records resolved creator rooted revoked =
     map (\<lambda>(i, r). list_ex (\<lambda>who. who = creator \<or> who = grantor (tuple r)
             \<or> (case resolved ! i of
                  None \<Rightarrow> False
                | Some p \<Rightarrow> owns_path records resolved creator who p rooted revoked))
           (revoked_by r))
       (enumerate 0 records)"

text \<open>
  The walk of \<open>at_or_above\<close>. The inner loops visit the frontier and, for each actor, every
  record; \<open>found\<close> is the early return.
\<close>

record walk =
  found :: bool
  seen :: "clientid list"
  nexts :: "clientid list"

definition own_edge ::
    "bytes \<Rightarrow> bytes option list \<Rightarrow> bool list \<Rightarrow> bool list \<Rightarrow> clientid \<Rightarrow> nat \<Rightarrow> acl_record \<Rightarrow> bool" where
  "own_edge grant_path resolved rooted revoked who i r \<longleftrightarrow>
     rooted ! i \<and> \<not> revoked ! i \<and> is_own_allow (tuple r) who
       \<and> resolved_governs (resolved ! i) grant_path"

definition walk_record ::
    "clientid \<Rightarrow> (clientid \<Rightarrow> nat \<Rightarrow> acl_record \<Rightarrow> bool) \<Rightarrow> clientid \<Rightarrow> nat \<times> acl_record \<Rightarrow> walk \<Rightarrow> walk" where
  "walk_record author edge who = (\<lambda>(i, r) w.
     if found w \<or> \<not> edge who i r then w
     else (let up = grantor (tuple r)
           in if up = author then w\<lparr>found := True\<rparr>
              else if up \<in> set (seen w) then w
              else w\<lparr>seen := seen w @ [up], nexts := nexts w @ [up]\<rparr>))"

definition walk_round ::
    "acl_record list \<Rightarrow> clientid \<Rightarrow> (clientid \<Rightarrow> nat \<Rightarrow> acl_record \<Rightarrow> bool) \<Rightarrow> clientid list \<Rightarrow> clientid list \<Rightarrow> walk" where
  "walk_round records author edge frontier sn =
     fold (\<lambda>who. fold (walk_record author edge who) (enumerate 0 records)) frontier
       \<lparr>found = False, seen = sn, nexts = []\<rparr>"

fun walk_up ::
    "nat \<Rightarrow> acl_record list \<Rightarrow> clientid \<Rightarrow> (clientid \<Rightarrow> nat \<Rightarrow> acl_record \<Rightarrow> bool) \<Rightarrow> clientid list \<Rightarrow> clientid list \<Rightarrow> bool"
where
  "walk_up 0 records author edge frontier sn = False"
| "walk_up (Suc rounds) records author edge frontier sn =
     (let w = walk_round records author edge frontier sn
      in if found w then True
         else if nexts w = [] then False
         else walk_up rounds records author edge (nexts w) (seen w))"

definition at_or_above ::
    "acl_record list \<Rightarrow> bytes option list \<Rightarrow> clientid \<Rightarrow> clientid \<Rightarrow> clientid \<Rightarrow> bytes \<Rightarrow> bool list \<Rightarrow> bool list \<Rightarrow> bool"
where
  "at_or_above records resolved creator author granter grant_path rooted revoked =
     (if author = creator \<or> author = granter then True
      else walk_up (Suc (length records)) records author
             (own_edge grant_path resolved rooted revoked) [granter] [granter])"

definition deny_suppresses ::
    "acl_record list \<Rightarrow> bytes option list \<Rightarrow> clientid \<Rightarrow> acl_actor \<Rightarrow> bytes \<Rightarrow> capability \<Rightarrow> clientid \<Rightarrow> bytes
      \<Rightarrow> bool \<Rightarrow> bool list \<Rightarrow> bool list \<Rightarrow> bool"
where
  "deny_suppresses records resolved creator actor path capability granter granter_path via_own rooted revoked =
     list_ex (\<lambda>(i, r).
         if revoked ! i \<or> effect (tuple r) \<noteq> EffDeny \<or> \<not> subject_matches (subject (tuple r)) actor
            \<or> \<not> resolved_governs (resolved ! i) path
         then False
         else case grant (tuple r) of
             GrantRole _ \<Rightarrow> False
           | GrantCapability dc \<Rightarrow>
               (dc = capability \<or> dc = CapOwn \<and> via_own)
               \<and> at_or_above records resolved creator (grantor (tuple r)) granter granter_path rooted revoked)
       (enumerate 0 records)"

fun solve_passes ::
    "nat \<Rightarrow> acl_record list \<Rightarrow> bytes option list \<Rightarrow> clientid \<Rightarrow> bool list \<Rightarrow> bool list
      \<Rightarrow> bool list \<times> bool list \<times> bool"
where
  "solve_passes 0 records resolved creator rooted revoked = (rooted, revoked, False)"
| "solve_passes (Suc k) records resolved creator rooted revoked =
     (let next_rooted = root_pass records resolved creator rooted revoked;
          next_revoked = revoke_pass records resolved creator rooted revoked
      in if next_rooted = rooted \<and> next_revoked = revoked then (rooted, revoked, True)
         else solve_passes k records resolved creator next_rooted next_revoked)"

fun settle_roots ::
    "nat \<Rightarrow> acl_record list \<Rightarrow> bytes option list \<Rightarrow> clientid \<Rightarrow> bool list \<Rightarrow> bool list \<Rightarrow> bool list"
where
  "settle_roots 0 records resolved creator rooted revoked = rooted"
| "settle_roots (Suc k) records resolved creator rooted revoked =
     (let next_rooted = root_pass records resolved creator rooted revoked
      in if next_rooted = rooted then rooted
         else settle_roots k records resolved creator next_rooted revoked)"

definition drop_flux :: "bool list \<Rightarrow> bool list \<Rightarrow> bool list" where
  "drop_flux flux revoked = map (\<lambda>(f, v). if f \<noteq> v then False else v) (zip flux revoked)"

definition solve_authority ::
    "acl_record list \<Rightarrow> bytes option list \<Rightarrow> clientid \<Rightarrow> bool list \<times> bool list" where
  "solve_authority records resolved creator =
     (let n = length records;
          (rooted, revoked, converged) =
            solve_passes (2 * n + 2) records resolved creator (replicate n False) (replicate n False)
      in if converged then (rooted, revoked)
         else (let flux = revoke_pass records resolved creator rooted revoked;
                   revoked' = drop_flux flux revoked
               in (settle_roots (n + 1) records resolved creator rooted revoked', revoked')))"

definition resolve_scopes :: "path_resolver \<Rightarrow> acl_record list \<Rightarrow> bytes option list" where
  "resolve_scopes resolve records = map (\<lambda>r. scope_resolve resolve (scope (tuple r))) records"

definition allow_stands ::
    "acl_record list \<Rightarrow> bytes option list \<Rightarrow> clientid \<Rightarrow> acl_actor \<Rightarrow> bytes \<Rightarrow> capability \<Rightarrow> bool list \<Rightarrow> bool list
      \<Rightarrow> nat \<Rightarrow> acl_record \<Rightarrow> bool"
where
  "allow_stands records resolved creator actor path capability rooted revoked i r =
     (if revoked ! i \<or> \<not> rooted ! i \<or> effect (tuple r) \<noteq> EffAllow then False
      else case resolved ! i of
        None \<Rightarrow> False
      | Some granter_path \<Rightarrow>
          (if \<not> subject_matches (subject (tuple r)) actor \<or> \<not> governs granter_path path then False
           else case grant (tuple r) of
             GrantRole _ \<Rightarrow> False
           | GrantCapability c \<Rightarrow>
               (let via_own = (c = CapOwn)
                in if \<not> via_own \<and> c \<noteq> capability then False
                   else \<not> deny_suppresses records resolved creator actor path capability
                          (grantor (tuple r)) granter_path via_own rooted revoked)))"

definition deny_floors ::
    "bytes option list \<Rightarrow> acl_actor \<Rightarrow> bytes \<Rightarrow> capability \<Rightarrow> bool list \<Rightarrow> nat \<Rightarrow> acl_record \<Rightarrow> bool" where
  "deny_floors resolved actor path capability revoked i r \<longleftrightarrow>
     \<not> revoked ! i \<and> effect (tuple r) = EffDeny \<and> subject_matches (subject (tuple r)) actor
       \<and> resolved_governs (resolved ! i) path \<and> grant (tuple r) = GrantCapability capability"

definition decide_capability_with_authority ::
    "acl_record list \<Rightarrow> clientid \<Rightarrow> acl_actor \<Rightarrow> bytes \<Rightarrow> capability \<Rightarrow> path_resolver \<Rightarrow> acl_decision" where
  "decide_capability_with_authority records creator actor path capability resolve =
     (let resolved = resolve_scopes resolve records;
          (rooted, revoked) = solve_authority records resolved creator;
          creator_owns = (actor_id actor = creator
            \<and> \<not> deny_suppresses records resolved creator actor path capability creator [] True rooted revoked);
          allowed = (creator_owns
            \<or> list_ex (\<lambda>(i, r). allow_stands records resolved creator actor path capability rooted revoked i r)
                (enumerate 0 records))
      in if allowed then DecAllow
         else if list_ex (\<lambda>(i, r). deny_floors resolved actor path capability revoked i r)
                   (enumerate 0 records) then DecDeny
         else DecAbstain)"

definition evaluate_with_authority ::
    "acl_record list \<Rightarrow> clientid \<Rightarrow> acl_actor \<Rightarrow> bytes \<Rightarrow> capability \<Rightarrow> path_resolver \<Rightarrow> bool" where
  "evaluate_with_authority records creator actor path capability resolve =
     (decide_capability_with_authority records creator actor path capability resolve = DecAllow)"

end
