(* ===== verification/Acl_Authority.thy ===== *)
theory Acl_Authority
  imports Acl
begin

text \<open>
  Properties of the ACL evaluator. The flag vectors of the authority layer are read as
  predicates on records, so every pass is a function of the record set alone; from there the
  verdict is shown to depend on the merged set only, never on record order, and every grant
  that confers authority to have a delegation chain up to the creator.
\<close>

section \<open>The as-present decision\<close>

definition tuple_says ::
    "path_resolver \<Rightarrow> acl_actor \<Rightarrow> bytes \<Rightarrow> acl_tuple set \<Rightarrow> acl_effect \<Rightarrow> capability \<Rightarrow> bool" where
  "tuple_says resolve actor path T e c \<longleftrightarrow>
     (\<exists>t\<in>T. tuple_governs resolve actor path t \<and> grant t = GrantCapability c \<and> effect t = e)"

lemma tuple_says_insert:
  "tuple_says resolve actor path (insert t T) e c \<longleftrightarrow>
     tuple_governs resolve actor path t \<and> grant t = GrantCapability c \<and> effect t = e
       \<or> tuple_says resolve actor path T e c"
  by (auto simp: tuple_says_def)

lemma scan_tuples:
  "fold (scan_tuple resolve actor path capability) ts f =
     f\<lparr>deny_cap := deny_cap f \<or> tuple_says resolve actor path (set ts) EffDeny capability,
       allow_cap := allow_cap f \<or> tuple_says resolve actor path (set ts) EffAllow capability,
       deny_own := deny_own f
         \<or> capability \<noteq> CapOwn \<and> tuple_says resolve actor path (set ts) EffDeny CapOwn,
       allow_own := allow_own f
         \<or> capability \<noteq> CapOwn \<and> tuple_says resolve actor path (set ts) EffAllow CapOwn\<rparr>"
proof (induction ts arbitrary: f)
  case Nil
  then show ?case by (simp add: tuple_says_def)
next
  case (Cons t ts)
  show ?case
    by (simp add: Cons.IH tuple_says_insert)
      (auto simp: scan_tuple_def split: acl_grant.splits acl_effect.splits)
qed

text \<open>
  The tuple tier decides by deny-overrides, whatever the order of the tuples: a governing
  deny of the capability denies; otherwise ownership that is not itself denied, or a governing
  allow of the capability, allows; otherwise the tier abstains.
\<close>

theorem decide_capability_deny_overrides:
  "decide_capability tuples actor path capability resolve =
     (let says = tuple_says resolve actor path (set tuples)
      in if says EffDeny capability then DecDeny
         else if says EffAllow capability
           \<or> says EffAllow CapOwn \<and> \<not> says EffDeny CapOwn then DecAllow
         else DecAbstain)"
  by (auto simp: decide_capability_def scan_tuples Let_def)

definition role_says ::
    "path_resolver \<Rightarrow> acl_actor \<Rightarrow> bytes \<Rightarrow> acl_tuple set \<Rightarrow> acl_effect \<Rightarrow> bytes set" where
  "role_says resolve actor path T e =
     {r. \<exists>t\<in>T. tuple_governs resolve actor path t \<and> grant t = GrantRole r \<and> effect t = e}"

lemma scan_roles_sets:
  "set (fst (fold (scan_role resolve actor path) ts s)) =
     set (fst s) \<union> role_says resolve actor path (set ts) EffAllow"
  "set (snd (fold (scan_role resolve actor path) ts s)) =
     set (snd s) \<union> role_says resolve actor path (set ts) EffDeny"
proof (induction ts arbitrary: s)
  case Nil
  { case 1 then show ?case by (simp add: role_says_def) }
  { case 2 then show ?case by (simp add: role_says_def) }
next
  case (Cons t ts)
  have step: "set (fst (scan_role resolve actor path t s)) =
      set (fst s) \<union> role_says resolve actor path {t} EffAllow"
    "set (snd (scan_role resolve actor path t s)) =
      set (snd s) \<union> role_says resolve actor path {t} EffDeny" for s
    by (auto simp: scan_role_def role_says_def split: acl_grant.splits acl_effect.splits prod.splits)
  have ins: "role_says resolve actor path (set (t # ts)) e =
      role_says resolve actor path {t} e \<union> role_says resolve actor path (set ts) e" for e
    by (auto simp: role_says_def)
  { case 1 then show ?case using Cons.IH(1) by (simp add: step(1) ins Un_assoc del: list.set(2)) }
  { case 2 then show ?case using Cons.IH(2) by (simp add: step(2) ins Un_assoc del: list.set(2)) }
qed

lemma scan_role_distinct:
  "distinct (fst s) \<Longrightarrow> distinct (fst (fold (scan_role resolve actor path) ts s))"
proof (induction ts arbitrary: s)
  case Nil
  then show ?case by simp
next
  case (Cons t ts)
  have "distinct (fst (scan_role resolve actor path t s))"
    using Cons.prems
    by (auto simp: scan_role_def split: acl_grant.splits acl_effect.splits prod.splits)
  with Cons.IH show ?case by simp
qed

text \<open>
  The effective roles are the token roles together with the allowed per-document roles, less
  every denied role, in sorted order without repetition: the same list for every tuple order.
\<close>

theorem effective_roles_spec:
  "effective_roles tuples actor path resolve =
     sorted_list_of_set
       (set (roles actor) \<union> role_says resolve actor path (set tuples) EffAllow
         - role_says resolve actor path (set tuples) EffDeny)"
proof -
  let ?f = "fold (scan_role resolve actor path) tuples (remdups (roles actor), [])"
  have "effective_roles tuples actor path resolve =
      filter (\<lambda>r. r \<notin> set (snd ?f)) (sort (fst ?f))"
    by (simp add: effective_roles_def split: prod.split)
  also have "\<dots> = sorted_list_of_set (set (fst ?f) - set (snd ?f))"
  proof (rule sorted_distinct_set_unique)
    have "distinct (fst ?f)" by (rule scan_role_distinct) simp
    then show "distinct (filter (\<lambda>r. r \<notin> set (snd ?f)) (sort (fst ?f)))" by simp
  qed (auto simp: sorted_filter [of id, simplified])
  finally show ?thesis by (simp add: scan_roles_sets)
qed

section \<open>Passes as functions of the record set\<close>

lemma list_ex_enumerate:
  "list_ex (\<lambda>(i, r). Q i r) (enumerate 0 rs) \<longleftrightarrow> (\<exists>i<length rs. Q i (rs ! i))"
  by (force simp: list_ex_iff in_set_enumerate_eq)

lemma in_enumerate: "(i, r) \<in> set (enumerate 0 rs) \<longleftrightarrow> i < length rs \<and> r = rs ! i"
  by (auto simp: in_set_enumerate_eq)

lemma map_enumerate:
  "map (\<lambda>(i, r). q i r) (enumerate 0 rs) = map (\<lambda>i. q i (rs ! i)) [0..<length rs]"
  by (rule nth_equalityI) (simp_all add: nth_enumerate_eq)

lemma ex_nth_iff: "(\<exists>i<length rs. P (rs ! i)) \<longleftrightarrow> (\<exists>r\<in>set rs. P r)"
  by (metis in_set_conv_nth)

lemma map_nth_index: "map (\<lambda>i. f (rs ! i)) [0..<length rs] = map f rs"
  by (rule nth_equalityI) simp_all

type_synonym flag = "acl_record \<Rightarrow> bool"
type_synonym paths = "acl_record \<Rightarrow> bytes option"

definition owns_spec ::
    "paths \<Rightarrow> acl_record set \<Rightarrow> clientid \<Rightarrow> flag \<Rightarrow> flag \<Rightarrow> clientid \<Rightarrow> bytes \<Rightarrow> bool" where
  "owns_spec P S creator R V actor target \<longleftrightarrow> actor = creator \<or>
     (\<exists>r\<in>S. is_own_allow (tuple r) actor \<and> resolved_governs (P r) target \<and> R r \<and> \<not> V r)"

definition root_spec :: "paths \<Rightarrow> acl_record set \<Rightarrow> clientid \<Rightarrow> flag \<Rightarrow> flag \<Rightarrow> flag" where
  "root_spec P S creator R V r \<longleftrightarrow>
     (\<exists>p. P r = Some p \<and> owns_spec P S creator R V (grantor (tuple r)) p)"

definition revoke_spec :: "paths \<Rightarrow> acl_record set \<Rightarrow> clientid \<Rightarrow> flag \<Rightarrow> flag \<Rightarrow> flag" where
  "revoke_spec P S creator R V r \<longleftrightarrow>
     (\<exists>who\<in>set (revoked_by r). who = creator \<or> who = grantor (tuple r)
        \<or> (\<exists>p. P r = Some p \<and> owns_spec P S creator R V who p))"

lemma owns_path_spec:
  "owns_path rs (map P rs) creator actor target (map R rs) (map V rs) =
     owns_spec P (set rs) creator R V actor target"
  unfolding owns_path_def owns_spec_def list_ex_enumerate
  by (simp add: ex_nth_iff [of rs "\<lambda>r. is_own_allow (tuple r) actor
       \<and> resolved_governs (P r) target \<and> R r \<and> \<not> V r", symmetric] cong: conj_cong)

lemma root_pass_spec:
  "root_pass rs (map P rs) creator (map R rs) (map V rs) = map (root_spec P (set rs) creator R V) rs"
  unfolding root_pass_def map_enumerate owns_path_spec
  by (rule nth_equalityI) (simp_all add: root_spec_def split: option.split)

lemma revoke_pass_spec:
  "revoke_pass rs (map P rs) creator (map R rs) (map V rs) =
     map (revoke_spec P (set rs) creator R V) rs"
  unfolding revoke_pass_def map_enumerate owns_path_spec
  by (rule nth_equalityI) (auto simp: revoke_spec_def list_ex_iff split: option.splits)

lemmas pass_specs = owns_path_spec root_pass_spec revoke_pass_spec

fun solve_spec ::
    "nat \<Rightarrow> paths \<Rightarrow> acl_record set \<Rightarrow> clientid \<Rightarrow> flag \<Rightarrow> flag \<Rightarrow> flag \<times> flag \<times> bool" where
  "solve_spec 0 P S creator R V = (R, V, False)"
| "solve_spec (Suc k) P S creator R V =
     (if (\<forall>r\<in>S. root_spec P S creator R V r = R r) \<and> (\<forall>r\<in>S. revoke_spec P S creator R V r = V r)
      then (R, V, True)
      else solve_spec k P S creator (root_spec P S creator R V) (revoke_spec P S creator R V))"

fun settle_spec :: "nat \<Rightarrow> paths \<Rightarrow> acl_record set \<Rightarrow> clientid \<Rightarrow> flag \<Rightarrow> flag \<Rightarrow> flag" where
  "settle_spec 0 P S creator R V = R"
| "settle_spec (Suc k) P S creator R V =
     (if \<forall>r\<in>S. root_spec P S creator R V r = R r then R
      else settle_spec k P S creator (root_spec P S creator R V) V)"

lemma solve_passes_spec:
  "solve_passes k rs (map P rs) creator (map R rs) (map V rs) =
     (case solve_spec k P (set rs) creator R V of (R', V', b) \<Rightarrow> (map R' rs, map V' rs, b))"
  by (induction k arbitrary: R V) (simp_all add: pass_specs Let_def)

lemma settle_roots_spec:
  "settle_roots k rs (map P rs) creator (map R rs) (map V rs) =
     map (settle_spec k P (set rs) creator R V) rs"
  by (induction k arbitrary: R) (simp_all add: pass_specs Let_def)

lemma drop_flux_spec: "drop_flux (map F rs) (map V rs) = map (\<lambda>r. F r \<and> V r) rs"
  by (rule nth_equalityI) (auto simp: drop_flux_def)

definition authority_spec ::
    "nat \<Rightarrow> paths \<Rightarrow> acl_record set \<Rightarrow> clientid \<Rightarrow> flag \<times> flag" where
  "authority_spec n P S creator =
     (case solve_spec (2 * n + 2) P S creator (\<lambda>_. False) (\<lambda>_. False) of
        (R, V, True) \<Rightarrow> (R, V)
      | (R, V, False) \<Rightarrow>
          (let V' = (\<lambda>r. revoke_spec P S creator R V r \<and> V r)
           in (settle_spec (n + 1) P S creator R V', V')))"

lemma solve_authority_spec:
  "solve_authority rs (map P rs) creator =
     (case authority_spec (length rs) P (set rs) creator of (R, V) \<Rightarrow> (map R rs, map V rs))"
proof -
  let ?n = "length rs"
  obtain R V b
    where sol: "solve_spec (2 * ?n + 2) P (set rs) creator (\<lambda>_. False) (\<lambda>_. False) = (R, V, b)"
    by (rule prod_cases3)
  have "solve_passes (2 * ?n + 2) rs (map P rs) creator (replicate ?n False) (replicate ?n False) =
      (map R rs, map V rs, b)"
    using solve_passes_spec [of "2 * ?n + 2" rs P creator "\<lambda>_. False" "\<lambda>_. False"]
    unfolding sol by (simp add: map_replicate_const)
  then show ?thesis
    unfolding solve_authority_def authority_spec_def sol
    by (cases b) (simp_all add: Let_def pass_specs drop_flux_spec settle_roots_spec
        del: solve_passes.simps settle_roots.simps settle_spec.simps)
qed

section \<open>The upward walk\<close>

text \<open>
  The delegation edges over a path lead from an owner to whoever granted it that ownership;
  \<open>at_or_above\<close> searches them breadth first. Every round that does not end the search meets a
  new grantor, so one round more than there are records is enough.
\<close>

definition step_up :: "(clientid \<Rightarrow> nat \<Rightarrow> acl_record \<Rightarrow> bool) \<Rightarrow> acl_record list \<Rightarrow> clientid rel" where
  "step_up edge rs = {(who, grantor (tuple r)) | who i r. (i, r) \<in> set (enumerate 0 rs) \<and> edge who i r}"

definition ups ::
    "(clientid \<Rightarrow> nat \<Rightarrow> acl_record \<Rightarrow> bool) \<Rightarrow> clientid \<Rightarrow> (nat \<times> acl_record) list \<Rightarrow> clientid set" where
  "ups edge who xs = {grantor (tuple r) | i r. (i, r) \<in> set xs \<and> edge who i r}"

lemma walk_record_spec:
  "found (fold (walk_record author edge who) xs w) = (found w \<or> author \<in> ups edge who xs)
    \<and> (\<not> found w \<and> author \<notin> ups edge who xs \<longrightarrow>
        set (seen (fold (walk_record author edge who) xs w)) = set (seen w) \<union> ups edge who xs
      \<and> set (nexts (fold (walk_record author edge who) xs w)) =
          set (nexts w) \<union> (ups edge who xs - set (seen w)))"
proof (induction xs arbitrary: w)
  case Nil
  then show ?case by (simp add: ups_def)
next
  case (Cons x xs)
  obtain i r where x: "x = (i, r)" by (cases x)
  have U: "ups edge who (x # xs) =
      (if edge who i r then insert (grantor (tuple r)) (ups edge who xs) else ups edge who xs)"
    by (auto simp: ups_def x)
  show ?case
  proof (cases "edge who i r \<and> \<not> found w")
    case False
    then have "walk_record author edge who x w = w"
      by (auto simp: walk_record_def x)
    with False Cons.IH [of w] show ?thesis by (auto simp: U)
  next
    case True
    let ?w = "walk_record author edge who x w"
    have w: "?w = (if grantor (tuple r) = author then w\<lparr>found := True\<rparr>
        else if grantor (tuple r) \<in> set (seen w) then w
        else w\<lparr>seen := seen w @ [grantor (tuple r)], nexts := nexts w @ [grantor (tuple r)]\<rparr>)"
      using True by (simp add: walk_record_def x Let_def)
    show ?thesis using True Cons.IH [of ?w] by (auto simp: U w)
  qed
qed

lemma walk_round_spec:
  fixes rs edge
  defines "E \<equiv> step_up edge rs"
  shows "found (walk_round rs author edge frontier sn) = (author \<in> E `` set frontier)"
    and "author \<notin> E `` set frontier \<Longrightarrow>
      set (seen (walk_round rs author edge frontier sn)) = set sn \<union> E `` set frontier"
    and "author \<notin> E `` set frontier \<Longrightarrow>
      set (nexts (walk_round rs author edge frontier sn)) = E `` set frontier - set sn"
proof -
  let ?F = "\<lambda>fr w. fold (\<lambda>who. fold (walk_record author edge who) (enumerate 0 rs)) fr w"
  have E: "ups edge who (enumerate 0 rs) = E `` {who}" for who
    by (auto simp: E_def step_up_def ups_def)
  have gen: "found (?F fr w) = (found w \<or> author \<in> E `` set fr)
    \<and> (\<not> found w \<and> author \<notin> E `` set fr \<longrightarrow> set (seen (?F fr w)) = set (seen w) \<union> E `` set fr
      \<and> set (nexts (?F fr w)) = set (nexts w) \<union> (E `` set fr - set (seen w)))" for fr w
  proof (induction fr arbitrary: w)
    case Nil
    then show ?case by simp
  next
    case (Cons who fr)
    have img: "E `` set (who # fr) = E `` {who} \<union> E `` set fr" by auto
    let ?w = "fold (walk_record author edge who) (enumerate 0 rs) w"
    note one = walk_record_spec [of author edge who "enumerate 0 rs" w, unfolded E]
    show ?case using one Cons.IH [of ?w] by (auto simp: img)
  qed
  let ?w0 = "\<lparr>found = False, seen = sn, nexts = []\<rparr> :: walk"
  show "found (walk_round rs author edge frontier sn) = (author \<in> E `` set frontier)"
    using gen [of frontier ?w0] by (simp add: walk_round_def)
  show "author \<notin> E `` set frontier \<Longrightarrow>
      set (seen (walk_round rs author edge frontier sn)) = set sn \<union> E `` set frontier"
    and "author \<notin> E `` set frontier \<Longrightarrow>
      set (nexts (walk_round rs author edge frontier sn)) = E `` set frontier - set sn"
    using gen [of frontier ?w0] by (simp_all add: walk_round_def)
qed

lemma closed_no_path:
  assumes "(x, y) \<in> E\<^sup>+" and "x \<in> A" and "E `` A \<subseteq> A"
  shows "y \<in> A"
  using assms by (induction rule: trancl.induct) auto

lemma walk_up_spec:
  fixes rs edge
  defines "E \<equiv> step_up edge rs"
  assumes "author \<notin> set sn" and "set frontier \<subseteq> set sn"
    and "E `` (set sn - set frontier) \<subseteq> set sn"
    and "card (grantor ` tuple ` set rs - set sn) < rounds"
  shows "walk_up rounds rs author edge frontier sn \<longleftrightarrow> (\<exists>x\<in>set sn. (x, author) \<in> E\<^sup>+)"
  using assms(2-)
proof (induction rounds arbitrary: frontier sn)
  case 0
  then show ?case by simp
next
  case (Suc rounds)
  let ?w = "walk_round rs author edge frontier sn"
  note w = walk_round_spec [where rs = rs and edge = edge and author = author and frontier = frontier
      and sn = sn, folded E_def]
  have range: "E `` X \<subseteq> grantor ` tuple ` set rs" for X
    by (force simp: E_def step_up_def in_set_enumerate_eq)
  show ?case
  proof (cases "author \<in> E `` set frontier")
    case True
    with Suc.prems(2) show ?thesis by (auto simp: w(1))
  next
    case False
    show ?thesis
    proof (cases "nexts ?w = []")
      case True
      then have "E `` set frontier \<subseteq> set sn" using w(3) [OF False] by auto
      with Suc.prems(3) have "E `` set sn \<subseteq> set sn" by blast
      with Suc.prems(1) closed_no_path [of _ author E "set sn"] False True show ?thesis
        by (auto simp: w(1))
    next
      case nonempty: False
      have seen: "set (seen ?w) = set sn \<union> E `` set frontier" by (rule w(2) [OF False])
      have nexts: "set (nexts ?w) = E `` set frontier - set sn" by (rule w(3) [OF False])
      obtain y where y: "y \<in> E `` set frontier" "y \<notin> set sn"
        using nonempty nexts by (metis DiffE ex_in_conv set_empty)
      then have "y \<in> grantor ` tuple ` set rs" using range by blast
      with y have "grantor ` tuple ` set rs - set (seen ?w) \<subset> grantor ` tuple ` set rs - set sn"
        unfolding seen by blast
      then have "card (grantor ` tuple ` set rs - set (seen ?w)) < card (grantor ` tuple ` set rs - set sn)"
        by (rule psubset_card_mono [rotated]) simp
      then have "card (grantor ` tuple ` set rs - set (seen ?w)) < rounds"
        using Suc.prems(4) by linarith
      moreover have "author \<notin> set (seen ?w)" using Suc.prems(1) False seen by auto
      moreover have "set (nexts ?w) \<subseteq> set (seen ?w)" using seen nexts by auto
      moreover have "E `` (set (seen ?w) - set (nexts ?w)) \<subseteq> set (seen ?w)"
        using Suc.prems(3) unfolding seen nexts by blast
      ultimately have "walk_up rounds rs author edge (nexts ?w) (seen ?w)
          \<longleftrightarrow> (\<exists>x\<in>set (seen ?w). (x, author) \<in> E\<^sup>+)"
        by (intro Suc.IH)
      also have "\<dots> \<longleftrightarrow> (\<exists>x\<in>set sn. (x, author) \<in> E\<^sup>+)"
        using Suc.prems(2) unfolding seen by (blast intro: trancl_into_trancl2)
      finally show ?thesis using False nonempty by (simp add: w(1) Let_def)
    qed
  qed
qed

definition superior :: "paths \<Rightarrow> acl_record set \<Rightarrow> flag \<Rightarrow> flag \<Rightarrow> bytes \<Rightarrow> clientid rel" where
  "superior P S R V path =
     {(who, grantor (tuple r)) | who r. r \<in> S \<and> R r \<and> \<not> V r \<and> is_own_allow (tuple r) who
        \<and> resolved_governs (P r) path}"

lemma step_up_superior:
  "step_up (own_edge path (map P rs) (map R rs) (map V rs)) rs = superior P (set rs) R V path"
proof -
  have "(\<exists>i. (i, r) \<in> set (enumerate 0 rs) \<and> own_edge path (map P rs) (map R rs) (map V rs) who i r)
      \<longleftrightarrow> r \<in> set rs \<and> R r \<and> \<not> V r \<and> is_own_allow (tuple r) who \<and> resolved_governs (P r) path" for r who
    unfolding in_enumerate in_set_conv_nth [of r rs] by (auto simp: own_edge_def)
  then show ?thesis unfolding step_up_def superior_def by blast
qed

lemma at_or_above_spec:
  "at_or_above rs (map P rs) creator author granter path (map R rs) (map V rs) \<longleftrightarrow>
     author = creator \<or> author = granter \<or> (granter, author) \<in> (superior P (set rs) R V path)\<^sup>+"
proof (cases "author = creator \<or> author = granter")
  case True
  then show ?thesis by (auto simp: at_or_above_def)
next
  case False
  have "card (grantor ` tuple ` set rs - {granter}) \<le> card (grantor ` tuple ` set rs)"
    by (simp add: card_mono)
  also have "\<dots> \<le> length rs"
    by (metis card_image_le card_length finite_set list.set_map order_trans length_map)
  finally have "card (grantor ` tuple ` set rs - set [granter]) < Suc (length rs)" by simp
  with False show ?thesis
    unfolding at_or_above_def
    by (subst walk_up_spec) (auto simp: step_up_superior)
qed

section \<open>The verdict depends on the record set only\<close>

definition suppressed_spec ::
    "paths \<Rightarrow> acl_record set \<Rightarrow> clientid \<Rightarrow> flag \<Rightarrow> flag \<Rightarrow> acl_actor \<Rightarrow> bytes \<Rightarrow> capability
      \<Rightarrow> clientid \<Rightarrow> bytes \<Rightarrow> bool \<Rightarrow> bool"
where
  "suppressed_spec P S creator R V actor path capability granter granter_path via_own \<longleftrightarrow>
     (\<exists>r\<in>S. \<not> V r \<and> effect (tuple r) = EffDeny \<and> subject_matches (subject (tuple r)) actor
        \<and> resolved_governs (P r) path
        \<and> (grant (tuple r) = GrantCapability capability \<or> grant (tuple r) = GrantCapability CapOwn \<and> via_own)
        \<and> (grantor (tuple r) = creator \<or> grantor (tuple r) = granter
            \<or> (granter, grantor (tuple r)) \<in> (superior P S R V granter_path)\<^sup>+))"

definition stands_spec ::
    "paths \<Rightarrow> acl_record set \<Rightarrow> clientid \<Rightarrow> flag \<Rightarrow> flag \<Rightarrow> acl_actor \<Rightarrow> bytes \<Rightarrow> capability \<Rightarrow> acl_record \<Rightarrow> bool"
where
  "stands_spec P S creator R V actor path capability r \<longleftrightarrow>
     \<not> V r \<and> R r \<and> effect (tuple r) = EffAllow \<and> subject_matches (subject (tuple r)) actor
     \<and> (\<exists>p c. P r = Some p \<and> governs p path \<and> grant (tuple r) = GrantCapability c
          \<and> (c = CapOwn \<or> c = capability)
          \<and> \<not> suppressed_spec P S creator R V actor path capability (grantor (tuple r)) p (c = CapOwn))"

definition verdict_spec ::
    "nat \<Rightarrow> paths \<Rightarrow> acl_record set \<Rightarrow> clientid \<Rightarrow> acl_actor \<Rightarrow> bytes \<Rightarrow> capability \<Rightarrow> acl_decision" where
  "verdict_spec n P S creator actor path capability =
     (case authority_spec n P S creator of (R, V) \<Rightarrow>
        if actor_id actor = creator
             \<and> \<not> suppressed_spec P S creator R V actor path capability creator [] True
           \<or> (\<exists>r\<in>S. stands_spec P S creator R V actor path capability r) then DecAllow
        else if \<exists>r\<in>S. \<not> V r \<and> effect (tuple r) = EffDeny \<and> subject_matches (subject (tuple r)) actor
             \<and> resolved_governs (P r) path \<and> grant (tuple r) = GrantCapability capability then DecDeny
        else DecAbstain)"

lemma deny_suppresses_spec:
  "deny_suppresses rs (map P rs) creator actor path capability granter granter_path via_own
     (map R rs) (map V rs) =
   suppressed_spec P (set rs) creator R V actor path capability granter granter_path via_own"
  unfolding deny_suppresses_def list_ex_enumerate suppressed_spec_def at_or_above_spec
    ex_nth_iff [symmetric]
  by (intro ex_cong1 conj_cong refl) (auto split: acl_grant.splits)

lemma allow_stands_spec:
  "i < length rs \<Longrightarrow>
   allow_stands rs (map P rs) creator actor path capability (map R rs) (map V rs) i (rs ! i) =
   stands_spec P (set rs) creator R V actor path capability (rs ! i)"
  by (auto simp: allow_stands_def stands_spec_def deny_suppresses_spec Let_def
      split: option.splits acl_grant.splits)

lemma decide_with_authority_spec:
  "decide_capability_with_authority rs creator actor path capability resolve =
     verdict_spec (length rs) (\<lambda>r. scope_resolve resolve (scope (tuple r))) (set rs) creator
       actor path capability"
proof -
  let ?P = "\<lambda>r. scope_resolve resolve (scope (tuple r))"
  obtain R V where a: "authority_spec (length rs) ?P (set rs) creator = (R, V)"
    by (rule prod.exhaust)
  have A: "list_ex (\<lambda>(i, r). allow_stands rs (map ?P rs) creator actor path capability (map R rs) (map V rs) i r)
      (enumerate 0 rs) \<longleftrightarrow> (\<exists>r\<in>set rs. stands_spec ?P (set rs) creator R V actor path capability r)"
    unfolding list_ex_enumerate ex_nth_iff [symmetric] by (metis allow_stands_spec)
  have B: "list_ex (\<lambda>(i, r). deny_floors (map ?P rs) actor path capability (map V rs) i r)
      (enumerate 0 rs) \<longleftrightarrow> (\<exists>r\<in>set rs. \<not> V r \<and> effect (tuple r) = EffDeny
        \<and> subject_matches (subject (tuple r)) actor
        \<and> resolved_governs (?P r) path \<and> grant (tuple r) = GrantCapability capability)"
    unfolding list_ex_enumerate ex_nth_iff [symmetric]
    by (intro ex_cong1 conj_cong refl) (simp add: deny_floors_def)
  show ?thesis
    unfolding decide_capability_with_authority_def verdict_spec_def resolve_scopes_def Let_def
      solve_authority_spec a
    by (simp only: prod.case A B deny_suppresses_spec)
qed

text \<open>
  \<open>at_or_above\<close> decides superiority: an author is at or above a grantor exactly if it is the
  creator, the grantor itself, or reached from the grantor by delegations of rooted, unrevoked
  ownership over the path. The bounded walk never stops short of the answer.
\<close>
theorem at_or_above_iff_superior:
  "at_or_above rs (map P rs) creator author granter path (map R rs) (map V rs) \<longleftrightarrow>
     author = creator \<or> author = granter \<or> (granter, author) \<in> (superior P (set rs) R V path)\<^sup>+"
  by (rule at_or_above_spec)

text \<open>
  The authority verdict is a function of the merged record set: two replicas that hold the
  same records in any order decide every request alike, including where the rooting and
  revocation passes oscillate and the flux rule settles them.
\<close>

theorem authority_order_independent:
  assumes "mset records = mset records'"
  shows "decide_capability_with_authority records creator actor path capability resolve =
    decide_capability_with_authority records' creator actor path capability resolve"
  using mset_eq_setD [OF assms] mset_eq_length [OF assms] by (simp add: decide_with_authority_spec)

section \<open>Delegation chains\<close>

text \<open>
  The authority a grant should have: its grantor is the creator, or holds an ownership over the
  grant's path that is itself delegated.
\<close>

inductive delegated :: "paths \<Rightarrow> acl_record set \<Rightarrow> clientid \<Rightarrow> acl_record \<Rightarrow> bool"
  for P S creator where
  by_creator:
    "r \<in> S \<Longrightarrow> P r = Some p \<Longrightarrow> grantor (tuple r) = creator \<Longrightarrow> delegated P S creator r"
| by_owner:
    "r \<in> S \<Longrightarrow> P r = Some p \<Longrightarrow> r' \<in> S \<Longrightarrow> is_own_allow (tuple r') (grantor (tuple r)) \<Longrightarrow>
     resolved_governs (P r') p \<Longrightarrow> delegated P S creator r' \<Longrightarrow> delegated P S creator r"

definition sound_roots :: "paths \<Rightarrow> acl_record set \<Rightarrow> clientid \<Rightarrow> flag \<Rightarrow> bool" where
  "sound_roots P S creator R \<longleftrightarrow> (\<forall>r\<in>S. R r \<longrightarrow> delegated P S creator r)"

lemma root_spec_sound: "sound_roots P S creator R \<Longrightarrow> sound_roots P S creator (root_spec P S creator R V)"
  by (auto simp: sound_roots_def root_spec_def owns_spec_def intro: delegated.intros)

lemma solve_spec_sound:
  "sound_roots P S creator R \<Longrightarrow> solve_spec k P S creator R V = (R', V', b) \<Longrightarrow> sound_roots P S creator R'"
  by (induction k arbitrary: R V) (auto split: if_splits dest: root_spec_sound)

lemma settle_spec_sound:
  "sound_roots P S creator R \<Longrightarrow> sound_roots P S creator (settle_spec k P S creator R V)"
  by (induction k arbitrary: R) (auto dest: root_spec_sound)

lemma authority_spec_sound:
  "authority_spec n P S creator = (R, V) \<Longrightarrow> sound_roots P S creator R"
  by (auto simp: authority_spec_def Let_def sound_roots_def [of _ _ _ "\<lambda>_. False"]
      simp del: solve_spec.simps settle_spec.simps split: prod.splits bool.splits
      dest!: solve_spec_sound [rotated] intro!: settle_spec_sound)

text \<open>
  No authority without delegation: if the evaluator allows a request, the actor is the
  creator, or some record allows it the capability or ownership over the path and that record's
  grantor chain leads, by ownership over the granted path at every step, up to the creator.
\<close>

theorem authority_needs_delegation:
  assumes "evaluate_with_authority records creator actor path capability resolve"
  shows "actor_id actor = creator \<or>
    (\<exists>r\<in>set records. effect (tuple r) = EffAllow \<and> subject_matches (subject (tuple r)) actor
       \<and> resolved_governs (scope_resolve resolve (scope (tuple r))) path
       \<and> grant (tuple r) \<in> {GrantCapability capability, GrantCapability CapOwn}
       \<and> delegated (\<lambda>r. scope_resolve resolve (scope (tuple r))) (set records) creator r)"
proof -
  let ?P = "\<lambda>r. scope_resolve resolve (scope (tuple r))"
  obtain R V where a: "authority_spec (length records) ?P (set records) creator = (R, V)"
    by (rule prod.exhaust)
  then have "sound_roots ?P (set records) creator R" by (rule authority_spec_sound)
  moreover from assms a have "actor_id actor = creator
      \<or> (\<exists>r\<in>set records. stands_spec ?P (set records) creator R V actor path capability r)"
    by (auto simp: evaluate_with_authority_def decide_with_authority_spec verdict_spec_def
        split: if_splits)
  ultimately show ?thesis
    by (force simp: stands_spec_def sound_roots_def resolved_governs_def)
qed

section \<open>Exactness without revokes\<close>

definition unrevoked :: "acl_record set \<Rightarrow> bool" where
  "unrevoked S \<longleftrightarrow> (\<forall>r\<in>S. revoked_by r = [])"

lemma revoke_spec_unrevoked: "unrevoked S \<Longrightarrow> r \<in> S \<Longrightarrow> \<not> revoke_spec P S creator R V r"
  by (simp add: unrevoked_def revoke_spec_def)

lemma root_spec_mono:
  "(\<And>r. r \<in> S \<Longrightarrow> R r \<Longrightarrow> R' r) \<Longrightarrow> (\<And>r. r \<in> S \<Longrightarrow> \<not> V' r) \<Longrightarrow>
     root_spec P S creator R V r \<Longrightarrow> root_spec P S creator R' V' r"
  by (auto simp: root_spec_def owns_spec_def)

lemma solve_spec_converges:
  assumes "finite S" and "unrevoked S" and "\<And>r. r \<in> S \<Longrightarrow> \<not> V r"
    and "\<And>r. r \<in> S \<Longrightarrow> R r \<Longrightarrow> root_spec P S creator R V r"
    and "card {r \<in> S. \<not> R r} < k"
  shows "\<exists>R' V'. solve_spec k P S creator R V = (R', V', True)
    \<and> (\<forall>r\<in>S. root_spec P S creator R' V' r = R' r) \<and> (\<forall>r\<in>S. \<not> V' r)"
  using assms(3-)
proof (induction k arbitrary: R V)
  case 0
  then show ?case by simp
next
  case (Suc k)
  let ?R = "root_spec P S creator R V" and ?V = "revoke_spec P S creator R V"
  have V: "\<And>r. r \<in> S \<Longrightarrow> \<not> ?V r" using assms(2) by (rule revoke_spec_unrevoked)
  show ?case
  proof (cases "\<forall>r\<in>S. ?R r = R r")
    case True
    then show ?thesis using V Suc.prems(1) by auto
  next
    case False
    then obtain y where y: "y \<in> S" "?R y" "\<not> R y" using Suc.prems(2) by blast
    have "{r \<in> S. \<not> ?R r} \<subset> {r \<in> S. \<not> R r}" using y Suc.prems(2) by blast
    then have "card {r \<in> S. \<not> ?R r} < card {r \<in> S. \<not> R r}"
      by (rule psubset_card_mono [rotated]) (simp add: assms(1))
    then have "card {r \<in> S. \<not> ?R r} < k" using Suc.prems(3) by linarith
    moreover have "root_spec P S creator ?R ?V r" if "r \<in> S" "?R r" for r
      using root_spec_mono [of S R ?R ?V P creator V r] that V Suc.prems(2) by blast
    ultimately have "\<exists>R' V'. solve_spec k P S creator ?R ?V = (R', V', True)
        \<and> (\<forall>r\<in>S. root_spec P S creator R' V' r = R' r) \<and> (\<forall>r\<in>S. \<not> V' r)"
      using V by (intro Suc.IH)
    then show ?thesis using False by auto
  qed
qed

lemma delegated_rooted:
  assumes "\<forall>r\<in>S. root_spec P S creator R V r = R r" and "\<forall>r\<in>S. \<not> V r"
  shows "delegated P S creator r \<Longrightarrow> R r"
proof (induction rule: delegated.induct)
  case (by_creator r p)
  then have "root_spec P S creator R V r" by (simp add: root_spec_def owns_spec_def)
  with by_creator assms(1) show ?case by blast
next
  case (by_owner r p r')
  then have "root_spec P S creator R V r" using assms(2) by (auto simp: root_spec_def owns_spec_def)
  with by_owner assms(1) show ?case by blast
qed

lemma authority_spec_exact:
  assumes "unrevoked S" and "finite S" and "card S \<le> n"
    and "authority_spec n P S creator = (R, V)" and "r \<in> S"
  shows "R r \<longleftrightarrow> delegated P S creator r" and "\<not> V r"
proof -
  have "\<exists>R' V'. solve_spec (2 * n + 2) P S creator (\<lambda>_. False) (\<lambda>_. False) = (R', V', True)
      \<and> (\<forall>r\<in>S. root_spec P S creator R' V' r = R' r) \<and> (\<forall>r\<in>S. \<not> V' r)"
    by (rule solve_spec_converges [OF assms(2,1)]) (use assms(3) in simp_all)
  then obtain R' V'
    where "solve_spec (2 * n + 2) P S creator (\<lambda>_. False) (\<lambda>_. False) = (R', V', True)"
      and fixp: "\<forall>r\<in>S. root_spec P S creator R' V' r = R' r" "\<forall>r\<in>S. \<not> V' r"
    by blast
  then have "R = R'" "V = V'" using assms(4) by (simp_all add: authority_spec_def del: solve_spec.simps)
  then show "\<not> V r" using fixp(2) assms(5) by blast
  have "R r \<Longrightarrow> delegated P S creator r"
    using authority_spec_sound [OF assms(4)] assms(5) by (simp add: sound_roots_def)
  with delegated_rooted [OF fixp] \<open>R = R'\<close> show "R r \<longleftrightarrow> delegated P S creator r" by blast
qed


section \<open>The creator\<close>


definition grant_record ::
    "nat \<Rightarrow> acl_subject \<Rightarrow> capability \<Rightarrow> acl_effect \<Rightarrow> bytes \<Rightarrow> clientid \<Rightarrow> acl_record" where
  "grant_record n who cap eff p by_whom =
     \<lparr>tuple = \<lparr>tuple_id = ElementId (word_of_nat n), subject = who, grant = GrantCapability cap,
        effect = eff, scope = ScopePath p, grantor = by_whom\<rparr>, revoked_by = []\<rparr>"

text \<open>
  A co-owner of the root can lock the creator out: once the creator has granted ownership of
  the root to another actor, that actor can grant the creator ownership of the root, which makes
  it the creator's superior in the delegation walk, and its deny then strips the creator of the
  capability. No deny in the set is the creator's own.
\<close>

theorem creator_locked_out:
  "let creator = ClientId 1; owner = ClientId 2;
       records = [grant_record 1 (Actor owner) CapOwn EffAllow [] creator,
                  grant_record 2 (Actor creator) CapOwn EffAllow [] owner,
                  grant_record 3 (Actor creator) CapRead EffDeny [] owner]
   in list_all (\<lambda>r. effect (tuple r) = EffDeny \<longrightarrow> grantor (tuple r) \<noteq> creator) records
      \<and> decide_capability_with_authority records creator (acl_actor_new creator) [] CapRead (\<lambda>_. None)
          = DecDeny"
  by code_simp

theorem creator_locked_out_witness:
  "decide_capability_with_authority
     [grant_record 1 (Actor (ClientId 2)) CapOwn EffAllow [] (ClientId 1),
      grant_record 2 (Actor (ClientId 1)) CapOwn EffAllow [] (ClientId 2),
      grant_record 3 (Actor (ClientId 1)) CapRead EffDeny [] (ClientId 2)]
     (ClientId 1) (acl_actor_new (ClientId 1)) [] CapRead (\<lambda>_. None) = DecDeny"
  using creator_locked_out by (simp add: Let_def)

section \<open>Witnesses\<close>

theorem authority_order_independent_witness:
  "decide_capability_with_authority
     [grant_record 1 (Actor (ClientId 2)) CapOwn EffAllow [] (ClientId 1),
      grant_record 2 Anyone CapRead EffAllow [] (ClientId 2)]
     (ClientId 1) (acl_actor_new (ClientId 3)) [] CapRead (\<lambda>_. None) =
   decide_capability_with_authority
     [grant_record 2 Anyone CapRead EffAllow [] (ClientId 2),
      grant_record 1 (Actor (ClientId 2)) CapOwn EffAllow [] (ClientId 1)]
     (ClientId 1) (acl_actor_new (ClientId 3)) [] CapRead (\<lambda>_. None)"
  by (rule authority_order_independent) simp

theorem authority_needs_delegation_witness:
  "\<exists>r \<in> set [grant_record 1 (Actor (ClientId 2)) CapOwn EffAllow [] (ClientId 1),
      grant_record 2 Anyone CapRead EffAllow [] (ClientId 2)].
     subject_matches (subject (tuple r)) (acl_actor_new (ClientId 3))
     \<and> grant (tuple r) \<in> {GrantCapability CapRead, GrantCapability CapOwn}
     \<and> delegated (\<lambda>r. scope_resolve (\<lambda>_. None) (scope (tuple r)))
        (set [grant_record 1 (Actor (ClientId 2)) CapOwn EffAllow [] (ClientId 1),
              grant_record 2 Anyone CapRead EffAllow [] (ClientId 2)]) (ClientId 1) r"
proof -
  have "evaluate_with_authority
     [grant_record 1 (Actor (ClientId 2)) CapOwn EffAllow [] (ClientId 1),
      grant_record 2 Anyone CapRead EffAllow [] (ClientId 2)]
     (ClientId 1) (acl_actor_new (ClientId 3)) [] CapRead (\<lambda>_. None)"
    by code_simp
  from authority_needs_delegation [OF this] show ?thesis
    by (fastforce simp: acl_actor_new_def)
qed



end
