(* ===== verification/Stamps.thy ===== *)
theory Stamps
  imports Ids
begin

text \<open>
  \<^verbatim>\<open>stamp.rs\<close>: the globally unique CRDT id with its total order, the id of the \<open>k\<close>-th
  codepoint of a text run, and the two lamport ceilings.
\<close>

definition LAMPORT_WIRE_CEILING :: u64 where
  "LAMPORT_WIRE_CEILING = drop_bit 2 (- 1)"

definition LAMPORT_STATE_CEILING :: u64 where
  "LAMPORT_STATE_CEILING = drop_bit 1 (- 1)"

datatype stamp = Stamp (lamport: u64) (client: clientid) (offset: u64)

definition run_member :: "stamp \<Rightarrow> u64 \<Rightarrow> stamp" where
  "run_member s k =
     (case checked_add (lamport s) k of
        Some l \<Rightarrow> Stamp l (client s) (offset s)
      | None \<Rightarrow>
          (let room = - 1 - lamport s; over = k - room
           in Stamp (- 1) (client s) (saturating_add (offset s) over)))"

text \<open>\<open>Ord for Stamp\<close>: lamport, then client, then offset.\<close>

definition stamp_key :: "stamp \<Rightarrow> u64 \<times> clientid \<times> u64" where
  "stamp_key s = (lamport s, client s, offset s)"

instantiation stamp :: linorder
begin

definition less_eq_stamp :: "stamp \<Rightarrow> stamp \<Rightarrow> bool" where
  "a \<le> b \<longleftrightarrow> stamp_key a \<le> stamp_key b"

definition less_stamp :: "stamp \<Rightarrow> stamp \<Rightarrow> bool" where
  "a < b \<longleftrightarrow> stamp_key a < stamp_key b"

instance
proof
  fix a b :: stamp
  show "a \<le> b \<Longrightarrow> b \<le> a \<Longrightarrow> a = b"
    by (auto simp: less_eq_stamp_def stamp_key_def intro!: stamp.expand)
qed (auto simp: less_eq_stamp_def less_stamp_def)

end

lemma stamp_less_iff:
  "a < b \<longleftrightarrow> lamport a < lamport b \<or> lamport a = lamport b \<and>
     (client a < client b \<or> client a = client b \<and> offset a < offset b)"
  by (auto simp: less_stamp_def stamp_key_def)

section \<open>Run members\<close>

lemma run_member_client [simp]: "client (run_member s k) = client s"
  by (simp add: run_member_def Let_def split: option.split)

lemma run_member_fits:
  "unat (lamport s) + unat k < 2 ^ 64 \<Longrightarrow>
     run_member s k = Stamp (lamport s + k) (client s) (offset s)"
  by (simp add: run_member_def checked_add_def)

lemma run_member_over:
  assumes "2 ^ 64 \<le> unat (lamport s) + unat k"
  shows "lamport (run_member s k) = - 1"
    and "unat (offset (run_member s k)) =
      min (unat (offset s) + (unat (lamport s) + unat k - (2 ^ 64 - 1))) (2 ^ 64 - 1)"
proof -
  let ?room = "- 1 - lamport s"
  have room: "unat ?room = 2 ^ 64 - 1 - unat (lamport s)"
    by (subst unat_diff_le) (simp_all add: unat_minus_one_word_eq)
  have "?room \<le> k" using assms by (simp add: word_le_nat_alt room)
  then have over: "unat (k - ?room) = unat (lamport s) + unat k - (2 ^ 64 - 1)"
    using assms unat_lt_pow [of "lamport s"] by (simp add: unat_diff_le room)
  have none: "checked_add (lamport s) k = None" using assms by (simp add: checked_add_None_iff)
  then show "lamport (run_member s k) = - 1" by (simp add: run_member_def Let_def)
  from none over show "unat (offset (run_member s k)) =
      min (unat (offset s) + (unat (lamport s) + unat k - (2 ^ 64 - 1))) (2 ^ 64 - 1)"
    by (simp add: run_member_def Let_def unat_saturating_add)
qed

lemma run_member_0 [simp]: "run_member s 0 = s"
  using unat_lt_pow [of "lamport s"] by (subst run_member_fits) simp_all

text \<open>
  C40. The ids of a text run based at an honestly minted stamp (offset 0) are strictly
  increasing in the stamp order, for every run length a \<open>u64\<close> can count: no two codepoints of
  one run share an id, also where the run passes the lamport ceiling.
\<close>

theorem run_member_strict_mono:
  assumes "offset s = 0" and "j < k"
  shows "run_member s j < run_member s k"
proof -
  have jk: "unat j < unat k" using assms(2) by (simp add: word_less_nat_alt)
  have k64: "unat k < 2 ^ 64" using unat_lt_pow [of k] by simp
  consider "unat (lamport s) + unat k < 2 ^ 64"
    | "unat (lamport s) + unat j < 2 ^ 64" "2 ^ 64 \<le> unat (lamport s) + unat k"
    | "2 ^ 64 \<le> unat (lamport s) + unat j" "2 ^ 64 \<le> unat (lamport s) + unat k"
    using jk by linarith
  then show ?thesis
  proof cases
    case 1
    then show ?thesis using jk
      by (simp add: run_member_fits stamp_less_iff word_less_nat_alt unat_word_ariths)
  next
    case 2
    note over = run_member_over [OF 2(2)]
    have "unat (lamport s + j) \<le> unat (- 1 :: u64)"
      using 2(1) by (simp add: unat_word_ariths unat_minus_one_word_eq)
    moreover have "0 < unat (offset (run_member s k))"
      using over(2) 2(2) assms(1) by simp
    ultimately show ?thesis
      using 2(1) over(1) assms(1)
      by (auto simp: run_member_fits stamp_less_iff word_less_nat_alt word_unat_eq_iff)
  next
    case 3
    note j = run_member_over [OF 3(1)] and k = run_member_over [OF 3(2)]
    have "unat (lamport s) < 2 ^ 64" using unat_lt_pow [of "lamport s"] by simp
    then have "unat (offset (run_member s j)) < unat (offset (run_member s k))"
      using jk k64 3 assms(1) unfolding j(2) k(2) by simp
    with j(1) k(1) show ?thesis by (simp add: stamp_less_iff word_less_nat_alt)
  qed
qed

theorem run_member_strict_mono_witness:
  "run_member (Stamp (- 1) (ClientId 7) 0) 0 < run_member (Stamp (- 1) (ClientId 7) 0) 1"
  by (rule run_member_strict_mono) simp_all

end
