(* ===== verification/Values.thy ===== *)
theory Values
  imports Stamps
begin

text \<open>
  Leaf values (\<^verbatim>\<open>scalar.rs\<close>) and strings. A Rust \<open>char\<close> is a Unicode scalar value, a
  \<open>String\<close> a sequence of them held as UTF-8; \<open>str::from_utf8\<close> accepts exactly the shortest-form
  encodings of scalar values.
\<close>

section \<open>UTF-8\<close>

type_synonym rust_string = "nat list"

definition valid_char :: "nat \<Rightarrow> bool" where
  "valid_char c \<longleftrightarrow> c < 0xD800 \<or> 0xE000 \<le> c \<and> c < 0x110000"

definition byte :: "nat \<Rightarrow> u8" where
  "byte n = word_of_nat n"

definition utf8_char :: "nat \<Rightarrow> bytes" where
  "utf8_char c =
     (if c < 0x80 then [byte c]
      else if c < 0x800 then
        [byte (0xC0 + c div 64), byte (0x80 + c mod 64)]
      else if c < 0x10000 then
        [byte (0xE0 + c div 4096), byte (0x80 + c div 64 mod 64),
         byte (0x80 + c mod 64)]
      else
        [byte (0xF0 + c div 262144), byte (0x80 + c div 4096 mod 64),
         byte (0x80 + c div 64 mod 64), byte (0x80 + c mod 64)])"

definition as_utf8 :: "rust_string \<Rightarrow> bytes" where
  "as_utf8 s = concat (map utf8_char s)"

definition is_cont :: "u8 \<Rightarrow> bool" where
  "is_cont b \<longleftrightarrow> 0x80 \<le> unat b \<and> unat b < 0xC0"

definition cont_bits :: "u8 \<Rightarrow> nat" where
  "cont_bits b = unat b - 0x80"

text \<open>One scalar value from the front of a byte string, with the bytes left over.\<close>

definition utf8_next :: "bytes \<Rightarrow> (nat \<times> bytes) option" where
  "utf8_next bs =
     (case bs of
        [] \<Rightarrow> None
      | a # r \<Rightarrow>
          (if unat a < 0x80 then Some (unat a, r)
           else if 0xC0 \<le> unat a \<and> unat a < 0xE0 then
             (case r of
                b # r' \<Rightarrow>
                  (let c = (unat a - 0xC0) * 64 + cont_bits b
                   in if is_cont b \<and> 0x80 \<le> c then Some (c, r') else None)
              | _ \<Rightarrow> None)
           else if 0xE0 \<le> unat a \<and> unat a < 0xF0 then
             (case r of
                b # d # r' \<Rightarrow>
                  (let c = (unat a - 0xE0) * 4096 + cont_bits b * 64 + cont_bits d
                   in if is_cont b \<and> is_cont d \<and> 0x800 \<le> c \<and> valid_char c
                      then Some (c, r') else None)
              | _ \<Rightarrow> None)
           else if 0xF0 \<le> unat a \<and> unat a < 0xF8 then
             (case r of
                b # d # e # r' \<Rightarrow>
                  (let c = (unat a - 0xF0) * 262144 + cont_bits b * 4096 + cont_bits d * 64 + cont_bits e
                   in if is_cont b \<and> is_cont d \<and> is_cont e \<and> 0x10000 \<le> c \<and> valid_char c
                      then Some (c, r') else None)
              | _ \<Rightarrow> None)
           else None))"

lemma utf8_next_shorter: "utf8_next bs = Some (c, r) \<Longrightarrow> length r < length bs"
  by (auto simp: utf8_next_def Let_def split: list.splits if_splits)

function from_utf8 :: "bytes \<Rightarrow> rust_string option" where
  "from_utf8 bs =
     (if bs = [] then Some []
      else case utf8_next bs of
        None \<Rightarrow> None
      | Some (c, r) \<Rightarrow> (case from_utf8 r of None \<Rightarrow> None | Some cs \<Rightarrow> Some (c # cs)))"
  by pat_completeness auto
termination
  by (relation "measure length") (auto dest: utf8_next_shorter)

declare from_utf8.simps [simp del]

section \<open>Scalars\<close>

type_synonym array16 = "128 word" \<comment> \<open>\<open>[u8; 16]\<close>, big-endian\<close>

datatype blob_ref =
  BlobRef (blob_id: array16) (blob_mime: rust_string) (blob_size: u64) (blob_inline: "bytes option")

datatype scalar =
    SNull
  | SBool bool
  | SInt i64
  | SBytes bytes
  | SBlobRef blob_ref
  | SElementRef elementid

text \<open>What the Rust types guarantee of a scalar: the characters of its strings are scalar values.\<close>

fun scalar_typed :: "scalar \<Rightarrow> bool" where
  "scalar_typed (SBlobRef r) = list_all valid_char (blob_mime r)"
| "scalar_typed _ = True"

section \<open>UTF-8 is a round trip\<close>

lemma unat_byte: "n < 256 \<Longrightarrow> unat (byte n) = n"
  by (simp add: byte_def unat_of_nat)

lemma byte_unat [simp]: "byte (unat b) = b"
  by (simp add: byte_def)

lemma cont_byte [simp]:
  "is_cont (byte (128 + n mod 64))" "cont_bits (byte (128 + n mod 64)) = n mod 64"
  by (simp_all add: is_cont_def cont_bits_def unat_byte)

lemma split_sextet: "n div 64 * 64 + n mod 64 = (n :: nat)"
  by simp

lemma split_sextets3: "n div 4096 * 4096 + n div 64 mod 64 * 64 + n mod 64 = (n :: nat)"
proof -
  have "n div 4096 = n div 64 div 64" by (simp add: div_mult2_eq [symmetric])
  then show ?thesis using split_sextet [of n] split_sextet [of "n div 64"] by linarith
qed

lemma split_sextets4:
  "n div 262144 * 262144 + n div 4096 mod 64 * 4096 + n div 64 mod 64 * 64 + n mod 64 = (n :: nat)"
proof -
  have "n div 262144 = n div 4096 div 64" by (simp add: div_mult2_eq [symmetric])
  then show ?thesis using split_sextets3 [of n] split_sextet [of "n div 4096"] by linarith
qed

lemma utf8_next_char: "valid_char c \<Longrightarrow> utf8_next (utf8_char c @ r) = Some (c, r)"
proof -
  assume v: "valid_char c"
  then have c: "c < 0x110000" by (auto simp: valid_char_def)
  consider "c < 0x80" | "0x80 \<le> c" "c < 0x800" | "0x800 \<le> c" "c < 0x10000" | "0x10000 \<le> c"
    by linarith
  then show ?thesis
  proof cases
    case 1
    then show ?thesis by (simp add: utf8_char_def utf8_next_def unat_byte)
  next
    case 2
    then have "unat (byte (0xC0 + c div 64)) = 0xC0 + c div 64" by (simp add: unat_byte)
    moreover have "c div 64 < 32" using 2 by simp
    ultimately show ?thesis using 2 by (simp add: utf8_char_def utf8_next_def)
  next
    case 3
    then have "unat (byte (0xE0 + c div 4096)) = 0xE0 + c div 4096" by (simp add: unat_byte)
    moreover have "c div 4096 < 16" using 3 by simp
    ultimately show ?thesis
      using 3 v by (simp add: utf8_char_def utf8_next_def split_sextets3)
  next
    case 4
    with c have "unat (byte (0xF0 + c div 262144)) = 0xF0 + c div 262144" by (simp add: unat_byte)
    moreover have "c div 262144 < 8" using c by simp
    ultimately show ?thesis
      using 4 v by (simp add: utf8_char_def utf8_next_def split_sextets4)
  qed
qed

lemma utf8_char_nonempty [simp]: "utf8_char c \<noteq> []"
  by (simp add: utf8_char_def)

lemma from_as_utf8: "list_all valid_char s \<Longrightarrow> from_utf8 (as_utf8 s) = Some s"
proof (induction s)
  case Nil
  then show ?case by (simp add: as_utf8_def from_utf8.simps)
next
  case (Cons c s)
  then show ?case
    by (subst from_utf8.simps) (simp add: as_utf8_def utf8_next_char)
qed

lemma is_contE:
  assumes "is_cont b"
  obtains n where "n < 64" and "b = byte (128 + n)" and "cont_bits b = n"
proof
  let ?n = "unat b - 128"
  show "?n < 64" and "cont_bits b = ?n" using assms by (auto simp: is_cont_def cont_bits_def)
  show "b = byte (128 + ?n)" using assms byte_unat [of b] by (simp add: is_cont_def)
qed

lemma divmod_sextet: "m < 64 \<Longrightarrow> (m + k * 64) div 64 = k" "m < 64 \<Longrightarrow> (m + k * 64) mod 64 = (m :: nat)"
  by simp_all

lemma utf8_next_inverse:
  assumes "utf8_next bs = Some (c, r)"
  shows "valid_char c \<and> bs = utf8_char c @ r"
proof -
  obtain a t where bs: "bs = a # t" using assms by (cases bs) (auto simp: utf8_next_def)
  consider "unat a < 0x80" | "0xC0 \<le> unat a" "unat a < 0xE0"
    | "0xE0 \<le> unat a" "unat a < 0xF0" | "0xF0 \<le> unat a" "unat a < 0xF8"
    using assms bs by (force simp: utf8_next_def split: if_splits)
  then show ?thesis
  proof cases
    case 1
    with assms bs show ?thesis by (auto simp: utf8_next_def utf8_char_def valid_char_def)
  next
    case 2
    define x where "x = unat a - 0xC0"
    have x: "x < 32" "a = byte (0xC0 + x)" using 2 by (simp_all add: x_def)
    from assms bs 2 obtain b where t: "t = b # r" and b: "is_cont b"
      and c: "c = x * 64 + cont_bits b" "0x80 \<le> c"
      by (auto simp: utf8_next_def Let_def x_def split: list.splits if_splits)
    from b obtain n where "n < 64" "b = byte (128 + n)" "cont_bits b = n" by (rule is_contE)
    with x c bs t show ?thesis by (simp add: utf8_char_def valid_char_def)
  next
    case 3
    define x where "x = unat a - 0xE0"
    have x: "x < 16" "a = byte (0xE0 + x)" using 3 by (simp_all add: x_def)
    from assms bs 3 obtain b d where t: "t = b # d # r" and bd: "is_cont b" "is_cont d"
      and c: "c = x * 4096 + cont_bits b * 64 + cont_bits d" "0x800 \<le> c" "valid_char c"
      by (auto simp: utf8_next_def Let_def x_def split: list.splits if_splits)
    from bd(1) obtain n where n: "n < 64" "b = byte (128 + n)" "cont_bits b = n" by (rule is_contE)
    from bd(2) obtain m where m: "m < 64" "d = byte (128 + m)" "cont_bits d = m" by (rule is_contE)
    have c64: "c = m + (x * 64 + n) * 64" using c(1) n m by simp
    have "c div 64 = x * 64 + n" "c mod 64 = m" unfolding c64 using m(1) by (rule divmod_sextet)+
    moreover from this have "c div 4096 = x" "c div 64 mod 64 = n"
      using n by (simp_all add: div_mult2_eq [of c 64 64, simplified])
    ultimately show ?thesis using x c n m bs t by (simp add: utf8_char_def)
  next
    case 4
    define x where "x = unat a - 0xF0"
    have x: "x < 8" "a = byte (0xF0 + x)" using 4 by (simp_all add: x_def)
    from assms bs 4 obtain b d e where t: "t = b # d # e # r"
      and bd: "is_cont b" "is_cont d" "is_cont e"
      and c: "c = x * 262144 + cont_bits b * 4096 + cont_bits d * 64 + cont_bits e"
        "0x10000 \<le> c" "valid_char c"
      by (auto simp: utf8_next_def Let_def x_def split: list.splits if_splits)
    from bd(1) obtain n where n: "n < 64" "b = byte (128 + n)" "cont_bits b = n" by (rule is_contE)
    from bd(2) obtain m where m: "m < 64" "d = byte (128 + m)" "cont_bits d = m" by (rule is_contE)
    from bd(3) obtain k where k: "k < 64" "e = byte (128 + k)" "cont_bits e = k" by (rule is_contE)
    have c64: "c = k + (m + (x * 64 + n) * 64) * 64" using c(1) n m k by simp
    have q: "c div 64 = m + (x * 64 + n) * 64" "c mod 64 = k" unfolding c64 using k(1) by (rule divmod_sextet)+
    have "c div 4096 = x * 64 + n" "c div 64 mod 64 = m"
      using m(1) unfolding q(1) div_mult2_eq [of c 64 64, simplified] by (rule divmod_sextet)+
    moreover from this have "c div 262144 = x" "c div 4096 mod 64 = n"
      using n by (simp_all add: div_mult2_eq [of c 4096 64, simplified])
    ultimately show ?thesis using q x c n m k bs t by (simp add: utf8_char_def)
  qed
qed

lemma as_from_utf8: "from_utf8 bs = Some s \<Longrightarrow> list_all valid_char s \<and> as_utf8 s = bs"
proof (induction bs arbitrary: s rule: from_utf8.induct)
  case (1 bs)
  show ?case
  proof (cases "bs = []")
    case True
    with "1.prems" show ?thesis by (simp add: as_utf8_def from_utf8.simps)
  next
    case False
    with "1.prems" obtain c r cs
      where n: "utf8_next bs = Some (c, r)" and f: "from_utf8 r = Some cs" and s: "s = c # cs"
      by (subst (asm) from_utf8.simps) (auto split: option.splits)
    from "1.IH" [OF False n refl f] have "list_all valid_char cs \<and> as_utf8 cs = r" .
    with utf8_next_inverse [OF n] s show ?thesis by (simp add: as_utf8_def)
  qed
qed

end
