(* ===== verification/Ops.thy ===== *)
theory Ops
  imports Values Acl
begin

text \<open>
  \<^verbatim>\<open>op.rs\<close> with the positions its operations carry (\<open>Side\<close> and \<open>Anchor\<close> of \<^verbatim>\<open>list.rs\<close>,
  \<open>RelativePosition\<close> of \<^verbatim>\<open>anchor.rs\<close>, the range anchors of \<^verbatim>\<open>ranged.rs\<close>): the op envelope,
  the closed enum of primitive mutations, the id-space span of an op and the handling of
  transaction groups that a per-op filter splits.
\<close>

section \<open>Positions\<close>

datatype side = LeftSide | RightSide

instantiation side :: linorder
begin

definition less_eq_side :: "side \<Rightarrow> side \<Rightarrow> bool" where
  "a \<le> b \<longleftrightarrow> a = LeftSide \<or> b = RightSide"

definition less_side :: "side \<Rightarrow> side \<Rightarrow> bool" where
  "a < b \<longleftrightarrow> a = LeftSide \<and> b = RightSide"

instance
proof
  fix a b c :: side
  show "a < b \<longleftrightarrow> a \<le> b \<and> \<not> b \<le> a"
    by (cases a; cases b) (simp_all add: less_eq_side_def less_side_def)
  show "a \<le> a" by (cases a) (simp_all add: less_eq_side_def)
  show "a \<le> b \<Longrightarrow> b \<le> c \<Longrightarrow> a \<le> c"
    by (cases b) (simp_all add: less_eq_side_def)
  show "a \<le> b \<Longrightarrow> b \<le> a \<Longrightarrow> a = b"
    by (cases a; cases b) (simp_all add: less_eq_side_def)
  show "a \<le> b \<or> b \<le> a" by (cases a) (simp_all add: less_eq_side_def)
qed

end

datatype anchor = Anchor (parent: "stamp option") (side: side)

definition anchor_key :: "anchor \<Rightarrow> stamp option \<times> side" where
  "anchor_key a = (parent a, side a)"

instantiation anchor :: linorder
begin

definition less_eq_anchor :: "anchor \<Rightarrow> anchor \<Rightarrow> bool" where
  "a \<le> b \<longleftrightarrow> anchor_key a \<le> anchor_key b"

definition less_anchor :: "anchor \<Rightarrow> anchor \<Rightarrow> bool" where
  "a < b \<longleftrightarrow> anchor_key a < anchor_key b"

instance
proof
  fix a b :: anchor
  have inject: "anchor_key a = anchor_key b \<Longrightarrow> a = b"
    by (simp add: anchor_key_def anchor.expand)
  show "a \<le> b \<Longrightarrow> b \<le> a \<Longrightarrow> a = b"
    unfolding less_eq_anchor_def by (rule inject [OF order.antisym])
qed (auto simp: less_eq_anchor_def less_anchor_def)

end

datatype relative_position = PosStart | PosEnd | PosBefore stamp | PosAfter stamp

datatype range_anchor = RangeAnchor (seq: elementid) (pos: relative_position)

datatype ranged_init = InitScalar scalar | InitComposite element_kind

definition is_composite_payload_kind :: "element_kind \<Rightarrow> bool" where
  "is_composite_payload_kind kind \<longleftrightarrow> kind = KMap \<or> kind = KList \<or> kind = KText"

section \<open>Operations\<close>

datatype op_id = OpId (op_client: clientid) (op_seq: u64)

datatype tx_id = TxId (tx_word: u64)

datatype tx = Tx (group_id: tx_id) (member_count: u32)

definition MAX_TX_MEMBERS :: u32 where
  "MAX_TX_MEMBERS = 1000"

definition tx_id_derive :: "v5 \<Rightarrow> u64 list \<Rightarrow> tx_id" where
  "tx_id_derive new_v5 seqs =
     (let name = concat (map (\<lambda>s. be_bytes 8 (unat s)) (sort seqs));
          digest = uuid_into_bytes (new_v5 0 name)
      in TxId (xor (word_of_nat (be_value (take 8 digest))) (word_of_nat (be_value (drop 8 digest)))))"

datatype op_kind =
    RegisterSet bytes scalar
  | CounterInc bytes u32
  | CounterDec bytes u32
  | MapSet bytes scalar
  | MapDelete bytes
  | MapCreate bytes
  | ListCreate bytes
  | ListInsert scalar anchor
  | ListDelete stamp
  | TextCreate bytes
  | TextInsert rust_string anchor
  | TextDelete "stamp list"
  | XmlElementCreate bytes bytes
  | XmlFragmentCreate bytes
  | XmlInsertChild "bytes option" anchor
  | XmlMove elementid anchor
  | RangedCreate range_anchor range_anchor ranged_init "bytes option"
  | RangedSetPayload elementid scalar
  | RangedDelete elementid
  | AclGrantOp acl_subject acl_grant acl_effect acl_scope clientid
  | AclRevoke elementid
  | XmlReveal elementid "bytes option"

fun creates_container :: "op_kind \<Rightarrow> bool" where
  "creates_container (MapCreate _) = True"
| "creates_container (ListCreate _) = True"
| "creates_container (TextCreate _) = True"
| "creates_container (XmlElementCreate _ _) = True"
| "creates_container (XmlFragmentCreate _) = True"
| "creates_container (XmlInsertChild _ _) = True"
| "creates_container (XmlReveal _ _) = True"
| "creates_container (RangedCreate _ _ payload _) =
     (case payload of InitComposite _ \<Rightarrow> True | InitScalar _ \<Rightarrow> False)"
| "creates_container (RegisterSet _ _) = False"
| "creates_container (CounterInc _ _) = False"
| "creates_container (CounterDec _ _) = False"
| "creates_container (MapSet _ _) = False"
| "creates_container (MapDelete _) = False"
| "creates_container (ListInsert _ _) = False"
| "creates_container (ListDelete _) = False"
| "creates_container (TextInsert _ _) = False"
| "creates_container (TextDelete _) = False"
| "creates_container (XmlMove _ _) = False"
| "creates_container (RangedSetPayload _ _) = False"
| "creates_container (RangedDelete _) = False"
| "creates_container (AclGrantOp _ _ _ _ _) = False"
| "creates_container (AclRevoke _) = False"

record op =
  op_id :: op_id
  op_stamp :: stamp
  target :: elementid
  kind :: op_kind
  op_tx :: "tx option"
  zone :: "u32 option"

definition op_new :: "op_id \<Rightarrow> stamp \<Rightarrow> elementid \<Rightarrow> op_kind \<Rightarrow> op" where
  "op_new i s t k = \<lparr>op_id = i, op_stamp = s, target = t, kind = k, op_tx = None, zone = None\<rparr>"

text \<open>A string held in memory has fewer than \<open>2^64\<close> characters, so the cast to \<open>u64\<close> is exact.\<close>

definition span :: "op_kind \<Rightarrow> u64" where
  "span k = (case k of TextInsert s _ \<Rightarrow> word_of_nat (max (length s) 1) | _ \<Rightarrow> 1)"

definition reservation_end :: "op \<Rightarrow> u64" where
  "reservation_end p = saturating_add (lamport (op_stamp p)) (span (kind p) - 1)"

section \<open>Split transaction groups\<close>

definition split_groups :: "op list \<Rightarrow> (clientid \<times> tx_id) list" where
  "split_groups dropped =
     remdups (List.map_filter (\<lambda>p. map_option (\<lambda>t. (op_client (op_id p), group_id t)) (op_tx p)) dropped)"

definition destrand_split :: "op list \<Rightarrow> (clientid \<times> tx_id) list \<Rightarrow> op list" where
  "destrand_split ops split =
     (if split = [] then ops
      else map (\<lambda>p. if (case op_tx p of None \<Rightarrow> False
                         | Some t \<Rightarrow> (op_client (op_id p), group_id t) \<in> set split)
                     then p\<lparr>op_tx := None\<rparr> else p) ops)"

section \<open>Properties\<close>

lemma set_split_groups:
  "set (split_groups dropped) = {(op_client (op_id p), group_id t) | p t. p \<in> set dropped \<and> op_tx p = Some t}"
  by (force simp: split_groups_def List.map_filter_def)

definition in_group :: "clientid \<times> tx_id \<Rightarrow> op \<Rightarrow> bool" where
  "in_group g p \<longleftrightarrow> (\<exists>t. op_tx p = Some t \<and> g = (op_client (op_id p), group_id t))"

lemma in_split_groups: "g \<in> set (split_groups dropped) \<longleftrightarrow> (\<exists>q\<in>set dropped. in_group g q)"
  unfolding set_split_groups in_group_def by blast

lemma destrand_split_eq:
  "destrand_split ops split =
     map (\<lambda>p. if \<exists>g\<in>set split. in_group g p then p\<lparr>op_tx := None\<rparr> else p) ops"
  by (cases "split = []") (auto simp: destrand_split_def in_group_def split: option.splits)

text \<open>
  Destranding after a per-op filter leaves no stranded member: with the groups that the
  withheld ops split cleared, every group tag still present belongs to a group none of whose
  members was withheld; the delivered ops keep their order, identity, stamp, target and
  mutation; and an op of a group no withheld op belongs to keeps its tag.
\<close>

theorem destrand_no_stranded_member:
  fixes kept dropped
  defines "out \<equiv> destrand_split kept (split_groups dropped)"
  shows "(\<forall>p\<in>set out. \<forall>q\<in>set dropped. \<forall>g. in_group g p \<longrightarrow> \<not> in_group g q)
    \<and> map (\<lambda>p. (op_id p, op_stamp p, target p, kind p, zone p)) out =
        map (\<lambda>p. (op_id p, op_stamp p, target p, kind p, zone p)) kept
    \<and> (\<forall>p\<in>set kept. (\<forall>g. in_group g p \<longrightarrow> (\<forall>q\<in>set dropped. \<not> in_group g q)) \<longrightarrow> p \<in> set out)"
proof (intro conjI ballI allI impI)
  fix p q g
  assume p: "p \<in> set out" "q \<in> set dropped" "in_group g p"
  then have "p \<in> (\<lambda>p. if \<exists>g\<in>set (split_groups dropped). in_group g p then p\<lparr>op_tx := None\<rparr> else p) ` set kept"
    by (simp add: out_def destrand_split_eq)
  then obtain p0
    where "p = (if \<exists>g\<in>set (split_groups dropped). in_group g p0 then p0\<lparr>op_tx := None\<rparr> else p0)"
    by (rule imageE)
  with p(3) have "g \<notin> set (split_groups dropped)"
    by (auto simp: in_group_def split: if_splits)
  with p(2) show "\<not> in_group g q" by (auto simp: in_split_groups)
next
  show "map (\<lambda>p. (op_id p, op_stamp p, target p, kind p, zone p)) out =
      map (\<lambda>p. (op_id p, op_stamp p, target p, kind p, zone p)) kept"
    by (simp add: out_def destrand_split_eq)
next
  fix p
  assume "p \<in> set kept" and "\<forall>g. in_group g p \<longrightarrow> (\<forall>q\<in>set dropped. \<not> in_group g q)"
  then have "\<not> (\<exists>g\<in>set (split_groups dropped). in_group g p)"
    using in_split_groups by blast
  with \<open>p \<in> set kept\<close> show "p \<in> set out"
    unfolding out_def destrand_split_eq set_map by (intro image_eqI [where x = p]) simp_all
qed

text \<open>
  A group id is a function of its members alone: the sequences may be collected in any order.
\<close>

theorem tx_id_derive_permutation:
  assumes "mset seqs = mset seqs'"
  shows "tx_id_derive new_v5 seqs = tx_id_derive new_v5 seqs'"
proof -
  have "sort seqs = sort seqs'" by (rule properties_for_sort) (simp_all add: assms)
  then show ?thesis by (simp add: tx_id_derive_def)
qed

section \<open>Witnesses\<close>

definition sample_op :: "u64 \<Rightarrow> tx option \<Rightarrow> op" where
  "sample_op n t = (op_new (OpId (ClientId 5) n) (Stamp n (ClientId 5) 0) (ElementId 0) (MapDelete []))
     \<lparr>op_tx := t\<rparr>"

theorem destrand_no_stranded_member_witness:
  "destrand_split [sample_op 1 (Some (Tx (TxId 9) 2)), sample_op 3 (Some (Tx (TxId 8) 1))]
     (split_groups [sample_op 2 (Some (Tx (TxId 9) 2))])
   = [sample_op 1 None, sample_op 3 (Some (Tx (TxId 8) 1))]
   \<and> sample_op 3 (Some (Tx (TxId 8) 1)) \<in>
       set (destrand_split [sample_op 1 (Some (Tx (TxId 9) 2)), sample_op 3 (Some (Tx (TxId 8) 1))]
         (split_groups [sample_op 2 (Some (Tx (TxId 9) 2))]))"
proof
  show "destrand_split [sample_op 1 (Some (Tx (TxId 9) 2)), sample_op 3 (Some (Tx (TxId 8) 1))]
     (split_groups [sample_op 2 (Some (Tx (TxId 9) 2))])
   = [sample_op 1 None, sample_op 3 (Some (Tx (TxId 8) 1))]"
    by (simp add: destrand_split_def split_groups_def List.map_filter_def sample_op_def op_new_def)
  show "sample_op 3 (Some (Tx (TxId 8) 1)) \<in>
       set (destrand_split [sample_op 1 (Some (Tx (TxId 9) 2)), sample_op 3 (Some (Tx (TxId 8) 1))]
         (split_groups [sample_op 2 (Some (Tx (TxId 9) 2))]))"
    by (intro destrand_no_stranded_member [THEN conjunct2, THEN conjunct2, rule_format])
      (auto simp: in_group_def sample_op_def op_new_def)
qed

theorem tx_id_derive_permutation_witness:
  "tx_id_derive (\<lambda>n b. word_of_nat (be_value b)) [3, 1, 2] =
   tx_id_derive (\<lambda>n b. word_of_nat (be_value b)) [1, 2, 3]"
  by (rule tx_id_derive_permutation) simp

end
