(* ===== verification/Codec.thy ===== *)
theory Codec
  imports Ops
begin

text \<open>
  \<^verbatim>\<open>codec.rs\<close>: the binary encoding of ops, on the wire and on disk. An encoder that appends to
  an output buffer is modelled by the bytes it appends, \<open>None\<close> where \<open>len_u32\<close> panics on a
  length of 4 GiB or more. A decoder reads from a cursor and returns an error or a value with
  the advanced cursor.
\<close>

named_theorems codes_intro \<open>a decoder reads back what an encoder wrote\<close>

datatype decode_error =
  UnexpectedEof | BadTag string u8 | BadUtf8 | TrailingBytes

section \<open>Encoding\<close>

type_synonym encoder = "bytes option"

fun put_all :: "encoder list \<Rightarrow> encoder" where
  "put_all [] = Some []"
| "put_all (p # ps) =
     (case p of None \<Rightarrow> None
      | Some a \<Rightarrow> (case put_all ps of None \<Rightarrow> None | Some b \<Rightarrow> Some (a @ b)))"

definition put_raw :: "bytes \<Rightarrow> encoder" where
  "put_raw bs = Some bs"

definition put_u8 :: "u8 \<Rightarrow> encoder" where
  "put_u8 v = Some [v]"

definition put_u16 :: "u16 \<Rightarrow> encoder" where
  "put_u16 v = Some (le_bytes 2 (unat v))"

definition put_u32 :: "u32 \<Rightarrow> encoder" where
  "put_u32 v = Some (le_bytes 4 (unat v))"

definition put_u64 :: "u64 \<Rightarrow> encoder" where
  "put_u64 v = Some (le_bytes 8 (unat v))"

definition put_i64 :: "i64 \<Rightarrow> encoder" where
  "put_i64 v = Some (le_bytes 8 (unat v))"

definition len_u32 :: "nat \<Rightarrow> u32 option" where
  "len_u32 n = (if n < 2 ^ 32 then Some (word_of_nat n) else None)"

definition put_len :: "nat \<Rightarrow> encoder" where
  "put_len n = (case len_u32 n of None \<Rightarrow> None | Some v \<Rightarrow> put_u32 v)"

definition put_bytes :: "bytes \<Rightarrow> encoder" where
  "put_bytes b = put_all [put_len (length b), put_raw b]"

fun put_opt_bytes :: "bytes option \<Rightarrow> encoder" where
  "put_opt_bytes None = put_u8 0"
| "put_opt_bytes (Some b) = put_all [put_u8 1, put_bytes b]"

fun put_opt_governing :: "(bytes \<times> u32) option \<Rightarrow> encoder" where
  "put_opt_governing None = put_u8 0"
| "put_opt_governing (Some (app, version)) = put_all [put_u8 1, put_bytes app, put_u32 version]"

fun put_opt_u32 :: "u32 option \<Rightarrow> encoder" where
  "put_opt_u32 None = put_u8 0"
| "put_opt_u32 (Some v) = put_all [put_u8 1, put_u32 v]"

definition put_client :: "clientid \<Rightarrow> encoder" where
  "put_client c = put_raw (clientid_as_bytes c)"

definition put_element_id :: "elementid \<Rightarrow> encoder" where
  "put_element_id e = put_raw (elementid_as_bytes e)"

definition put_stamp :: "stamp \<Rightarrow> encoder" where
  "put_stamp s = put_all
     [put_u64 (lamport s), put_client (client s),
      if offset s = 0 then put_u8 0 else put_all [put_u8 1, put_u64 (offset s)]]"

fun put_scalar :: "scalar \<Rightarrow> encoder" where
  "put_scalar SNull = put_u8 0"
| "put_scalar (SBool b) = put_all [put_u8 1, put_u8 (if b then 1 else 0)]"
| "put_scalar (SInt n) = put_all [put_u8 2, put_i64 n]"
| "put_scalar (SBytes b) = put_all [put_u8 3, put_bytes b]"
| "put_scalar (SBlobRef r) = put_all
     [put_u8 4, put_raw (uuid_into_bytes (blob_id r)), put_bytes (as_utf8 (blob_mime r)),
      put_u64 (blob_size r), put_opt_bytes (blob_inline r)]"
| "put_scalar (SElementRef e) = put_all [put_u8 5, put_element_id e]"

fun side_tag :: "side \<Rightarrow> u8" where
  "side_tag LeftSide = 0"
| "side_tag RightSide = 1"

definition put_anchor :: "anchor \<Rightarrow> encoder" where
  "put_anchor a = put_all
     [case parent a of None \<Rightarrow> put_u8 0 | Some p \<Rightarrow> put_all [put_u8 1, put_stamp p],
      put_u8 (side_tag (side a))]"

fun put_rel_position :: "relative_position \<Rightarrow> encoder" where
  "put_rel_position PosStart = put_u8 0"
| "put_rel_position PosEnd = put_u8 1"
| "put_rel_position (PosBefore s) = put_all [put_u8 2, put_stamp s]"
| "put_rel_position (PosAfter s) = put_all [put_u8 3, put_stamp s]"

definition put_range_anchor :: "range_anchor \<Rightarrow> encoder" where
  "put_range_anchor a = put_all [put_element_id (seq a), put_rel_position (pos a)]"

fun put_ranged_init :: "ranged_init \<Rightarrow> encoder" where
  "put_ranged_init (InitScalar v) = put_all [put_u8 0, put_scalar v]"
| "put_ranged_init (InitComposite k) = put_all [put_u8 1, put_u8 (kind_tag k)]"

fun put_acl_subject :: "acl_subject \<Rightarrow> encoder" where
  "put_acl_subject (Actor c) = put_all [put_u8 0, put_client c]"
| "put_acl_subject (Group name) = put_all [put_u8 1, put_bytes name]"
| "put_acl_subject Authenticated = put_u8 2"
| "put_acl_subject Anonymous = put_u8 3"
| "put_acl_subject Anyone = put_u8 4"

fun put_acl_scope :: "acl_scope \<Rightarrow> encoder" where
  "put_acl_scope (ScopePath path) = put_all [put_u8 0, put_bytes path]"
| "put_acl_scope (ScopeElement e) = put_all [put_u8 1, put_element_id e]"

fun capability_tag :: "capability \<Rightarrow> u8" where
  "capability_tag CapRead = 0"
| "capability_tag CapWrite = 1"
| "capability_tag CapPublishAwareness = 2"
| "capability_tag CapOwn = 3"

fun put_acl_grant :: "acl_grant \<Rightarrow> encoder" where
  "put_acl_grant (GrantCapability cap) = put_all [put_u8 0, put_u8 (capability_tag cap)]"
| "put_acl_grant (GrantRole name) = put_all [put_u8 1, put_bytes name]"

fun put_acl_effect :: "acl_effect \<Rightarrow> encoder" where
  "put_acl_effect EffAllow = put_u8 0"
| "put_acl_effect EffDeny = put_u8 1"

fun put_opkind :: "op_kind \<Rightarrow> encoder" where
  "put_opkind (RegisterSet key v) = put_all [put_u8 0, put_bytes key, put_scalar v]"
| "put_opkind (CounterInc key amount) = put_all [put_u8 1, put_bytes key, put_u32 amount]"
| "put_opkind (CounterDec key amount) = put_all [put_u8 2, put_bytes key, put_u32 amount]"
| "put_opkind (MapSet key v) = put_all [put_u8 3, put_bytes key, put_scalar v]"
| "put_opkind (MapDelete key) = put_all [put_u8 4, put_bytes key]"
| "put_opkind (MapCreate key) = put_all [put_u8 5, put_bytes key]"
| "put_opkind (ListCreate key) = put_all [put_u8 6, put_bytes key]"
| "put_opkind (ListInsert v a) = put_all [put_u8 7, put_scalar v, put_anchor a]"
| "put_opkind (ListDelete s) = put_all [put_u8 8, put_stamp s]"
| "put_opkind (TextCreate key) = put_all [put_u8 9, put_bytes key]"
| "put_opkind (TextInsert s a) = put_all [put_u8 10, put_bytes (as_utf8 s), put_anchor a]"
| "put_opkind (TextDelete ids) =
     put_all [put_u8 11, put_len (length ids), put_all (map put_stamp ids)]"
| "put_opkind (XmlElementCreate key tag) = put_all [put_u8 12, put_bytes key, put_bytes tag]"
| "put_opkind (XmlFragmentCreate key) = put_all [put_u8 13, put_bytes key]"
| "put_opkind (XmlInsertChild tag a) = put_all [put_u8 14, put_opt_bytes tag, put_anchor a]"
| "put_opkind (XmlMove node a) = put_all [put_u8 15, put_element_id node, put_anchor a]"
| "put_opkind (RangedCreate s e payload name) =
     put_all [put_u8 16, put_range_anchor s, put_range_anchor e, put_ranged_init payload,
       put_opt_bytes name]"
| "put_opkind (RangedSetPayload e payload) =
     put_all [put_u8 17, put_element_id e, put_scalar payload]"
| "put_opkind (RangedDelete e) = put_all [put_u8 18, put_element_id e]"
| "put_opkind (AclGrantOp subj g eff sc by_whom) =
     put_all [put_u8 19, put_acl_subject subj, put_acl_grant g, put_acl_effect eff,
       put_acl_scope sc, put_client by_whom]"
| "put_opkind (AclRevoke e) = put_all [put_u8 20, put_element_id e]"
| "put_opkind (XmlReveal node tag) = put_all [put_u8 21, put_element_id node, put_opt_bytes tag]"

definition put_op :: "op \<Rightarrow> encoder" where
  "put_op p = put_all
     [put_client (op_client (op_id p)), put_u64 (op_seq (op_id p)), put_stamp (op_stamp p),
      put_element_id (target p), put_opkind (kind p),
      case op_tx p of None \<Rightarrow> put_u8 0
      | Some t \<Rightarrow> put_all [put_u8 1, put_u64 (tx_word (group_id t)), put_u32 (member_count t)],
      put_opt_u32 (zone p)]"

definition encode_op :: "op \<Rightarrow> bytes option" where
  "encode_op p = put_op p"

definition encode_ops :: "op list \<Rightarrow> bytes option" where
  "encode_ops ops = put_all (map (\<lambda>p. case encode_op p of None \<Rightarrow> None
     | Some body \<Rightarrow> put_all [put_len (length body), put_raw body]) ops)"

section \<open>Decoding\<close>

text \<open>
  The cursor also carries the id-space high-water that a snapshot decode collects
  (\<open>note_stamp_reach\<close>). A position past the end of the buffer and a \<open>usize\<close> overflow of the
  end position both read as \<open>UnexpectedEof\<close>, so positions are natural numbers.
\<close>

record cursor =
  buf :: bytes
  at :: nat
  stamp_high_water :: "(clientid, u64) fmap"
  tracking_stamps :: bool

type_synonym 'a decoder = "cursor \<Rightarrow> decode_error + 'a \<times> cursor"

definition cursor_new :: "bytes \<Rightarrow> cursor" where
  "cursor_new bs = \<lparr>buf = bs, at = 0, stamp_high_water = fmempty, tracking_stamps = False\<rparr>"

definition track_stamps :: "cursor \<Rightarrow> cursor" where
  "track_stamps c = c\<lparr>stamp_high_water := fmempty, tracking_stamps := True\<rparr>"

definition note_stamp_reach :: "clientid \<Rightarrow> u64 \<Rightarrow> cursor \<Rightarrow> cursor" where
  "note_stamp_reach cl l c =
     (if tracking_stamps c \<and> l \<noteq> 0 then
        (let slot = (case fmlookup (stamp_high_water c) cl of None \<Rightarrow> 0 | Some v \<Rightarrow> v)
         in c\<lparr>stamp_high_water :=
               fmupd cl (max slot (min l LAMPORT_STATE_CEILING)) (stamp_high_water c)\<rparr>)
      else c)"

definition take_stamp_high_water :: "cursor \<Rightarrow> (clientid, u64) fmap \<times> cursor" where
  "take_stamp_high_water c =
     (stamp_high_water c, c\<lparr>stamp_high_water := fmempty, tracking_stamps := False\<rparr>)"

definition at_end :: "cursor \<Rightarrow> bool" where
  "at_end c \<longleftrightarrow> at c = length (buf c)"

definition ret :: "'a \<Rightarrow> 'a decoder" where
  "ret x c = Inr (x, c)"

definition fail :: "decode_error \<Rightarrow> 'a decoder" where
  "fail e c = Inl e"

definition and_then :: "'a decoder \<Rightarrow> ('a \<Rightarrow> 'b decoder) \<Rightarrow> 'b decoder" where
  "and_then d f c = (case d c of Inl e \<Rightarrow> Inl e | Inr (x, c') \<Rightarrow> f x c')"

definition noting :: "clientid \<Rightarrow> u64 \<Rightarrow> unit decoder" where
  "noting cl l c = Inr ((), note_stamp_reach cl l c)"

fun cur_repeat :: "nat \<Rightarrow> 'a decoder \<Rightarrow> 'a list decoder" where
  "cur_repeat 0 d = ret []"
| "cur_repeat (Suc n) d = and_then d (\<lambda>x. and_then (cur_repeat n d) (\<lambda>xs. ret (x # xs)))"

definition cur_take :: "nat \<Rightarrow> bytes decoder" where
  "cur_take n c =
     (if at c + n \<le> length (buf c)
      then Inr (take n (drop (at c) (buf c)), c\<lparr>at := at c + n\<rparr>)
      else Inl UnexpectedEof)"

definition cur_array16 :: "array16 decoder" where
  "cur_array16 = and_then (cur_take 16) (\<lambda>bs. ret (uuid_from_bytes bs))"

definition cur_u8 :: "u8 decoder" where
  "cur_u8 = and_then (cur_take 1) (\<lambda>bs. ret (hd bs))"

definition cur_u16 :: "u16 decoder" where
  "cur_u16 = and_then (cur_take 2) (\<lambda>bs. ret (word_of_nat (le_value bs)))"

definition cur_u32 :: "u32 decoder" where
  "cur_u32 = and_then (cur_take 4) (\<lambda>bs. ret (word_of_nat (le_value bs)))"

definition cur_u64 :: "u64 decoder" where
  "cur_u64 = and_then (cur_take 8) (\<lambda>bs. ret (word_of_nat (le_value bs)))"

definition cur_i64 :: "i64 decoder" where
  "cur_i64 = and_then (cur_take 8) (\<lambda>bs. ret (word_of_nat (le_value bs)))"

definition cur_bytes :: "bytes decoder" where
  "cur_bytes = and_then cur_u32 (\<lambda>n. cur_take (unat n))"

definition cur_flag :: "string \<Rightarrow> 'a decoder \<Rightarrow> 'a option decoder" where
  "cur_flag what d = and_then cur_u8 (\<lambda>tag.
     if tag = 0 then ret None
     else if tag = 1 then and_then d (\<lambda>x. ret (Some x))
     else fail (BadTag what tag))"

definition cur_opt_bytes :: "bytes option decoder" where
  "cur_opt_bytes = cur_flag ''optional bytes present-flag'' cur_bytes"

definition cur_opt_governing :: "(bytes \<times> u32) option decoder" where
  "cur_opt_governing = cur_flag ''governing binding present-flag''
     (and_then cur_bytes (\<lambda>app. and_then cur_u32 (\<lambda>version. ret (app, version))))"

definition cur_opt_u32 :: "u32 option decoder" where
  "cur_opt_u32 = cur_flag ''optional u32 present-flag'' cur_u32"

definition cur_string :: "rust_string decoder" where
  "cur_string = and_then cur_bytes (\<lambda>raw.
     case from_utf8 raw of None \<Rightarrow> fail BadUtf8 | Some s \<Rightarrow> ret s)"

definition cur_client :: "clientid decoder" where
  "cur_client = and_then cur_array16 (\<lambda>u. ret (ClientId u))"

definition cur_element_id :: "elementid decoder" where
  "cur_element_id = and_then cur_array16 (\<lambda>u. ret (ElementId u))"

definition cur_stamp :: "stamp decoder" where
  "cur_stamp = and_then cur_u64 (\<lambda>l. and_then cur_client (\<lambda>cl. and_then cur_u8 (\<lambda>flag.
     and_then (if flag = 0 then ret 0 else cur_u64) (\<lambda>off. ret (Stamp l cl off)))))"

definition cur_scalar :: "scalar decoder" where
  "cur_scalar = and_then cur_u8 (\<lambda>tag.
     if tag = 0 then ret SNull
     else if tag = 1 then and_then cur_u8 (\<lambda>b.
       if b = 0 then ret (SBool False) else if b = 1 then ret (SBool True)
       else fail (BadTag ''scalar bool'' b))
     else if tag = 2 then and_then cur_i64 (\<lambda>n. ret (SInt n))
     else if tag = 3 then and_then cur_bytes (\<lambda>b. ret (SBytes b))
     else if tag = 4 then and_then cur_array16 (\<lambda>i. and_then cur_string (\<lambda>mime.
       and_then cur_u64 (\<lambda>size. and_then (cur_flag ''blob inline'' cur_bytes) (\<lambda>inline.
         ret (SBlobRef (BlobRef i mime size inline))))))
     else if tag = 5 then and_then cur_element_id (\<lambda>e. ret (SElementRef e))
     else fail (BadTag ''scalar'' tag))"

definition cur_anchor :: "anchor decoder" where
  "cur_anchor = and_then (cur_flag ''anchor.parent'' cur_stamp) (\<lambda>p. and_then cur_u8 (\<lambda>tag.
     if tag = 0 then ret (Anchor p LeftSide)
     else if tag = 1 then ret (Anchor p RightSide)
     else fail (BadTag ''side'' tag)))"

definition cur_rel_position :: "relative_position decoder" where
  "cur_rel_position = and_then cur_u8 (\<lambda>tag.
     if tag = 0 then ret PosStart
     else if tag = 1 then ret PosEnd
     else if tag = 2 then and_then cur_stamp (\<lambda>s. ret (PosBefore s))
     else if tag = 3 then and_then cur_stamp (\<lambda>s. ret (PosAfter s))
     else fail (BadTag ''relative position'' tag))"

definition cur_range_anchor :: "range_anchor decoder" where
  "cur_range_anchor = and_then cur_element_id (\<lambda>e. and_then cur_rel_position (\<lambda>p.
     ret (RangeAnchor e p)))"

definition cur_composite_payload_kind :: "element_kind decoder" where
  "cur_composite_payload_kind = and_then cur_u8 (\<lambda>b.
     case from_tag b of
       None \<Rightarrow> fail (BadTag ''ranged composite payload kind'' b)
     | Some k \<Rightarrow> (if is_composite_payload_kind k then ret k
         else fail (BadTag ''ranged composite payload kind'' b)))"

definition cur_ranged_init :: "ranged_init decoder" where
  "cur_ranged_init = and_then cur_u8 (\<lambda>tag.
     if tag = 0 then and_then cur_scalar (\<lambda>v. ret (InitScalar v))
     else if tag = 1 then and_then cur_composite_payload_kind (\<lambda>k. ret (InitComposite k))
     else fail (BadTag ''ranged create payload'' tag))"

definition cur_acl_subject :: "acl_subject decoder" where
  "cur_acl_subject = and_then cur_u8 (\<lambda>tag.
     if tag = 0 then and_then cur_client (\<lambda>c. ret (Actor c))
     else if tag = 1 then and_then cur_bytes (\<lambda>g. ret (Group g))
     else if tag = 2 then ret Authenticated
     else if tag = 3 then ret Anonymous
     else if tag = 4 then ret Anyone
     else fail (BadTag ''acl subject'' tag))"

definition cur_acl_scope :: "acl_scope decoder" where
  "cur_acl_scope = and_then cur_u8 (\<lambda>tag.
     if tag = 0 then and_then cur_bytes (\<lambda>p. ret (ScopePath p))
     else if tag = 1 then and_then cur_element_id (\<lambda>e. ret (ScopeElement e))
     else fail (BadTag ''acl scope'' tag))"

definition cur_capability :: "capability decoder" where
  "cur_capability = and_then cur_u8 (\<lambda>tag.
     if tag = 0 then ret CapRead
     else if tag = 1 then ret CapWrite
     else if tag = 2 then ret CapPublishAwareness
     else if tag = 3 then ret CapOwn
     else fail (BadTag ''acl capability'' tag))"

definition cur_acl_grant :: "acl_grant decoder" where
  "cur_acl_grant = and_then cur_u8 (\<lambda>tag.
     if tag = 0 then and_then cur_capability (\<lambda>c. ret (GrantCapability c))
     else if tag = 1 then and_then cur_bytes (\<lambda>r. ret (GrantRole r))
     else fail (BadTag ''acl grant'' tag))"

definition cur_acl_effect :: "acl_effect decoder" where
  "cur_acl_effect = and_then cur_u8 (\<lambda>tag.
     if tag = 0 then ret EffAllow
     else if tag = 1 then ret EffDeny
     else fail (BadTag ''acl effect'' tag))"

definition cur_opkind :: "op_kind decoder" where
  "cur_opkind = and_then cur_u8 (\<lambda>tag.
     if tag = 0 then and_then cur_bytes (\<lambda>key. and_then cur_scalar (\<lambda>v. ret (RegisterSet key v)))
     else if tag = 1 then and_then cur_bytes (\<lambda>key. and_then cur_u32 (\<lambda>n. ret (CounterInc key n)))
     else if tag = 2 then and_then cur_bytes (\<lambda>key. and_then cur_u32 (\<lambda>n. ret (CounterDec key n)))
     else if tag = 3 then and_then cur_bytes (\<lambda>key. and_then cur_scalar (\<lambda>v. ret (MapSet key v)))
     else if tag = 4 then and_then cur_bytes (\<lambda>key. ret (MapDelete key))
     else if tag = 5 then and_then cur_bytes (\<lambda>key. ret (MapCreate key))
     else if tag = 6 then and_then cur_bytes (\<lambda>key. ret (ListCreate key))
     else if tag = 7 then and_then cur_scalar (\<lambda>v. and_then cur_anchor (\<lambda>a. ret (ListInsert v a)))
     else if tag = 8 then and_then cur_stamp (\<lambda>s. ret (ListDelete s))
     else if tag = 9 then and_then cur_bytes (\<lambda>key. ret (TextCreate key))
     else if tag = 10 then and_then cur_string (\<lambda>s. and_then cur_anchor (\<lambda>a. ret (TextInsert s a)))
     else if tag = 11 then and_then cur_u32 (\<lambda>n.
       and_then (cur_repeat (unat n) cur_stamp) (\<lambda>ids. ret (TextDelete ids)))
     else if tag = 12 then and_then cur_bytes (\<lambda>key.
       and_then cur_bytes (\<lambda>t. ret (XmlElementCreate key t)))
     else if tag = 13 then and_then cur_bytes (\<lambda>key. ret (XmlFragmentCreate key))
     else if tag = 14 then and_then (cur_flag ''xml child tag present-flag'' cur_bytes) (\<lambda>t.
       and_then cur_anchor (\<lambda>a. ret (XmlInsertChild t a)))
     else if tag = 15 then and_then cur_element_id (\<lambda>e. and_then cur_anchor (\<lambda>a. ret (XmlMove e a)))
     else if tag = 16 then and_then cur_range_anchor (\<lambda>s. and_then cur_range_anchor (\<lambda>e.
       and_then cur_ranged_init (\<lambda>p. and_then cur_opt_bytes (\<lambda>name. ret (RangedCreate s e p name)))))
     else if tag = 17 then and_then cur_element_id (\<lambda>e.
       and_then cur_scalar (\<lambda>v. ret (RangedSetPayload e v)))
     else if tag = 18 then and_then cur_element_id (\<lambda>e. ret (RangedDelete e))
     else if tag = 19 then and_then cur_acl_subject (\<lambda>s. and_then cur_acl_grant (\<lambda>g.
       and_then cur_acl_effect (\<lambda>e. and_then cur_acl_scope (\<lambda>sc. and_then cur_client (\<lambda>c.
         ret (AclGrantOp s g e sc c))))))
     else if tag = 20 then and_then cur_element_id (\<lambda>e. ret (AclRevoke e))
     else if tag = 21 then and_then cur_element_id (\<lambda>e.
       and_then (cur_flag ''xml reveal tag present-flag'' cur_bytes) (\<lambda>t. ret (XmlReveal e t)))
     else fail (BadTag ''opkind'' tag))"

definition cur_tx :: "tx decoder" where
  "cur_tx = and_then cur_u64 (\<lambda>i. and_then cur_u32 (\<lambda>count.
     if \<not> (1 \<le> count \<and> count \<le> MAX_TX_MEMBERS) then fail (BadTag ''tx member count out of range'' 0)
     else ret (Tx (TxId i) count)))"

definition cur_op :: "op decoder" where
  "cur_op = and_then cur_client (\<lambda>cl. and_then cur_u64 (\<lambda>sq. and_then cur_stamp (\<lambda>st.
     and_then cur_element_id (\<lambda>tgt. and_then cur_opkind (\<lambda>k. and_then (cur_flag ''tx'' cur_tx) (\<lambda>t.
       and_then (cur_flag ''op zone'' cur_u32) (\<lambda>z.
         ret \<lparr>op_id = OpId cl sq, op_stamp = st, target = tgt, kind = k, op_tx = t, zone = z\<rparr>)))))))"

definition decode_all :: "'a decoder \<Rightarrow> bytes \<Rightarrow> decode_error + 'a" where
  "decode_all d bs = (case d (cursor_new bs) of
     Inl e \<Rightarrow> Inl e
   | Inr (x, c) \<Rightarrow> (if at_end c then Inr x else Inl TrailingBytes))"

definition decode_op :: "bytes \<Rightarrow> decode_error + op" where
  "decode_op bs = decode_all cur_op bs"

lemma cur_take_advances: "cur_take n c = Inr (x, c') \<Longrightarrow> buf c' = buf c \<and> at c' = at c + n \<and> at c' \<le> length (buf c)"
  by (auto simp: cur_take_def split: if_splits)

lemma cur_u32_advances: "cur_u32 c = Inr (x, c') \<Longrightarrow> buf c' = buf c \<and> at c' = at c + 4 \<and> at c' \<le> length (buf c)"
  by (auto simp: cur_u32_def and_then_def ret_def split: sum.splits dest: cur_take_advances)

function decode_ops_from :: "cursor \<Rightarrow> decode_error + op list" where
  "decode_ops_from c =
     (if at c = length (buf c) then Inr []
      else case cur_u32 c of
        Inl e \<Rightarrow> Inl e
      | Inr (n, c1) \<Rightarrow>
          (case cur_take (unat n) c1 of
             Inl e \<Rightarrow> Inl e
           | Inr (frame, c2) \<Rightarrow>
               (case decode_op frame of
                  Inl e \<Rightarrow> Inl e
                | Inr p \<Rightarrow>
                    (case decode_ops_from c2 of Inl e \<Rightarrow> Inl e | Inr ps \<Rightarrow> Inr (p # ps)))))"
  by pat_completeness auto
termination
  by (relation "measure (\<lambda>c. length (buf c) - at c)")
    (auto dest!: cur_u32_advances cur_take_advances)

declare decode_ops_from.simps [simp del]

definition decode_ops :: "bytes \<Rightarrow> decode_error + op list" where
  "decode_ops bs = decode_ops_from (cursor_new bs)"

end
