(* ===== verification/Codec_Roundtrip.thy ===== *)
theory Codec_Roundtrip
  imports Codec
begin

text \<open>
  The codec is a round trip. \<open>reads d bs x\<close> says that a decoder consumes exactly the bytes \<open>bs\<close>,
  whatever follows them, and yields \<open>x\<close>; the rules below compose it along \<open>put_all\<close> and
  \<open>and_then\<close>, so that the proof for a composite format follows its encoder. The locale
  \<open>wire_format\<close> is the contract between an encoder and its decoder.
\<close>

section \<open>Reading back\<close>

definition reads :: "'a decoder \<Rightarrow> bytes \<Rightarrow> 'a \<Rightarrow> bool" where
  "reads d bs x \<longleftrightarrow>
     (\<forall>(c :: cursor) rest. drop (at c) (buf c) = bs @ rest \<and> at c \<le> length (buf c) \<longrightarrow>
        (\<exists>h. d c = Inr (x, c\<lparr>at := at c + length bs, stamp_high_water := h\<rparr>)))"

definition codes :: "encoder \<Rightarrow> 'a decoder \<Rightarrow> 'a \<Rightarrow> bool" where
  "codes p d x \<longleftrightarrow> (\<forall>bs. p = Some bs \<longrightarrow> reads d bs x)"

lemma readsI:
  assumes "\<And>(c :: cursor) rest. drop (at c) (buf c) = bs @ rest \<Longrightarrow> at c \<le> length (buf c) \<Longrightarrow>
    \<exists>h. d c = Inr (x, c\<lparr>at := at c + length bs, stamp_high_water := h\<rparr>)"
  shows "reads d bs x"
  using assms by (simp add: reads_def)

lemma readsE:
  fixes c :: cursor
  assumes "reads d bs x" and "drop (at c) (buf c) = bs @ rest" and "at c \<le> length (buf c)"
  obtains h where "d c = Inr (x, c\<lparr>at := at c + length bs, stamp_high_water := h\<rparr>)"
  using assms by (auto simp: reads_def)

lemma cursor_unmoved: "\<exists>h. c = c\<lparr>stamp_high_water := h\<rparr>" for c :: cursor
  by (rule exI [of _ "stamp_high_water c"]) simp

lemma reads_ret [simp]: "reads (ret x) [] x"
  by (rule readsI) (simp add: ret_def cursor_unmoved)

lemma at_le_length:
  fixes c :: cursor
  shows "drop (at c) (buf c) = bs @ rest \<Longrightarrow> at c \<le> length (buf c) \<Longrightarrow> at c + length bs \<le> length (buf c)"
  by (metis add.commute le_add2 le_add_diff_inverse2 length_append length_drop nat_add_left_cancel_le
      ordered_cancel_comm_monoid_diff_class.add_diff_inverse le_add1)

lemma reads_and_then:
  assumes d: "reads d bs x" and f: "reads (f x) bs' y"
  shows "reads (and_then d f) (bs @ bs') y"
proof (rule readsI)
  fix c :: cursor and rest
  assume c: "drop (at c) (buf c) = (bs @ bs') @ rest" "at c \<le> length (buf c)"
  then obtain h where h: "d c = Inr (x, c\<lparr>at := at c + length bs, stamp_high_water := h\<rparr>)"
    using d by (auto elim: readsE)
  let ?c = "c\<lparr>at := at c + length bs, stamp_high_water := h\<rparr>"
  have "drop (length bs) (drop (at c) (buf c)) = bs' @ rest"
    by (simp only: c append_assoc) simp
  then have "drop (at ?c) (buf ?c) = bs' @ rest"
    by (simp add: add.commute)
  moreover have "at ?c \<le> length (buf ?c)"
    using at_le_length [of c bs "bs' @ rest"] c by simp
  ultimately obtain h' where
    "f x ?c = Inr (y, ?c\<lparr>at := at ?c + length bs', stamp_high_water := h'\<rparr>)"
    using f by (elim readsE)
  with h show "\<exists>h. and_then d f c =
      Inr (y, c\<lparr>at := at c + length (bs @ bs'), stamp_high_water := h\<rparr>)"
    by (auto simp: and_then_def add.assoc)
qed

lemma reads_noting: "reads (noting cl l) [] ()"
  by (rule readsI) (auto simp: noting_def note_stamp_reach_def Let_def cursor_unmoved)

lemma reads_take: "length bs = n \<Longrightarrow> reads (cur_take n) bs bs"
proof (rule readsI)
  fix c :: cursor and rest
  assume "length bs = n" and c: "drop (at c) (buf c) = bs @ rest" "at c \<le> length (buf c)"
  with at_le_length [OF c] show "\<exists>h. cur_take n c =
      Inr (bs, c\<lparr>at := at c + length bs, stamp_high_water := h\<rparr>)"
    by (auto simp: cur_take_def intro!: exI [of _ "stamp_high_water c"])
qed

section \<open>Composition rules\<close>

declare put_all.simps [simp del]

lemma codesI: "(\<And>bs. p = Some bs \<Longrightarrow> reads d bs x) \<Longrightarrow> codes p d x"
  by (simp add: codes_def)

lemma codes_raw: "reads d bs x \<Longrightarrow> codes (Some bs) d x"
  by (simp add: codes_def)

lemma codes_Nil [codes_intro]: "codes (put_all []) (ret x) x"
  by (simp add: codes_def put_all.simps)

lemma codes_Nil': "x = y \<Longrightarrow> codes (put_all []) (ret x) y"
  by (simp add: codes_Nil)

lemma codes_Cons [codes_intro]:
  assumes "codes p d x" and "codes (put_all ps) (f x) y"
  shows "codes (put_all (p # ps)) (and_then d f) y"
  using assms by (auto simp: codes_def put_all.simps intro: reads_and_then split: option.splits)

lemma put_all_flatten: "put_all (put_all ps # qs) = put_all (ps @ qs)"
  by (induction ps) (auto simp: put_all.simps split: option.split)

lemma codes_single: "codes p d x \<Longrightarrow> codes (put_all [p]) d x"
  by (auto simp: codes_def put_all.simps split: option.splits)

lemma codes_map:
  assumes "codes p d x"
  shows "codes p (and_then d (\<lambda>x. ret (f x))) (f x)"
  using codes_Cons [of p d x "[]" "\<lambda>x. ret (f x)" "f x"] codes_Nil [of "f x"] assms
  by (auto simp: codes_def put_all.simps split: option.splits)

lemma codes_then:
  assumes "codes p d x" and "reads (f x) [] y"
  shows "codes p (and_then d f) y"
  using assms reads_and_then [of d _ x f "[]" y] by (auto simp: codes_def)

lemma codes_repeat_map:
  "(\<And>x. x \<in> set xs \<Longrightarrow> codes (p x) d (f x)) \<Longrightarrow>
     codes (put_all (map p xs)) (cur_repeat (length xs) d) (map f xs)"
proof (induction xs)
  case Nil
  then show ?case by (simp add: codes_def put_all.simps)
next
  case (Cons x xs)
  have "codes (put_all (map p xs)) (and_then (cur_repeat (length xs) d) (\<lambda>ys. ret (f x # ys)))
      (f x # map f xs)"
    using Cons by (intro codes_map) simp
  with Cons.prems [of x] show ?case
    unfolding list.map length_Cons cur_repeat.simps by (intro codes_Cons) simp_all
qed

lemma codes_repeat:
  "(\<And>x. x \<in> set xs \<Longrightarrow> codes (p x) d x) \<Longrightarrow>
     codes (put_all (map p xs)) (cur_repeat (length xs) d) xs"
  using codes_repeat_map [of xs p d "\<lambda>x. x"] by simp

section \<open>Primitives\<close>

lemma word_of_le_bytes:
  "2 ^ LENGTH('a) = (256 :: nat) ^ n \<Longrightarrow> word_of_nat (le_value (le_bytes n (unat v))) = (v :: 'a::len word)"
  using unat_lt_pow [of v] by (simp add: le_value_le_bytes)

lemma reads_take_then:
  "length bs = n \<Longrightarrow> f bs = x \<Longrightarrow> reads (and_then (cur_take n) (\<lambda>bs. ret (f bs))) bs x"
  using reads_and_then [OF reads_take, of bs n "\<lambda>bs. ret (f bs)" "[]" x] by simp

lemma codes_u8 [codes_intro]: "codes (put_u8 v) cur_u8 v"
  unfolding put_u8_def cur_u8_def by (intro codes_raw reads_take_then) simp_all

lemma codes_u16 [codes_intro]: "codes (put_u16 v) cur_u16 v"
  unfolding put_u16_def cur_u16_def by (intro codes_raw reads_take_then word_of_le_bytes) simp_all

lemma codes_u32 [codes_intro]: "codes (put_u32 v) cur_u32 v"
  unfolding put_u32_def cur_u32_def by (intro codes_raw reads_take_then word_of_le_bytes) simp_all

lemma codes_u64 [codes_intro]: "codes (put_u64 v) cur_u64 v"
  unfolding put_u64_def cur_u64_def by (intro codes_raw reads_take_then word_of_le_bytes) simp_all

lemma codes_i64 [codes_intro]: "codes (put_i64 v) cur_i64 v"
  unfolding put_i64_def cur_i64_def by (intro codes_raw reads_take_then word_of_le_bytes) simp_all

lemma codes_array16 [codes_intro]: "codes (put_raw (uuid_into_bytes u)) cur_array16 u"
  unfolding put_raw_def cur_array16_def by (intro codes_raw reads_take_then) simp_all

lemma codes_client [codes_intro]: "codes (put_client c) cur_client c"
  using codes_map [OF codes_array16, of "client_uuid c" ClientId]
  by (simp add: put_client_def clientid_as_bytes_def cur_client_def)

lemma codes_element_id [codes_intro]: "codes (put_element_id e) cur_element_id e"
  using codes_map [OF codes_array16, of "element_uuid e" ElementId]
  by (simp add: put_element_id_def elementid_as_bytes_def cur_element_id_def)

lemma put_len_Some: "put_len n = Some bs \<Longrightarrow> \<exists>v. n = unat v \<and> put_u32 v = Some bs"
  by (auto simp: put_len_def len_u32_def unat_of_nat split: if_splits intro!: exI [of _ "word_of_nat n"])

lemma codes_len: "codes (put_len n) (and_then cur_u32 (\<lambda>v. ret (unat v))) n"
proof (rule codesI)
  fix bs
  assume "put_len n = Some bs"
  then obtain v where v: "n = unat v" "put_u32 v = Some bs" using put_len_Some by blast
  with codes_map [OF codes_u32, of v unat] show "reads (and_then cur_u32 (\<lambda>v. ret (unat v))) bs n"
    by (simp add: codes_def)
qed

lemma and_then_ret_assoc: "and_then (and_then d (\<lambda>x. ret (f x))) g = and_then d (\<lambda>x. g (f x))"
  by (rule ext) (simp add: and_then_def ret_def split: sum.split)

lemma codes_len_then:
  assumes "codes (put_all ps) (f n) y"
  shows "codes (put_all (put_len n # ps)) (and_then cur_u32 (\<lambda>v. f (unat v))) y"
  using codes_Cons [where f = f, OF codes_len assms] by (simp only: and_then_ret_assoc)

lemma codes_bytes [codes_intro]: "codes (put_bytes b) cur_bytes b"
  unfolding put_bytes_def cur_bytes_def
  by (intro codes_len_then codes_single) (simp add: put_raw_def codes_raw reads_take)

lemma codes_flag_None [codes_intro]: "codes (put_u8 0) (cur_flag what d) None"
  unfolding cur_flag_def by (rule codes_then [OF codes_u8]) simp

lemma codes_flag_Some [codes_intro]:
  "codes p d x \<Longrightarrow> codes (put_all [put_u8 1, p]) (cur_flag what d) (Some x)"
  unfolding cur_flag_def by (rule codes_Cons [OF codes_u8]) (simp add: codes_single codes_map)

lemma codes_opt_bytes [codes_intro]: "codes (put_opt_bytes b) (cur_flag what cur_bytes) b"
  by (cases b) (simp_all add: codes_flag_None codes_flag_Some codes_bytes)

lemma codes_flag_u32 [codes_intro]: "codes (put_opt_u32 v) (cur_flag what cur_u32) v"
  by (cases v) (simp_all add: codes_flag_None codes_flag_Some codes_u32)

lemma codes_string [codes_intro]:
  "list_all valid_char s \<Longrightarrow> codes (put_bytes (as_utf8 s)) cur_string s"
  unfolding cur_string_def by (rule codes_then [OF codes_bytes]) (simp add: from_as_utf8)

lemma and_then_ret [simp]: "and_then (ret x) f = f x"
  by (rule ext) (simp add: and_then_def ret_def)

lemma and_then_assoc: "and_then (and_then d f) g = and_then d (\<lambda>x. and_then (f x) g)"
  by (rule ext) (simp add: and_then_def split: sum.split)

section \<open>Tagged unions\<close>

text \<open>One rule for a tag byte with a payload and one for a bare tag; the branch the decoder takes
  is found by evaluating its tests on the tag.\<close>

lemma codes_tagged:
  "codes (put_all ps) (f t) x \<Longrightarrow> codes (put_all (put_u8 t # ps)) (and_then cur_u8 f) x"
  by (rule codes_Cons [OF codes_u8])

lemma codes_tag: "reads (f t) [] x \<Longrightarrow> codes (put_u8 t) (and_then cur_u8 f) x"
  by (rule codes_then [OF codes_u8])

lemma codes_branch: "reads (f t) [] x \<Longrightarrow> codes (put_all [put_u8 t]) (and_then cur_u8 f) x"
  by (rule codes_single [OF codes_tag])

lemma codes_opt_bytes_named [codes_intro]: "codes (put_opt_bytes b) cur_opt_bytes b"
  unfolding cur_opt_bytes_def by (rule codes_opt_bytes)

lemma codes_opt_u32_named [codes_intro]: "codes (put_opt_u32 v) cur_opt_u32 v"
  unfolding cur_opt_u32_def by (rule codes_flag_u32)

lemma codes_opt_governing [codes_intro]: "codes (put_opt_governing g) cur_opt_governing g"
proof (cases g)
  case None
  then show ?thesis by (simp add: cur_opt_governing_def codes_flag_None)
next
  case (Some b)
  then show ?thesis
    by (cases b) (auto simp: cur_opt_governing_def cur_flag_def and_then_assoc
        intro!: codes_tagged codes_intro)
qed

lemma codes_stamp [codes_intro]: "codes (put_stamp s) cur_stamp s"
proof (cases s)
  case (Stamp l c off)
  have "codes (if off = 0 then put_u8 0 else put_all [put_u8 1, put_u64 off])
          (and_then cur_u8 (\<lambda>flag. and_then (if flag = 0 then ret 0 else cur_u64)
             (\<lambda>off. ret (Stamp l c off)))) (Stamp l c off)"
    by (auto intro!: codes_tag codes_tagged codes_intro)
  then show ?thesis
    unfolding put_stamp_def cur_stamp_def Stamp
    by (intro codes_Cons [OF codes_u64] codes_Cons [OF codes_client] codes_single)
      (simp only: stamp.sel)
qed

lemma codes_scalar [codes_intro]: "scalar_typed v \<Longrightarrow> codes (put_scalar v) cur_scalar v"
  unfolding cur_scalar_def
  by (cases v) (auto intro!: codes_tagged codes_tag codes_branch codes_intro)

lemma codes_flag_stamp [codes_intro]:
  "codes (case p of None \<Rightarrow> put_u8 0 | Some s \<Rightarrow> put_all [put_u8 1, put_stamp s])
     (cur_flag what cur_stamp) p"
  by (cases p) (auto intro: codes_flag_None codes_flag_Some codes_stamp)

lemma codes_anchor [codes_intro]: "codes (put_anchor a) cur_anchor a"
proof (cases a)
  case (Anchor p sd)
  then show ?thesis unfolding put_anchor_def cur_anchor_def
    by (cases sd) (auto intro!: codes_Cons [OF codes_flag_stamp] codes_branch)
qed

lemma codes_rel_position [codes_intro]: "codes (put_rel_position p) cur_rel_position p"
  unfolding cur_rel_position_def
  by (cases p) (auto intro!: codes_tagged codes_tag codes_intro)

lemma codes_range_anchor [codes_intro]: "codes (put_range_anchor a) cur_range_anchor a"
  unfolding put_range_anchor_def cur_range_anchor_def
  by (cases a) (auto intro!: codes_intro)

lemma codes_composite_payload_kind [codes_intro]:
  "is_composite_payload_kind k \<Longrightarrow> codes (put_u8 (kind_tag k)) cur_composite_payload_kind k"
  unfolding cur_composite_payload_kind_def by (rule codes_tag) simp

fun ranged_init_typed :: "ranged_init \<Rightarrow> bool" where
  "ranged_init_typed (InitScalar v) = scalar_typed v"
| "ranged_init_typed (InitComposite k) = is_composite_payload_kind k"

lemma codes_ranged_init [codes_intro]:
  "ranged_init_typed i \<Longrightarrow> codes (put_ranged_init i) cur_ranged_init i"
  unfolding cur_ranged_init_def
  by (cases i) (auto intro!: codes_tagged codes_intro)

lemma codes_acl_subject [codes_intro]: "codes (put_acl_subject s) cur_acl_subject s"
  unfolding cur_acl_subject_def
  by (cases s) (auto intro!: codes_tagged codes_tag codes_intro)

lemma codes_acl_scope [codes_intro]: "codes (put_acl_scope s) cur_acl_scope s"
  unfolding cur_acl_scope_def
  by (cases s) (auto intro!: codes_tagged codes_intro)

lemma codes_capability [codes_intro]: "codes (put_u8 (capability_tag c)) cur_capability c"
  unfolding cur_capability_def by (cases c) (auto intro!: codes_tag)

lemma codes_acl_grant [codes_intro]: "codes (put_acl_grant g) cur_acl_grant g"
  unfolding cur_acl_grant_def
  by (cases g) (auto intro!: codes_tagged codes_intro)

lemma codes_acl_effect [codes_intro]: "codes (put_acl_effect e) cur_acl_effect e"
  unfolding cur_acl_effect_def by (cases e) (auto intro!: codes_tag)

section \<open>Ops\<close>

text \<open>What the encoder relies on: strings hold scalar values (the Rust type), a composite payload
  kind is one a ranged element may carry, and a transaction has 1 to \<open>MAX_TX_MEMBERS\<close> members.\<close>

fun op_kind_typed :: "op_kind \<Rightarrow> bool" where
  "op_kind_typed (RegisterSet _ v) = scalar_typed v"
| "op_kind_typed (MapSet _ v) = scalar_typed v"
| "op_kind_typed (ListInsert v _) = scalar_typed v"
| "op_kind_typed (TextInsert s _) = list_all valid_char s"
| "op_kind_typed (RangedCreate _ _ i _) = ranged_init_typed i"
| "op_kind_typed (RangedSetPayload _ v) = scalar_typed v"
| "op_kind_typed _ = True"

definition tx_typed :: "tx \<Rightarrow> bool" where
  "tx_typed t \<longleftrightarrow> 1 \<le> member_count t \<and> member_count t \<le> MAX_TX_MEMBERS"

definition op_typed :: "op \<Rightarrow> bool" where
  "op_typed p \<longleftrightarrow> op_kind_typed (kind p) \<and> pred_option tx_typed (op_tx p)"

lemma codes_stamps:
  "codes (put_all [put_len (length ids), put_all (map put_stamp ids)])
     (and_then cur_u32 (\<lambda>n. and_then (cur_repeat (unat n) cur_stamp) (\<lambda>ids. ret (f ids)))) (f ids)"
  by (intro codes_len_then codes_Cons [OF codes_repeat [where xs = ids]] codes_intro)

lemma codes_opkind [codes_intro]: "op_kind_typed k \<Longrightarrow> codes (put_opkind k) cur_opkind k"
  unfolding cur_opkind_def
  by (cases k) (auto intro!: codes_tagged codes_stamps codes_intro)

lemma codes_tx [codes_intro]:
  "pred_option tx_typed t \<Longrightarrow>
   codes (case t of None \<Rightarrow> put_u8 0
      | Some t \<Rightarrow> put_all [put_u8 1, put_u64 (tx_word (group_id t)), put_u32 (member_count t)])
     (cur_flag what cur_tx) t"
proof (cases t)
  case None
  then show ?thesis by (simp add: codes_flag_None)
next
  case (Some u)
  assume "pred_option tx_typed t"
  with Some show ?thesis
    by (cases u rule: tx.exhaust, cases "group_id u")
      (auto simp: cur_flag_def cur_tx_def and_then_assoc tx_typed_def intro!: codes_tagged codes_intro)
qed

lemma codes_flag_zone [codes_intro]: "codes (put_opt_u32 z) (cur_flag what cur_u32) z"
  by (rule codes_flag_u32)

lemma codes_op [codes_intro]: "op_typed p \<Longrightarrow> codes (put_op p) cur_op p"
  unfolding put_op_def cur_op_def op_typed_def
  by (cases p rule: op.cases, cases "op_id p") (auto intro!: codes_intro)

section \<open>The contract of a wire format\<close>

lemma decode_all_codes: "codes (Some bs) d x \<Longrightarrow> decode_all d bs = Inr x"
  by (auto simp: codes_def reads_def decode_all_def at_end_def cursor_new_def
      dest!: spec [of _ "cursor_new bs"])

locale wire_format =
  fixes put :: "'a \<Rightarrow> encoder" and get :: "'a decoder" and typed :: "'a \<Rightarrow> bool"
  assumes reads_back: "typed x \<Longrightarrow> codes (put x) get x"
begin

lemma get_put:
  assumes "typed x" and "put x = Some bs"
  shows "\<exists>h. get (cursor_new (bs @ rest)) =
           Inr (x, (cursor_new (bs @ rest))\<lparr>at := length bs, stamp_high_water := h\<rparr>)"
  using reads_back [OF assms(1)] assms(2)
  by (auto simp: codes_def reads_def cursor_new_def dest!: spec [of _ "cursor_new (bs @ rest)"])

lemma decode_all_put: "typed x \<Longrightarrow> put x = Some bs \<Longrightarrow> decode_all get bs = Inr x"
  using get_put [of x bs "[]"] by (auto simp: decode_all_def at_end_def cursor_new_def)

lemma trailing_rejected:
  "typed x \<Longrightarrow> put x = Some bs \<Longrightarrow> rest \<noteq> [] \<Longrightarrow> decode_all get (bs @ rest) = Inl TrailingBytes"
  using get_put [of x bs rest] by (auto simp: decode_all_def at_end_def cursor_new_def)

lemma put_prefix_free:
  assumes "typed x" "typed y" "put x = Some bs" "put y = Some (bs @ rest)"
  shows "x = y \<and> rest = []"
proof -
  obtain h h' where
    "get (cursor_new (bs @ rest)) =
       Inr (x, (cursor_new (bs @ rest))\<lparr>at := length bs, stamp_high_water := h\<rparr>)"
    "get (cursor_new (bs @ rest)) =
       Inr (y, (cursor_new (bs @ rest))\<lparr>at := length (bs @ rest), stamp_high_water := h'\<rparr>)"
    using get_put [OF assms(1,3), of rest] get_put [OF assms(2,4), of "[]"] by auto
  then show ?thesis by (auto simp: cursor_new_def)
qed

lemma put_inj: "typed x \<Longrightarrow> typed y \<Longrightarrow> put x = Some bs \<Longrightarrow> put y = Some bs \<Longrightarrow> x = y"
  using put_prefix_free [of x y bs "[]"] by simp

end

interpretation stamp_format: wire_format put_stamp cur_stamp "\<lambda>_. True"
  by unfold_locales (rule codes_stamp)

interpretation scalar_format: wire_format put_scalar cur_scalar scalar_typed
  by unfold_locales (rule codes_scalar)

interpretation anchor_format: wire_format put_anchor cur_anchor "\<lambda>_. True"
  by unfold_locales (rule codes_anchor)

interpretation op_format: wire_format put_op cur_op op_typed
  by unfold_locales (rule codes_op)

section \<open>The op log\<close>

lemma decode_op_put: "op_typed p \<Longrightarrow> put_op p = Some bs \<Longrightarrow> decode_op bs = Inr p"
  unfolding decode_op_def by (rule op_format.decode_all_put)

lemma decode_ops_from_frame:
  fixes c :: cursor
  assumes typed: "op_typed p" and body: "encode_op p = Some body"
    and frame: "put_all [put_len (length body), put_raw body] = Some f"
    and c: "drop (at c) (buf c) = f @ rest" "at c \<le> length (buf c)"
  obtains h where "decode_ops_from c =
    (case decode_ops_from (c\<lparr>at := at c + length f, stamp_high_water := h\<rparr>) of
       Inl e \<Rightarrow> Inl e | Inr ps \<Rightarrow> Inr (p # ps))"
proof -
  obtain v lb where v: "length body = unat v" "put_u32 v = Some lb" and f: "f = lb @ body"
    using frame put_len_Some [of "length body"]
    by (auto simp: put_all.simps put_raw_def split: option.splits)
  have lb: "reads cur_u32 lb v" using codes_u32 [of v] v(2) by (simp add: codes_def)
  have "length lb = 4" using v(2) by (auto simp: put_u32_def)
  then have nonempty: "at c \<noteq> length (buf c)"
    using c(1) f by auto
  obtain h where 1: "cur_u32 c = Inr (v, c\<lparr>at := at c + length lb, stamp_high_water := h\<rparr>)"
    using lb c f by (auto elim!: readsE)
  have "reads (and_then cur_u32 (\<lambda>n. cur_take (unat n))) (lb @ body) body"
    by (rule reads_and_then [OF lb]) (simp add: reads_take v(1))
  with c f obtain h' where
    2: "and_then cur_u32 (\<lambda>n. cur_take (unat n)) c =
        Inr (body, c\<lparr>at := at c + length f, stamp_high_water := h'\<rparr>)"
    by (auto elim!: readsE)
  have "decode_op body = Inr p" using decode_op_put typed body by (simp add: encode_op_def)
  with nonempty 1 2 have "decode_ops_from c =
      (case decode_ops_from (c\<lparr>at := at c + length f, stamp_high_water := h'\<rparr>) of
         Inl e \<Rightarrow> Inl e | Inr ps \<Rightarrow> Inr (p # ps))"
    by (subst decode_ops_from.simps) (simp add: and_then_def)
  with that show thesis by blast
qed

lemma decode_ops_from_encode:
  fixes c :: cursor
  assumes "list_all op_typed ops" and "encode_ops ops = Some bs"
    and "drop (at c) (buf c) = bs" and "at c \<le> length (buf c)"
  shows "decode_ops_from c = Inr ops"
  using assms
proof (induction ops arbitrary: bs c)
  case Nil
  then show ?case by (subst decode_ops_from.simps) (simp add: encode_ops_def put_all.simps)
next
  case (Cons p ops)
  obtain body f bs' where body: "encode_op p = Some body"
    and f: "put_all [put_len (length body), put_raw body] = Some f"
    and bs': "encode_ops ops = Some bs'" and bs: "bs = f @ bs'"
    using Cons.prems(2) unfolding encode_ops_def list.map
    by (subst (asm) put_all.simps(2)) (auto split: option.splits)
  obtain h where h: "decode_ops_from c =
    (case decode_ops_from (c\<lparr>at := at c + length f, stamp_high_water := h\<rparr>) of
       Inl e \<Rightarrow> Inl e | Inr ps \<Rightarrow> Inr (p # ps))"
    using decode_ops_from_frame [OF _ body f, of c bs'] Cons.prems bs by auto
  have "drop (length f) (drop (at c) (buf c)) = bs'" using Cons.prems(3) bs by simp
  moreover have "at c + length f \<le> length (buf c)"
    using at_le_length [of c f bs'] Cons.prems(3,4) bs by simp
  ultimately have "decode_ops_from (c\<lparr>at := at c + length f, stamp_high_water := h\<rparr>) = Inr ops"
    using Cons.prems(1) bs' by (intro Cons.IH [of bs']) (simp_all add: add.commute)
  with h show ?case by simp
qed

end
