(* ===== verification/Codec_Safety.thy ===== *)
theory Codec_Safety
  imports Codec_Roundtrip
begin

text \<open>
  The decoder on arbitrary bytes: which values it can return, which bytes it consumed for them,
  and how it treats a log that grew by appending.
\<close>

section \<open>What a decoder can return\<close>

text \<open>\<open>consumes d R\<close>: on any input, a successful decode advances the cursor over some bytes \<open>bs\<close>
  within the buffer and returns a value \<open>x\<close> with \<open>R bs x\<close>.\<close>

definition consumes :: "'a decoder \<Rightarrow> (bytes \<Rightarrow> 'a \<Rightarrow> bool) \<Rightarrow> bool" where
  "consumes d R \<longleftrightarrow> (\<forall>(c :: cursor) x c'. d c = Inr (x, c') \<and> at c \<le> length (buf c) \<longrightarrow>
     buf c' = buf c \<and> at c' \<le> length (buf c) \<and>
     (\<exists>bs. drop (at c) (buf c) = bs @ drop (at c') (buf c') \<and> R bs x))"

lemma consumesI:
  assumes "\<And>(c :: cursor) x c'. d c = Inr (x, c') \<Longrightarrow> at c \<le> length (buf c) \<Longrightarrow>
     buf c' = buf c \<and> at c' \<le> length (buf c) \<and>
     (\<exists>bs. drop (at c) (buf c) = bs @ drop (at c') (buf c') \<and> R bs x)"
  shows "consumes d R"
  using assms by (simp add: consumes_def)

lemma consumes_ret: "R [] x \<Longrightarrow> consumes (ret x) R"
  by (rule consumesI) (auto simp: ret_def)

lemma consumes_fail: "consumes (fail e) R"
  by (rule consumesI) (auto simp: fail_def)

lemma consumes_and_then:
  assumes d: "consumes d R" and f: "\<And>bs x. R bs x \<Longrightarrow> consumes (f x) (\<lambda>bs'. S (bs @ bs'))"
  shows "consumes (and_then d f) S"
proof (rule consumesI)
  fix c :: cursor and y c''
  assume "and_then d f c = Inr (y, c'')" and c: "at c \<le> length (buf c)"
  then obtain x c' where 1: "d c = Inr (x, c')" and 2: "f x c' = Inr (y, c'')"
    by (auto simp: and_then_def split: sum.splits)
  from d 1 c obtain bs where bs: "buf c' = buf c" "at c' \<le> length (buf c)"
    "drop (at c) (buf c) = bs @ drop (at c') (buf c')" "R bs x"
    unfolding consumes_def by blast
  from f [OF bs(4)] 2 bs(1,2) obtain bs' where "buf c'' = buf c'" "at c'' \<le> length (buf c')"
    "drop (at c') (buf c') = bs' @ drop (at c'') (buf c'')" "S (bs @ bs') y"
    unfolding consumes_def by (metis (no_types, lifting))
  with bs show "buf c'' = buf c \<and> at c'' \<le> length (buf c) \<and>
     (\<exists>bs. drop (at c) (buf c) = bs @ drop (at c'') (buf c'') \<and> S bs y)"
    by (intro conjI exI [of _ "bs @ bs'"]) simp_all
qed

lemma consumes_mono: "consumes d R \<Longrightarrow> (\<And>bs x. R bs x \<Longrightarrow> S bs x) \<Longrightarrow> consumes d S"
  unfolding consumes_def by blast

lemma consumes_take: "consumes (cur_take n) (\<lambda>bs x. x = bs \<and> length bs = n)"
proof (rule consumesI)
  fix c :: cursor and x c'
  assume "cur_take n c = Inr (x, c')" and "at c \<le> length (buf c)"
  then have "x = take n (drop (at c) (buf c))" "c' = c\<lparr>at := at c + n\<rparr>" "at c + n \<le> length (buf c)"
    by (auto simp: cur_take_def split: if_splits)
  then show "buf c' = buf c \<and> at c' \<le> length (buf c) \<and>
      (\<exists>bs. drop (at c) (buf c) = bs @ drop (at c') (buf c') \<and> x = bs \<and> length bs = n)"
    by (auto simp: drop_drop [symmetric] add.commute simp del: drop_drop)
qed

lemma consumes_if:
  "(b \<Longrightarrow> consumes d R) \<Longrightarrow> (\<not> b \<Longrightarrow> consumes e R) \<Longrightarrow> consumes (if b then d else e) R"
  by simp

lemma consumes_take_then:
  "(\<And>bs. length bs = n \<Longrightarrow> p (f bs) = Some bs) \<Longrightarrow>
     consumes (and_then (cur_take n) (\<lambda>bs. ret (f bs))) (\<lambda>bs x. p x = Some bs)"
  by (rule consumes_and_then [OF consumes_take]) (auto intro: consumes_ret)

lemma le_bytes_of_value:
  "length bs = n \<Longrightarrow> 2 ^ LENGTH('a) = (256 :: nat) ^ n \<Longrightarrow>
     le_bytes n (unat (word_of_nat (le_value bs) :: 'a::len word)) = bs"
  using le_value_less [of bs] by (auto simp: unat_of_nat le_bytes_le_value)

named_theorems canonical \<open>the bytes a decoder consumes are the encoding of what it returns\<close>

lemma canonical_u8 [canonical]: "consumes cur_u8 (\<lambda>bs x. put_u8 x = Some bs)"
  unfolding cur_u8_def put_u8_def by (rule consumes_take_then) (auto simp: length_Suc_conv)

lemma canonical_u32 [canonical]: "consumes cur_u32 (\<lambda>bs x. put_u32 x = Some bs)"
  unfolding cur_u32_def put_u32_def by (rule consumes_take_then) (simp add: le_bytes_of_value)

lemma canonical_u64 [canonical]: "consumes cur_u64 (\<lambda>bs x. put_u64 x = Some bs)"
  unfolding cur_u64_def put_u64_def by (rule consumes_take_then) (simp add: le_bytes_of_value)

lemma canonical_i64 [canonical]: "consumes cur_i64 (\<lambda>bs x. put_i64 x = Some bs)"
  unfolding cur_i64_def put_i64_def by (rule consumes_take_then) (simp add: le_bytes_of_value)

lemma canonical_array16 [canonical]:
  "consumes cur_array16 (\<lambda>bs u. put_raw (uuid_into_bytes u) = Some bs)"
  unfolding cur_array16_def put_raw_def by (rule consumes_take_then) (simp add: uuid_into_from_bytes)

lemma canonical_client [canonical]: "consumes cur_client (\<lambda>bs c. put_client c = Some bs)"
  unfolding cur_client_def
  by (rule consumes_and_then [OF canonical_array16])
    (auto intro!: consumes_ret simp: put_client_def clientid_as_bytes_def)

lemma canonical_element_id [canonical]:
  "consumes cur_element_id (\<lambda>bs e. put_element_id e = Some bs)"
  unfolding cur_element_id_def
  by (rule consumes_and_then [OF canonical_array16])
    (auto intro!: consumes_ret simp: put_element_id_def elementid_as_bytes_def)

lemma put_len_unat: "put_len (unat (v :: u32)) = put_u32 v"
  using unat_lt_pow [of v] by (simp add: put_len_def len_u32_def)

lemma canonical_bytes [canonical]: "consumes cur_bytes (\<lambda>bs b. put_bytes b = Some bs)"
  unfolding cur_bytes_def
proof (rule consumes_and_then [OF canonical_u32])
  fix bs and n :: u32
  assume "put_u32 n = Some bs"
  then show "consumes (cur_take (unat n)) (\<lambda>bs' b. put_bytes b = Some (bs @ bs'))"
    by (intro consumes_mono [OF consumes_take])
      (auto simp: put_bytes_def put_raw_def put_all.simps put_len_unat)
qed

lemma canonical_string [canonical]:
  "consumes cur_string (\<lambda>bs s. put_bytes (as_utf8 s) = Some bs \<and> list_all valid_char s)"
  unfolding cur_string_def
proof (rule consumes_and_then [OF canonical_bytes])
  fix bs raw
  assume "put_bytes raw = Some bs"
  then show "consumes (case from_utf8 raw of None \<Rightarrow> fail BadUtf8 | Some s \<Rightarrow> ret s)
     (\<lambda>bs' s. put_bytes (as_utf8 s) = Some (bs @ bs') \<and> list_all valid_char s)"
    by (auto split: option.split intro!: consumes_fail consumes_ret dest: as_from_utf8)
qed

lemma canonical_flag_bytes [canonical]:
  "consumes (cur_flag what cur_bytes) (\<lambda>bs b. put_opt_bytes b = Some bs)"
  unfolding cur_flag_def
proof (rule consumes_and_then [OF canonical_u8])
  fix bs and t :: u8
  assume t: "put_u8 t = Some bs"
  show "consumes (if t = 0 then ret None
      else if t = 1 then and_then cur_bytes (\<lambda>x. ret (Some x)) else fail (BadTag what t))
      (\<lambda>bs' b. put_opt_bytes b = Some (bs @ bs'))"
  proof (intro consumes_if consumes_ret consumes_fail consumes_and_then [OF canonical_bytes])
    show "t = 0 \<Longrightarrow> put_opt_bytes None = Some (bs @ [])" using t by simp
  qed (use t in \<open>simp add: put_all.simps\<close>)
qed

lemma canonical_scalar [canonical]:
  "consumes cur_scalar (\<lambda>bs v. put_scalar v = Some bs \<and> scalar_typed v)"
  unfolding cur_scalar_def
proof (rule consumes_and_then [OF canonical_u8])
  fix bs and t :: u8
  assume t: "put_u8 t = Some bs"
  have b: "consumes (and_then cur_u8 (\<lambda>b. if b = 0 then ret (SBool False)
        else if b = 1 then ret (SBool True) else fail (BadTag ''scalar bool'' b)))
      (\<lambda>bs' v. put_scalar v = Some (bs @ bs') \<and> scalar_typed v)" if "t = 1"
    by (rule consumes_and_then [OF canonical_u8])
      (use t that in \<open>auto simp: put_all.simps intro!: consumes_ret consumes_fail\<close>)
  have r: "consumes (and_then cur_array16 (\<lambda>i. and_then cur_string (\<lambda>mime.
       and_then cur_u64 (\<lambda>size. and_then (cur_flag ''blob inline'' cur_bytes) (\<lambda>inline.
         ret (SBlobRef (BlobRef i mime size inline)))))))
      (\<lambda>bs' v. put_scalar v = Some (bs @ bs') \<and> scalar_typed v)" if "t = 4"
    by (rule consumes_and_then [OF canonical_array16] consumes_and_then [OF canonical_string]
        consumes_and_then [OF canonical_u64] consumes_and_then [OF canonical_flag_bytes]
        consumes_ret)+
      (use t that in \<open>auto simp: put_all.simps\<close>)
  show "consumes (if t = 0 then ret SNull
     else if t = 1 then and_then cur_u8 (\<lambda>b.
       if b = 0 then ret (SBool False) else if b = 1 then ret (SBool True)
       else fail (BadTag ''scalar bool'' b))
     else if t = 2 then and_then cur_i64 (\<lambda>n. ret (SInt n))
     else if t = 3 then and_then cur_bytes (\<lambda>b. ret (SBytes b))
     else if t = 4 then and_then cur_array16 (\<lambda>i. and_then cur_string (\<lambda>mime.
       and_then cur_u64 (\<lambda>size. and_then (cur_flag ''blob inline'' cur_bytes) (\<lambda>inline.
         ret (SBlobRef (BlobRef i mime size inline))))))
     else if t = 5 then and_then cur_element_id (\<lambda>e. ret (SElementRef e))
     else fail (BadTag ''scalar'' t))
     (\<lambda>bs' v. put_scalar v = Some (bs @ bs') \<and> scalar_typed v)"
    by (intro consumes_if b r consumes_ret consumes_fail consumes_and_then [OF canonical_i64]
        consumes_and_then [OF canonical_bytes] consumes_and_then [OF canonical_element_id])
      (use t in \<open>auto simp: put_all.simps\<close>)
qed

section \<open>Decoded ops are well formed\<close>

text \<open>\<open>yields d P\<close>: whatever the input, a value that \<open>d\<close> returns satisfies \<open>P\<close>.\<close>

definition yields :: "'a decoder \<Rightarrow> ('a \<Rightarrow> bool) \<Rightarrow> bool" where
  "yields d P \<longleftrightarrow> (\<forall>c x c'. d c = Inr (x, c') \<longrightarrow> P x)"

lemma yields_any [simp]: "yields d (\<lambda>_. True)"
  by (simp add: yields_def)

lemma yields_ret [simp]: "yields (ret x) P = P x"
  by (auto simp: yields_def ret_def)

lemma yields_fail [simp]: "yields (fail e) P"
  by (simp add: yields_def fail_def)

lemma yields_and_then:
  "yields d P \<Longrightarrow> (\<And>x. P x \<Longrightarrow> yields (f x) Q) \<Longrightarrow> yields (and_then d f) Q"
  by (fastforce simp: yields_def and_then_def split: sum.splits)

lemma yields_bind: "(\<And>x. yields (f x) Q) \<Longrightarrow> yields (and_then d f) Q"
  by (rule yields_and_then [OF yields_any])

lemma yields_string: "yields cur_string (list_all valid_char)"
  unfolding cur_string_def
  by (rule yields_bind) (auto split: option.split dest: as_from_utf8)

lemma yields_scalar: "yields cur_scalar scalar_typed"
proof -
  have "yields (and_then cur_array16 (\<lambda>i. and_then cur_string (\<lambda>mime.
       and_then cur_u64 (\<lambda>size. and_then (cur_flag ''blob inline'' cur_bytes) (\<lambda>inline.
         ret (SBlobRef (BlobRef i mime size inline))))))) scalar_typed"
    by (rule yields_bind, rule yields_and_then [OF yields_string], intro yields_bind) simp
  then show ?thesis
    unfolding cur_scalar_def by (intro yields_bind) (simp add: yields_bind)
qed

lemma yields_ranged_init: "yields cur_ranged_init ranged_init_typed"
proof -
  have "yields cur_composite_payload_kind is_composite_payload_kind"
    unfolding cur_composite_payload_kind_def by (rule yields_bind) (simp split: option.split)
  then have "yields (and_then cur_composite_payload_kind (\<lambda>k. ret (InitComposite k))) ranged_init_typed"
    by (rule yields_and_then) simp
  moreover have "yields (and_then cur_scalar (\<lambda>v. ret (InitScalar v))) ranged_init_typed"
    by (rule yields_and_then [OF yields_scalar]) simp
  ultimately show ?thesis
    unfolding cur_ranged_init_def by (intro yields_bind) simp
qed

lemma yields_opkind: "yields cur_opkind op_kind_typed"
proof -
  have scalar: "yields (and_then cur_scalar f) op_kind_typed"
    if "\<And>v. scalar_typed v \<Longrightarrow> yields (f v) op_kind_typed" for f
    using yields_scalar that by (rule yields_and_then)
  have string: "yields (and_then cur_string f) op_kind_typed"
    if "\<And>s. list_all valid_char s \<Longrightarrow> yields (f s) op_kind_typed" for f
    using yields_string that by (rule yields_and_then)
  have init: "yields (and_then cur_ranged_init f) op_kind_typed"
    if "\<And>i. ranged_init_typed i \<Longrightarrow> yields (f i) op_kind_typed" for f
    using yields_ranged_init that by (rule yields_and_then)
  show ?thesis
    unfolding cur_opkind_def
    by (rule yields_bind) (simp add: scalar string init yields_bind)
qed

lemma yields_flag: "yields d P \<Longrightarrow> yields (cur_flag what d) (pred_option P)"
  unfolding cur_flag_def
  by (rule yields_bind) (auto intro: yields_and_then)

lemma yields_tx: "yields cur_tx tx_typed"
  unfolding cur_tx_def by (intro yields_bind) (simp add: tx_typed_def)

lemma yields_op: "yields cur_op op_typed"
  unfolding cur_op_def
  by (rule yields_bind, rule yields_bind, rule yields_bind, rule yields_bind,
      rule yields_and_then [OF yields_opkind], rule yields_and_then [OF yields_flag [OF yields_tx]], rule yields_bind)
    (simp add: op_typed_def)

section \<open>Concatenated logs\<close>

text \<open>Decoding a log depends only on the bytes from the cursor on; one step of it reads a length
  and a frame.\<close>

definition frame_length :: "bytes \<Rightarrow> nat" where
  "frame_length r = unat (word_of_nat (le_value (take 4 r)) :: u32)"

lemma decode_ops_from_step:
  fixes c :: cursor
  assumes "r = drop (at c) (buf c)" and "at c \<le> length (buf c)"
  shows "decode_ops_from c =
    (if r = [] then Inr []
     else if length r < 4 + frame_length r then Inl UnexpectedEof
     else case decode_op (take (frame_length r) (drop 4 r)) of Inl e \<Rightarrow> Inl e
       | Inr p \<Rightarrow> (case decode_ops_from (c\<lparr>at := at c + (4 + frame_length r)\<rparr>) of
           Inl e \<Rightarrow> Inl e | Inr ps \<Rightarrow> Inr (p # ps)))"
  using assms
  by (subst decode_ops_from.simps)
    (auto simp: cur_u32_def cur_take_def and_then_def ret_def frame_length_def add.commute add.assoc
      split: sum.split)

lemma decode_ops_from_drop:
  fixes c c2 :: cursor
  assumes "drop (at c) (buf c) = drop (at c2) (buf c2)"
    "at c \<le> length (buf c)" "at c2 \<le> length (buf c2)"
  shows "decode_ops_from c = decode_ops_from c2"
  using assms
proof (induction "length (drop (at c) (buf c))" arbitrary: c c2 rule: less_induct)
  case less
  let ?r = "drop (at c) (buf c)" and ?n = "4 + frame_length (drop (at c) (buf c))"
  have IH: "decode_ops_from (c\<lparr>at := at c + ?n\<rparr>) = decode_ops_from (c2\<lparr>at := at c2 + ?n\<rparr>)"
    if "?n \<le> length ?r"
  proof (rule less.hyps)
    have "drop ?n (drop (at c) (buf c)) = drop ?n (drop (at c2) (buf c2))" using less.prems by simp
    then show "drop (at (c\<lparr>at := at c + ?n\<rparr>)) (buf (c\<lparr>at := at c + ?n\<rparr>)) =
        drop (at (c2\<lparr>at := at c2 + ?n\<rparr>)) (buf (c2\<lparr>at := at c2 + ?n\<rparr>))"
      by (simp add: add.commute)
    have "length (drop (at c) (buf c)) = length (drop (at c2) (buf c2))" using less.prems by simp
    then show "at (c2\<lparr>at := at c2 + ?n\<rparr>) \<le> length (buf (c2\<lparr>at := at c2 + ?n\<rparr>))"
      using that less.prems by simp
  qed (use that less.prems(2,3) in auto)
  note steps = decode_ops_from_step [OF refl less.prems(2)]
    decode_ops_from_step [OF less.prems(1,3)]
  show ?case
    unfolding steps using IH by (simp split: sum.split)
qed

lemma decode_ops_step:
  "decode_ops r =
    (if r = [] then Inr []
     else if length r < 4 + frame_length r then Inl UnexpectedEof
     else case decode_op (take (frame_length r) (drop 4 r)) of Inl e \<Rightarrow> Inl e
       | Inr p \<Rightarrow> (case decode_ops (drop (4 + frame_length r) r) of
           Inl e \<Rightarrow> Inl e | Inr ps \<Rightarrow> Inr (p # ps)))"
proof -
  have "decode_ops_from ((cursor_new r)\<lparr>at := 4 + frame_length r\<rparr>) =
      decode_ops_from (cursor_new (drop (4 + frame_length r) r))" if "4 + frame_length r \<le> length r"
    using that by (intro decode_ops_from_drop) (auto simp: cursor_new_def)
  then show ?thesis
    unfolding decode_ops_def using decode_ops_from_step [of r "cursor_new r"]
    by (auto simp: cursor_new_def split: sum.split)
qed

lemma decode_ops_append:
  "decode_ops a = Inr ps \<Longrightarrow>
     decode_ops (a @ b) = (case decode_ops b of Inl e \<Rightarrow> Inl e | Inr qs \<Rightarrow> Inr (ps @ qs))"
proof (induction "length a" arbitrary: a ps rule: less_induct)
  case less
  show ?case
  proof (cases "a = []")
    case True
    then show ?thesis using less.prems by (simp add: decode_ops_step [of "[]"] split: sum.split)
  next
    case False
    let ?n = "frame_length a"
    obtain p qs where len: "4 + ?n \<le> length a" and p: "decode_op (take ?n (drop 4 a)) = Inr p"
      and qs: "decode_ops (drop (4 + ?n) a) = Inr qs" and ps: "ps = p # qs"
      using less.prems False by (subst (asm) decode_ops_step) (auto split: if_splits sum.splits)
    have n: "frame_length (a @ b) = ?n" using len by (simp add: frame_length_def)
    have "decode_ops (drop (4 + ?n) a @ b) =
        (case decode_ops b of Inl e \<Rightarrow> Inl e | Inr rs \<Rightarrow> Inr (qs @ rs))"
      using False len by (intro less.hyps [OF _ qs]) simp
    then show ?thesis
      using False len n p ps by (subst decode_ops_step) (simp split: sum.split)
  qed
qed

section \<open>Properties\<close>

text \<open>C35. An op that the Rust types admit survives its encoding: decoding the bytes of
  \<open>encode_op\<close> gives back the op, and the bytes with anything appended are refused.\<close>
theorem op_codec_roundtrip:
  assumes "op_typed p" and "encode_op p = Some bs"
  shows "decode_op bs = Inr p \<and> (extra \<noteq> [] \<longrightarrow> decode_op (bs @ extra) = Inl TrailingBytes)"
  using op_format.decode_all_put op_format.trailing_rejected assms
  by (simp add: encode_op_def decode_op_def)

definition text_insert_op :: op where
  "text_insert_op = \<lparr>op_id = OpId (ClientId 7) 3, op_stamp = Stamp 9 (ClientId 7) 0,
     target = ElementId 1, kind = TextInsert [104, 233, 8364] (Anchor (Some (Stamp 4 (ClientId 2) 5)) RightSide),
     op_tx = Some (Tx (TxId 11) 2), zone = Some 6\<rparr>"

lemma put_all_eq_None: "put_all ps = None \<longleftrightarrow> None \<in> set ps" "None = put_all ps \<longleftrightarrow> None \<in> set ps"
  by (induction ps) (auto simp: put_all.simps split: option.splits)

lemmas encoding = put_raw_def put_u8_def put_u32_def put_u64_def put_len_def len_u32_def
  put_bytes_def put_client_def put_element_id_def put_stamp_def put_anchor_def put_op_def encode_op_def

lemma text_insert_op_typed: "op_typed text_insert_op"
  by (simp add: text_insert_op_def op_typed_def tx_typed_def valid_char_def MAX_TX_MEMBERS_def)

lemma text_insert_op_bytes:
  obtains bs where "encode_op text_insert_op = Some bs"
proof -
  have "encode_op text_insert_op \<noteq> None"
    by (simp add: encoding put_all_eq_None text_insert_op_def as_utf8_def utf8_char_def)
  with that show thesis by blast
qed

definition inc_op :: "u64 \<Rightarrow> op" where
  "inc_op l = op_new (OpId (ClientId 7) l) (Stamp l (ClientId 7) 0) (ElementId 1) (CounterInc [107] 2)"

lemma inc_op_bytes:
  "encode_op (inc_op l) = Some (clientid_as_bytes (ClientId 7) @ le_bytes 8 (unat l) @
     le_bytes 8 (unat l) @ clientid_as_bytes (ClientId 7) @ [0] @ elementid_as_bytes (ElementId 1) @
     [1] @ le_bytes 4 1 @ [107] @ le_bytes 4 2 @ [0] @ [0])"
  by (simp add: encoding put_all.simps inc_op_def op_new_def)

lemma inc_ops_typed: "list_all op_typed (map inc_op ls)"
  by (induction ls) (simp_all add: inc_op_def op_new_def op_typed_def)

lemma inc_ops_bytes:
  obtains bs where "encode_ops (map inc_op ls) = Some bs"
proof -
  have "encode_ops (map inc_op ls) \<noteq> None"
    by (auto simp: encode_ops_def inc_op_bytes put_all_eq_None put_len_def len_u32_def put_raw_def put_u32_def)
  with that show thesis by blast
qed

lemma op_codec_roundtrip_witness:
  "\<exists>bs. encode_op text_insert_op = Some bs \<and> decode_op bs = Inr text_insert_op
     \<and> decode_op (bs @ [0]) = Inl TrailingBytes"
proof -
  obtain bs where "encode_op text_insert_op = Some bs" by (rule text_insert_op_bytes)
  with op_codec_roundtrip [OF text_insert_op_typed, of bs "[0]"] show ?thesis by auto
qed

text \<open>The op log is a round trip: a sequence of ops written as length-prefixed frames decodes
  to the same sequence.\<close>
theorem op_log_roundtrip:
  assumes "list_all op_typed ops" and "encode_ops ops = Some bs"
  shows "decode_ops bs = Inr ops"
  using decode_ops_from_encode [of ops bs "cursor_new bs"] assms
  by (simp add: decode_ops_def cursor_new_def)

lemma op_log_roundtrip_witness:
  "\<exists>bs. encode_ops [inc_op 1, inc_op 2] = Some bs \<and> decode_ops bs = Inr [inc_op 1, inc_op 2]"
proof -
  obtain bs where "encode_ops [inc_op 1, inc_op 2] = Some bs"
    using inc_ops_bytes [of "[1, 2]"] by auto
  with op_log_roundtrip [of "[inc_op 1, inc_op 2]" bs] inc_ops_typed [of "[1, 2]"] show ?thesis by simp
qed

text \<open>The op log is append-only: if a log decodes, then appending bytes to it leaves every op
  of the log in place, and the rest decodes as a log of its own.\<close>
theorem op_log_append:
  assumes "decode_ops a = Inr ps"
  shows "decode_ops (a @ b) = (case decode_ops b of Inl e \<Rightarrow> Inl e | Inr qs \<Rightarrow> Inr (ps @ qs))"
  using assms by (rule decode_ops_append)

lemma op_log_append_witness:
  "\<exists>a. decode_ops a = Inr [inc_op 1] \<and> decode_ops (a @ [1, 0]) = Inl UnexpectedEof \<and>
     decode_ops (a @ a) = Inr [inc_op 1, inc_op 1]"
proof -
  obtain a where a: "encode_ops [inc_op 1] = Some a"
    using inc_ops_bytes [of "[1]"] by auto
  then have d: "decode_ops a = Inr [inc_op 1]"
    using decode_ops_from_encode [of "[inc_op 1]" a "cursor_new a"] inc_ops_typed [of "[1]"]
    by (simp add: decode_ops_def cursor_new_def)
  have "decode_ops [1, 0] = Inl UnexpectedEof" by code_simp
  then show ?thesis using op_log_append [OF d, of "[1, 0]"] op_log_append [OF d, of a] d by auto
qed

text \<open>C39. Decoding is safe on arbitrary bytes: an op that \<open>decode_op\<close> accepts is one the types
  admit. Its strings are scalar values, a composite payload has one of the allowed kinds, and a
  transaction has between 1 and 1000 members.\<close>
theorem decode_op_typed:
  assumes "decode_op bs = Inr p"
  shows "op_kind_typed (kind p) \<and> (\<forall>t. op_tx p = Some t \<longrightarrow> 1 \<le> member_count t \<and> member_count t \<le> 1000)"
proof -
  obtain c where "cur_op (cursor_new bs) = Inr (p, c)"
    using assms by (auto simp: decode_op_def decode_all_def split: sum.splits if_splits)
  then have "op_typed p" using yields_op unfolding yields_def by blast
  then show ?thesis by (auto simp: op_typed_def tx_typed_def MAX_TX_MEMBERS_def)
qed

lemma decode_op_typed_witness:
  "\<exists>bs. decode_op bs = Inr text_insert_op \<and> op_kind_typed (kind text_insert_op)"
proof -
  obtain bs where "encode_op text_insert_op = Some bs" by (rule text_insert_op_bytes)
  then have "decode_op bs = Inr text_insert_op"
    using decode_op_put [OF text_insert_op_typed] by (simp add: encode_op_def)
  then show ?thesis using decode_op_typed [of bs text_insert_op] by blast
qed

text \<open>The scalar encoding is canonical: whatever bytes the scalar decoder accepts are exactly
  the bytes the encoder writes for the value it returns.\<close>
theorem scalar_codec_canonical:
  assumes "decode_all cur_scalar bs = Inr v"
  shows "put_scalar v = Some bs"
proof -
  obtain c where c: "cur_scalar (cursor_new bs) = Inr (v, c)" "at c = length (buf c)"
    using assms by (auto simp: decode_all_def at_end_def split: sum.splits if_splits)
  have "at (cursor_new bs) \<le> length (buf (cursor_new bs))"
    "drop (at (cursor_new bs)) (buf (cursor_new bs)) = bs" by (simp_all add: cursor_new_def)
  with canonical_scalar c(1) obtain bs' where
    "bs = bs' @ drop (at c) (buf c)" "put_scalar v = Some bs'"
    unfolding consumes_def by metis
  with c(2) show ?thesis by simp
qed

lemma scalar_codec_canonical_witness:
  "decode_all cur_scalar [1, 1] = Inr (SBool True) \<and> put_scalar (SBool True) = Some [1, 1]"
proof -
  have "decode_all cur_scalar [1, 1] = Inr (SBool True)" by code_simp
  then show ?thesis using scalar_codec_canonical by blast
qed

text \<open>The stamp encoding is not canonical: the decoder reads any non-zero byte as "an offset
  follows", also when the offset is zero, so one stamp has many accepted encodings.\<close>
theorem stamp_codec_not_canonical:
  fixes s :: stamp and flag :: u8
  assumes "flag \<noteq> 0"
  shows "decode_all cur_stamp
      (le_bytes 8 (unat (lamport s)) @ clientid_as_bytes (client s) @ flag # le_bytes 8 (unat (offset s)))
    = Inr s"
proof -
  let ?bs = "le_bytes 8 (unat (lamport s)) @ clientid_as_bytes (client s) @ flag # le_bytes 8 (unat (offset s))"
  have "codes (put_all [put_u64 (lamport s), put_client (client s), put_u8 flag, put_u64 (offset s)])
          cur_stamp (Stamp (lamport s) (client s) (offset s))"
    unfolding cur_stamp_def
    by (intro codes_Cons [OF codes_u64] codes_Cons [OF codes_client] codes_Cons [OF codes_u8])
      (use assms in \<open>auto intro!: codes_intro\<close>)
  then have "reads cur_stamp ?bs s"
    by (simp add: codes_def put_all.simps put_u64_def put_client_def put_raw_def put_u8_def)
  then obtain h where "cur_stamp (cursor_new ?bs) =
      Inr (s, (cursor_new ?bs)\<lparr>at := at (cursor_new ?bs) + length ?bs, stamp_high_water := h\<rparr>)"
    by (rule readsE [of _ _ _ "cursor_new ?bs" "[]"]) (simp_all add: cursor_new_def)
  then show ?thesis by (simp add: decode_all_def at_end_def cursor_new_def)
qed

lemma stamp_codec_not_canonical_witness:
  "decode_all cur_stamp (le_bytes 8 5 @ clientid_as_bytes (ClientId 1) @ 200 # le_bytes 8 0)
     = Inr (Stamp 5 (ClientId 1) 0) \<and>
   put_stamp (Stamp 5 (ClientId 1) 0) = Some (le_bytes 8 5 @ clientid_as_bytes (ClientId 1) @ [0])"
proof -
  have "put_stamp (Stamp 5 (ClientId 1) 0) = Some (le_bytes 8 5 @ clientid_as_bytes (ClientId 1) @ [0])"
    by code_simp
  then show ?thesis using stamp_codec_not_canonical [of 200 "Stamp 5 (ClientId 1) 0"] by simp
qed

end
