(* ===== verification/Convergence.thy ===== *)
theory Convergence
  imports Prelude
begin

text \<open>
  The interfaces through which replicas are shown to agree. An operation-based component
  folds operations into its state: if any two admissible operations commute, replicas that
  received the same operations in different orders agree, and if a repeated operation
  changes nothing, replicas that received the same set of operations agree. A state-based
  component merges replicas: a merge that is idempotent, commutative and associative gives
  the same guarantee for any sequence of merges.
\<close>

locale commuting_steps =
  fixes step :: "'o \<Rightarrow> 's \<Rightarrow> 's"
    and admissible :: "'o \<Rightarrow> bool"
    and invar :: "'s \<Rightarrow> bool"
  assumes invar_step: "admissible x \<Longrightarrow> invar s \<Longrightarrow> invar (step x s)"
    and step_commute:
      "admissible x \<Longrightarrow> admissible y \<Longrightarrow> invar s \<Longrightarrow> step x (step y s) = step y (step x s)"
begin

lemma invar_fold: "list_all admissible xs \<Longrightarrow> invar s \<Longrightarrow> invar (fold step xs s)"
  by (induction xs arbitrary: s) (auto intro: invar_step)

lemma step_fold_commute:
  "admissible x \<Longrightarrow> list_all admissible xs \<Longrightarrow> invar s \<Longrightarrow>
    fold step xs (step x s) = step x (fold step xs s)"
proof (induction xs arbitrary: s)
  case Nil
  then show ?case by simp
next
  case (Cons y xs)
  then have "step y (step x s) = step x (step y s)" by (simp add: step_commute)
  with Cons show ?case by (simp add: invar_step)
qed

lemma fold_fold_commute:
  "list_all admissible xs \<Longrightarrow> list_all admissible ys \<Longrightarrow> invar s \<Longrightarrow>
    fold step xs (fold step ys s) = fold step ys (fold step xs s)"
  by (induction xs arbitrary: s) (simp_all add: invar_step flip: step_fold_commute)

lemma fold_move_front:
  assumes "x \<in> set xs" and "list_all admissible xs" and "invar s"
  shows "fold step xs s = fold step (remove1 x xs) (step x s)"
  using assms
proof (induction xs arbitrary: s)
  case Nil
  then show ?case by simp
next
  case (Cons y xs)
  show ?case
  proof (cases "x = y")
    case True
    then show ?thesis by simp
  next
    case False
    with Cons.prems have "admissible x" by (auto simp: list_all_iff)
    with False Cons show ?thesis by (simp add: invar_step step_commute)
  qed
qed

lemma fold_permutation:
  "mset xs = mset ys \<Longrightarrow> list_all admissible xs \<Longrightarrow> invar s \<Longrightarrow> fold step xs s = fold step ys s"
proof (induction xs arbitrary: ys s)
  case Nil
  then show ?case by simp
next
  case (Cons x xs)
  from Cons.prems(1) have x: "x \<in> set ys" and rest: "mset xs = mset (remove1 x ys)"
    by (metis list.set_intros(1) set_mset_mset) (simp flip: Cons.prems(1))
  from Cons.prems(1,2) have "list_all admissible ys"
    by (metis list_all_iff set_mset_mset)
  with x Cons.prems have "fold step ys s = fold step (remove1 x ys) (step x s)"
    by (simp add: fold_move_front)
  with Cons.IH [OF rest] Cons.prems show ?case by (simp add: invar_step)
qed

end

locale idempotent_steps = commuting_steps +
  assumes step_idem: "admissible x \<Longrightarrow> invar s \<Longrightarrow> step x (step x s) = step x s"
begin

lemma step_absorbed:
  "x \<in> set xs \<Longrightarrow> list_all admissible xs \<Longrightarrow> invar s \<Longrightarrow>
    step x (fold step xs s) = fold step xs s"
proof (induction xs arbitrary: s)
  case Nil
  then show ?case by simp
next
  case (Cons y xs)
  then show ?case
    by (cases "x = y") (auto simp: invar_step step_idem simp flip: step_fold_commute)
qed

lemma fold_absorbed:
  "set xs \<subseteq> set ys \<Longrightarrow> list_all admissible ys \<Longrightarrow> invar s \<Longrightarrow>
    fold step xs (fold step ys s) = fold step ys s"
  by (induction xs) (auto simp: step_absorbed)

lemma fold_same_set:
  assumes "set xs = set ys" and "list_all admissible xs" and "invar s"
  shows "fold step xs s = fold step ys s"
proof -
  have ys: "list_all admissible ys" using assms by (simp add: list_all_iff)
  have "fold step xs s = fold step ys (fold step xs s)"
    using assms by (simp add: fold_absorbed)
  also have "\<dots> = fold step xs (fold step ys s)"
    using assms ys by (simp add: fold_fold_commute)
  also have "\<dots> = fold step ys s"
    using assms ys by (simp add: fold_absorbed)
  finally show ?thesis .
qed

end

locale merge_semilattice =
  fixes merge :: "'s \<Rightarrow> 's \<Rightarrow> 's"
    and carrier :: "'s \<Rightarrow> bool"
  assumes merge_closed: "carrier a \<Longrightarrow> carrier b \<Longrightarrow> carrier (merge a b)"
    and merge_idem: "carrier a \<Longrightarrow> merge a a = a"
    and merge_commute: "carrier a \<Longrightarrow> carrier b \<Longrightarrow> merge a b = merge b a"
    and merge_assoc:
      "carrier a \<Longrightarrow> carrier b \<Longrightarrow> carrier c \<Longrightarrow> merge (merge a b) c = merge a (merge b c)"
begin

lemma merge_swap:
  "carrier a \<Longrightarrow> carrier b \<Longrightarrow> carrier c \<Longrightarrow> merge (merge a b) c = merge (merge a c) b"
  by (metis merge_assoc merge_commute)

lemma merge_absorb: "carrier a \<Longrightarrow> carrier b \<Longrightarrow> merge (merge a b) b = merge a b"
  by (simp add: merge_assoc merge_idem)

end

sublocale merge_semilattice \<subseteq> merges: idempotent_steps "\<lambda>x s. merge s x" carrier carrier
  by unfold_locales (auto intro: merge_closed merge_swap merge_absorb)

end
