(* ===== verification/Register.thy ===== *)
theory Register
  imports Convergence Codec_Roundtrip
begin

text \<open>
  \<^verbatim>\<open>register.rs\<close>: the last-writer-wins register. A write or a merge takes effect exactly if its
  stamp is greater than the stamp held. \<open>displaced\<close> is a per-instance signal (a \<open>Cell\<close> in the
  source) and not part of the value: the state codec and the copies drop it.
\<close>

record register =
  reg_id :: elementid
  reg_value :: scalar
  reg_stamp :: stamp
  reg_displaced :: bool

definition register_new :: "elementid \<Rightarrow> scalar \<Rightarrow> stamp \<Rightarrow> register" where
  "register_new i v s = \<lparr>reg_id = i, reg_value = v, reg_stamp = s, reg_displaced = False\<rparr>"

definition register_encode_state :: "register \<Rightarrow> encoder" where
  "register_encode_state r =
     put_all [put_element_id (reg_id r), put_scalar (reg_value r), put_stamp (reg_stamp r)]"

definition register_decode_state_from :: "register decoder" where
  "register_decode_state_from = and_then cur_element_id (\<lambda>i. and_then cur_scalar (\<lambda>v.
     and_then cur_stamp (\<lambda>s. and_then (noting (client s) (lamport s)) (\<lambda>_.
       ret (register_new i v s)))))"

definition register_decode_state :: "bytes \<Rightarrow> decode_error + register" where
  "register_decode_state bs = decode_all register_decode_state_from bs"

definition register_read :: "register \<Rightarrow> scalar" where
  "register_read r = reg_value r"

definition register_set :: "scalar \<Rightarrow> stamp \<Rightarrow> register \<Rightarrow> register" where
  "register_set v s r = (if reg_stamp r < s then r\<lparr>reg_value := v, reg_stamp := s\<rparr> else r)"

definition register_merge :: "register \<Rightarrow> register \<Rightarrow> register" where
  "register_merge r other =
     (if reg_stamp r < reg_stamp other
      then r\<lparr>reg_value := reg_value other, reg_stamp := reg_stamp other\<rparr> else r)"

definition register_deep_clone :: "register \<Rightarrow> register" where
  "register_deep_clone r = r\<lparr>reg_displaced := False\<rparr>"

definition register_rehomed :: "elementid \<Rightarrow> register \<Rightarrow> register" where
  "register_rehomed i r = r\<lparr>reg_id := i, reg_displaced := False\<rparr>"

definition register_displace :: "register \<Rightarrow> register" where
  "register_displace r = r\<lparr>reg_displaced := True\<rparr>"

definition register_reinstate :: "register \<Rightarrow> register" where
  "register_reinstate r = r\<lparr>reg_displaced := False\<rparr>"

section \<open>Convergence\<close>

text \<open>The condition on a history: a stamp names one write.\<close>

definition register_of_writes :: "elementid \<Rightarrow> bool \<Rightarrow> (stamp \<Rightarrow> scalar) \<Rightarrow> register \<Rightarrow> bool" where
  "register_of_writes i d written r \<longleftrightarrow>
     reg_id r = i \<and> reg_displaced r = d \<and> reg_value r = written (reg_stamp r)"

interpretation register_replicas: merge_semilattice register_merge "register_of_writes i d w" for i d w
  by unfold_locales (auto simp: register_merge_def register_of_writes_def)

interpretation register_writes:
  idempotent_steps "\<lambda>s. register_set (w s) s" "\<lambda>_. True" "\<lambda>_. True" for w
  by unfold_locales (auto simp: register_set_def)

lemma register_set_merge: "register_set v s r = register_merge r (register_new i v s)"
  by (simp add: register_set_def register_merge_def register_new_def)

lemma register_set_latest:
  assumes "start \<le> m" "reg_stamp q = m" "reg_value q = (if m = start then v else w m)"
  shows "reg_stamp (register_set (w s) s q) = max s m \<and>
    reg_value (register_set (w s) s q) = (if max s m = start then v else w (max s m))"
  using assms by (cases "m < s") (auto simp: register_set_def max_def)

lemma fold_register_set:
  "reg_stamp (fold (\<lambda>s. register_set (w s) s) ss r) = Max (insert (reg_stamp r) (set ss)) \<and>
   reg_value (fold (\<lambda>s. register_set (w s) s) ss r) =
     (if Max (insert (reg_stamp r) (set ss)) = reg_stamp r then reg_value r
      else w (Max (insert (reg_stamp r) (set ss))))"
proof (induction ss rule: rev_induct)
  case Nil
  then show ?case by simp
next
  case (snoc s ss)
  let ?m = "Max (insert (reg_stamp r) (set ss))"
  have max: "Max (insert (reg_stamp r) (set (ss @ [s]))) = max s ?m"
    by (simp add: insert_commute [of "reg_stamp r"])
  have le: "reg_stamp r \<le> ?m" by simp
  define q where "q = fold (\<lambda>s. register_set (w s) s) ss r"
  have q: "fold (\<lambda>s. register_set (w s) s) (ss @ [s]) r = register_set (w s) s q"
    by (simp add: q_def)
  show ?case
    using snoc.IH unfolding max q q_def [symmetric] by (intro register_set_latest [OF le]) simp_all
qed

section \<open>The state codec\<close>

definition register_typed :: "register \<Rightarrow> bool" where
  "register_typed r \<longleftrightarrow> scalar_typed (reg_value r) \<and> \<not> reg_displaced r"

lemma codes_register:
  assumes "register_typed r"
  shows "codes (register_encode_state r) register_decode_state_from r"
proof -
  have "r = register_new (reg_id r) (reg_value r) (reg_stamp r)"
    using assms by (simp add: register_typed_def register_new_def)
  moreover have "codes (put_all [put_stamp (reg_stamp r)])
      (and_then cur_stamp (\<lambda>s. and_then (noting (client s) (lamport s)) (\<lambda>_.
         ret (register_new (reg_id r) (reg_value r) s))))
      (register_new (reg_id r) (reg_value r) (reg_stamp r))"
    by (intro codes_single codes_then [OF codes_stamp])
      (use reads_and_then [OF reads_noting reads_ret] in simp)
  ultimately show ?thesis
    using assms unfolding register_encode_state_def register_decode_state_from_def register_typed_def
    by (intro codes_Cons [OF codes_element_id] codes_Cons [OF codes_scalar]) auto
qed

interpretation register_format: wire_format register_encode_state register_decode_state_from register_typed
  by unfold_locales (rule codes_register)

section \<open>Properties\<close>

text \<open>A register converges: replicas that received the same set of writes, in any order and
  with any repetition, hold the same register. A stamp names one write.\<close>
theorem register_converges:
  fixes w :: "stamp \<Rightarrow> scalar"
  assumes "set ss = set ts"
  shows "fold (\<lambda>s. register_set (w s) s) ss r = fold (\<lambda>s. register_set (w s) s) ts r"
  using assms by (rule register_writes.fold_same_set) (simp_all add: list_all_iff)

lemma register_converges_witness:
  "fold (\<lambda>s. register_set (SInt (lamport s)) s) [Stamp 2 (ClientId 1) 0, Stamp 3 (ClientId 1) 0]
     (register_new (ElementId 1) SNull (Stamp 1 (ClientId 1) 0)) =
   fold (\<lambda>s. register_set (SInt (lamport s)) s)
     [Stamp 3 (ClientId 1) 0, Stamp 2 (ClientId 1) 0, Stamp 3 (ClientId 1) 0]
     (register_new (ElementId 1) SNull (Stamp 1 (ClientId 1) 0))"
  using register_converges [of "[Stamp 2 (ClientId 1) 0, Stamp 3 (ClientId 1) 0]"
      "[Stamp 3 (ClientId 1) 0, Stamp 2 (ClientId 1) 0, Stamp 3 (ClientId 1) 0]"
      "\<lambda>s. SInt (lamport s)"] by (simp add: insert_commute)

text \<open>The last writer wins: after any sequence of writes the register holds the greatest stamp
  of the writes and of its start, and reads the value of that write.\<close>
theorem register_last_writer_wins:
  fixes w :: "stamp \<Rightarrow> scalar"
  shows "register_read (fold (\<lambda>s. register_set (w s) s) ss r) =
      (let latest = Max (insert (reg_stamp r) (set ss))
       in if latest = reg_stamp r then register_read r else w latest)"
  unfolding register_read_def Let_def using fold_register_set [of w ss r] by simp

text \<open>The state of a register survives its codec, and bytes after it are refused.\<close>
theorem register_state_roundtrip:
  assumes "scalar_typed (reg_value r)" and "register_encode_state r = Some bs"
  shows "register_decode_state bs = Inr (register_deep_clone r)"
proof -
  have "register_typed (register_deep_clone r)" "register_encode_state (register_deep_clone r) = Some bs"
    using assms by (simp_all add: register_typed_def register_deep_clone_def register_encode_state_def)
  then show ?thesis
    unfolding register_decode_state_def by (rule register_format.decode_all_put)
qed

lemma register_state_roundtrip_witness:
  "\<exists>bs. register_encode_state (register_new (ElementId 1) (SInt 5) (Stamp 1 (ClientId 1) 0)) = Some bs \<and>
     register_decode_state bs = Inr (register_new (ElementId 1) (SInt 5) (Stamp 1 (ClientId 1) 0))"
proof -
  let ?r = "register_new (ElementId 1) (SInt 5) (Stamp 1 (ClientId 1) 0)"
  have "register_encode_state ?r \<noteq> None"
    by (simp add: register_encode_state_def register_new_def put_all.simps put_element_id_def
        put_raw_def put_u8_def put_i64_def put_stamp_def put_u64_def put_client_def)
  then show ?thesis
    using register_state_roundtrip [of ?r] by (auto simp: register_new_def register_deep_clone_def)
qed

end
