(* ===== verification/Counter.thy ===== *)
theory Counter
  imports Convergence Codec_Roundtrip "HOL-Library.Sublist"
begin

text \<open>
  \<^verbatim>\<open>counter.rs\<close>: the PN-counter, per-client tallies of increments and decrements. A tally
  saturates at the largest \<open>u32\<close>; a merge takes the larger tally per client and direction.
\<close>

datatype tally = Tally (inc_total: u32) (dec_total: u32)

record counter =
  cnt_id :: elementid
  entries :: "(clientid, tally) fmap"
  cnt_displaced :: bool

definition counter_new :: "elementid \<Rightarrow> counter" where
  "counter_new i = \<lparr>cnt_id = i, entries = fmempty, cnt_displaced = False\<rparr>"

definition counter_inc :: "clientid \<Rightarrow> u32 \<Rightarrow> counter \<Rightarrow> counter" where
  "counter_inc c n k = k\<lparr>entries := fmupd c
     (case fmlookup (entries k) c of
        None \<Rightarrow> Tally n 0
      | Some t \<Rightarrow> Tally (saturating_add (inc_total t) n) (dec_total t)) (entries k)\<rparr>"

definition counter_dec :: "clientid \<Rightarrow> u32 \<Rightarrow> counter \<Rightarrow> counter" where
  "counter_dec c n k = k\<lparr>entries := fmupd c
     (case fmlookup (entries k) c of
        None \<Rightarrow> Tally 0 n
      | Some t \<Rightarrow> Tally (inc_total t) (saturating_add (dec_total t) n)) (entries k)\<rparr>"

text \<open>The read casts to \<open>i64\<close> before it subtracts and sums; the sum wraps at 64 bits.\<close>

definition counter_read :: "counter \<Rightarrow> i64" where
  "counter_read k = sum_list (map (\<lambda>t. ucast (inc_total t) - ucast (dec_total t)) (fm_values (entries k)))"

definition merge_tally :: "clientid \<Rightarrow> tally \<Rightarrow> (clientid, tally) fmap \<Rightarrow> (clientid, tally) fmap" where
  "merge_tally c other es =
     (let t = (case fmlookup es c of None \<Rightarrow> Tally 0 0 | Some t \<Rightarrow> t)
      in fmupd c (Tally (max (inc_total t) (inc_total other)) (max (dec_total t) (dec_total other))) es)"

definition counter_merge :: "counter \<Rightarrow> counter \<Rightarrow> counter" where
  "counter_merge k other = k\<lparr>entries := fm_fold merge_tally (entries other) (entries k)\<rparr>"

definition counter_deep_clone :: "counter \<Rightarrow> counter" where
  "counter_deep_clone k = k\<lparr>cnt_displaced := False\<rparr>"

definition counter_displace :: "counter \<Rightarrow> counter" where
  "counter_displace k = k\<lparr>cnt_displaced := True\<rparr>"

definition counter_reinstate :: "counter \<Rightarrow> counter" where
  "counter_reinstate k = k\<lparr>cnt_displaced := False\<rparr>"

definition put_tally :: "clientid \<times> tally \<Rightarrow> encoder" where
  "put_tally e = put_all
     [put_client (fst e), put_u32 (inc_total (snd e)), put_u32 (dec_total (snd e))]"

definition counter_encode_state :: "counter \<Rightarrow> encoder" where
  "counter_encode_state k =
     (let es = sort_key (\<lambda>e. clientid_as_bytes (fst e)) (sorted_list_of_fmap (entries k))
      in put_all [put_element_id (cnt_id k), put_len (length es), put_all (map put_tally es)])"

fun counter_entries :: "nat \<Rightarrow> (clientid, tally) fmap \<Rightarrow> (clientid, tally) fmap decoder" where
  "counter_entries 0 es = ret es"
| "counter_entries (Suc n) es = and_then cur_client (\<lambda>c. and_then cur_u32 (\<lambda>i. and_then cur_u32 (\<lambda>d.
     if fmlookup es c \<noteq> None then fail (BadTag ''counter: duplicate client'' 0)
     else counter_entries n (fmupd c (Tally i d) es))))"

definition counter_decode_state_from :: "counter decoder" where
  "counter_decode_state_from = and_then cur_element_id (\<lambda>i. and_then cur_u32 (\<lambda>count.
     and_then (counter_entries (unat count) fmempty) (\<lambda>es.
       ret \<lparr>cnt_id = i, entries = es, cnt_displaced = False\<rparr>)))"

definition counter_decode_state :: "bytes \<Rightarrow> decode_error + counter" where
  "counter_decode_state bs = decode_all counter_decode_state_from bs"

section \<open>Operations commute\<close>

datatype counter_op = Inc clientid u32 | Dec clientid u32

fun counter_step :: "counter_op \<Rightarrow> counter \<Rightarrow> counter" where
  "counter_step (Inc c n) = counter_inc c n"
| "counter_step (Dec c n) = counter_dec c n"

fun by_client :: "counter_op \<Rightarrow> clientid" where
  "by_client (Inc c _) = c"
| "by_client (Dec c _) = c"

lemma saturating_add_left_commute:
  "saturating_add a (saturating_add b c) = saturating_add b (saturating_add a (c :: 'a::len word))"
  by (metis saturating_add_assoc saturating_add_commute)

lemma saturating_add_0_left [simp]: "saturating_add 0 a = (a :: 'a::len word)"
  by (metis saturating_add_0 saturating_add_commute)

lemma fmupd_same [simp]: "fmupd k a (fmupd k b m) = fmupd k a m"
  by (rule fmap_ext) simp

lemma fmupd_swap: "k \<noteq> l \<Longrightarrow> fmupd k a (fmupd l b m) = fmupd l b (fmupd k a m)"
  by (rule fmap_ext) auto

interpretation counter_ops: commuting_steps counter_step "\<lambda>_. True" "\<lambda>_. True"
proof unfold_locales
  fix x y s
  show "counter_step x (counter_step y s) = counter_step y (counter_step x s)"
  proof (cases "by_client x = by_client y")
    case True
    then show ?thesis
      by (cases x; cases y) (auto simp: counter_inc_def counter_dec_def saturating_add_commute
          saturating_add_left_commute split: option.split)
  next
    case False
    then show ?thesis
      by (cases x; cases y) (auto simp: counter_inc_def counter_dec_def fmupd_swap)
  qed
qed simp

section \<open>Merging is a join\<close>

lemma lookup_counter_merge:
  "fmlookup (entries (counter_merge k other)) c =
     (case fmlookup (entries other) c of
        None \<Rightarrow> fmlookup (entries k) c
      | Some u \<Rightarrow>
          (let t = (case fmlookup (entries k) c of None \<Rightarrow> Tally 0 0 | Some t \<Rightarrow> t)
           in Some (Tally (max (inc_total t) (inc_total u)) (max (dec_total t) (dec_total u)))))"
proof -
  have "fmlookup (fm_fold merge_tally (entries other) (entries k)) c =
    (case fmlookup (entries other) c of None \<Rightarrow> fmlookup (entries k) c
     | Some u \<Rightarrow> (\<lambda>c t u. Some (let t = (case t of None \<Rightarrow> Tally 0 0 | Some t \<Rightarrow> t)
        in Tally (max (inc_total t) (inc_total u)) (max (dec_total t) (dec_total u))))
          c (fmlookup (entries k) c) u)"
    by (rule fm_fold_pointwise) (simp add: merge_tally_def Let_def)
  then show ?thesis by (simp add: counter_merge_def Let_def split: option.split)
qed

lemma counter_eqI:
  fixes a b :: counter
  assumes "cnt_id a = cnt_id b" "cnt_displaced a = cnt_displaced b"
    "\<And>c. fmlookup (entries a) c = fmlookup (entries b) c"
  shows "a = b"
  using assms fmap_ext [of "entries a" "entries b"] by simp

lemma counter_merge_fields [simp]:
  "cnt_id (counter_merge a b) = cnt_id a" "cnt_displaced (counter_merge a b) = cnt_displaced a"
  by (simp_all add: counter_merge_def)

definition counter_at :: "elementid \<Rightarrow> bool \<Rightarrow> counter \<Rightarrow> bool" where
  "counter_at i d k \<longleftrightarrow> cnt_id k = i \<and> cnt_displaced k = d"

interpretation counter_replicas: merge_semilattice counter_merge "counter_at i d" for i d
proof unfold_locales
  fix a b c
  show "counter_at i d a \<Longrightarrow> counter_at i d b \<Longrightarrow> counter_at i d (counter_merge a b)"
    by (simp add: counter_at_def)
  show "counter_at i d a \<Longrightarrow> counter_merge a a = a"
    by (rule counter_eqI) (auto simp: lookup_counter_merge split: option.split)
  show "counter_at i d a \<Longrightarrow> counter_at i d b \<Longrightarrow> counter_merge a b = counter_merge b a"
    by (rule counter_eqI)
      (auto simp: counter_at_def lookup_counter_merge max.commute tally.expand split: option.split)
  show "counter_at i d a \<Longrightarrow> counter_at i d b \<Longrightarrow> counter_at i d c \<Longrightarrow>
      counter_merge (counter_merge a b) c = counter_merge a (counter_merge b c)"
    by (rule counter_eqI)
      (auto simp: counter_at_def lookup_counter_merge max.assoc Let_def split: option.split)
qed

section \<open>The value after a history\<close>

fun incs :: "clientid \<Rightarrow> counter_op list \<Rightarrow> nat" where
  "incs c [] = 0"
| "incs c (Inc d n # hs) = (if d = c then unat n else 0) + incs c hs"
| "incs c (Dec d n # hs) = incs c hs"

fun decs :: "clientid \<Rightarrow> counter_op list \<Rightarrow> nat" where
  "decs c [] = 0"
| "decs c (Inc d n # hs) = decs c hs"
| "decs c (Dec d n # hs) = (if d = c then unat n else 0) + decs c hs"

definition sat32 :: "nat \<Rightarrow> nat" where
  "sat32 n = min n (2 ^ 32 - 1)"

definition tally_of :: "clientid \<Rightarrow> counter_op list \<Rightarrow> tally" where
  "tally_of c hs = Tally (word_of_nat (sat32 (incs c hs))) (word_of_nat (sat32 (decs c hs)))"

lemma incs_append [simp]: "incs c (xs @ ys) = incs c xs + incs c ys"
  by (induction c xs rule: incs.induct) auto

lemma decs_append [simp]: "decs c (xs @ ys) = decs c xs + decs c ys"
  by (induction c xs rule: decs.induct) auto

lemma unat_sat32 [simp]: "unat (word_of_nat (sat32 n) :: u32) = sat32 n"
  by (simp add: unat_of_nat sat32_def)

lemma saturating_add_sat32:
  "saturating_add (word_of_nat (sat32 a)) (n :: u32) = word_of_nat (sat32 (a + unat n))"
  unfolding word_unat_eq_iff unat_sat32 by (simp add: unat_saturating_add) (auto simp: sat32_def)

lemma sat32_unat [simp]: "sat32 (unat (n :: u32)) = unat n"
  using unat_lt_pow [of n] by (simp add: sat32_def)

lemma sat32_0 [simp]: "sat32 0 = 0"
  by (simp add: sat32_def)

lemma tally_absent: "\<forall>h \<in> set hs. by_client h \<noteq> c \<Longrightarrow> incs c hs = 0 \<and> decs c hs = 0"
  by (induction c hs rule: incs.induct) auto

lemma lookup_counter_step:
  "fmlookup (entries (counter_step x k)) c =
     (if by_client x = c then Some (let t = (case fmlookup (entries k) c of None \<Rightarrow> Tally 0 0 | Some t \<Rightarrow> t) in
        case x of Inc _ n \<Rightarrow> Tally (saturating_add (inc_total t) n) (dec_total t)
         | Dec _ n \<Rightarrow> Tally (inc_total t) (saturating_add (dec_total t) n))
      else fmlookup (entries k) c)"
  by (cases x) (auto simp: counter_inc_def counter_dec_def split: option.split)

lemma tally_of_snoc:
  "by_client h = c \<Longrightarrow> tally_of c (hs @ [h]) =
     (case h of Inc _ n \<Rightarrow> Tally (saturating_add (inc_total (tally_of c hs)) n) (dec_total (tally_of c hs))
      | Dec _ n \<Rightarrow> Tally (inc_total (tally_of c hs)) (saturating_add (dec_total (tally_of c hs)) n))"
  "by_client h \<noteq> c \<Longrightarrow> tally_of c (hs @ [h]) = tally_of c hs"
  by (cases h; simp add: tally_of_def saturating_add_sat32)+

lemma lookup_counter_history:
  "fmlookup (entries (fold counter_step hs (counter_new i))) c =
     (if c \<in> by_client ` set hs then Some (tally_of c hs) else None)"
proof (induction hs rule: rev_induct)
  case Nil
  then show ?case by (simp add: counter_new_def)
next
  case (snoc h hs)
  define k where "k = fold counter_step hs (counter_new i)"
  have k: "fold counter_step (hs @ [h]) (counter_new i) = counter_step h k" by (simp add: k_def)
  have "c \<notin> by_client ` set hs \<Longrightarrow> tally_of c hs = Tally 0 0"
    using tally_absent [of hs c] by (force simp: tally_of_def)
  with snoc have held: "(case fmlookup (entries k) c of None \<Rightarrow> Tally 0 0 | Some t \<Rightarrow> t) = tally_of c hs"
    by (simp add: k_def)
  show ?case
    unfolding k lookup_counter_step held Let_def
    using snoc unfolding k_def [symmetric] by (cases "by_client h = c") (simp_all add: tally_of_snoc)
qed

lemma sum_fm_values:
  "(\<Sum>v\<leftarrow>fm_values m. f v) = (\<Sum>k\<in>fset (fmdom m). f (the (fmlookup m k)))" for f :: "_ \<Rightarrow> 'b::comm_monoid_add"
proof -
  have "(\<Sum>v\<leftarrow>fm_values m. f v) = (\<Sum>k\<leftarrow>map fst (sorted_list_of_fmap m). f (the (fmlookup m k)))"
    unfolding fm_values_def map_map
    by (rule arg_cong [where f = sum_list], rule map_cong [OF refl]) auto
  also have "\<dots> = (\<Sum>k\<in>fset (fmdom m). f (the (fmlookup m k)))"
    using distinct_sorted_list_of_fmap [of m] by (simp add: sum_list_distinct_conv_sum_set)
  finally show ?thesis .
qed

lemma signed_sum_word:
  fixes f :: "'k \<Rightarrow> int"
  assumes "finite A" "\<And>k. k \<in> A \<Longrightarrow> \<bar>f k\<bar> < 2 ^ 32" "card A \<le> 2 ^ 31"
  shows "sint (word_of_int (\<Sum>k\<in>A. f k) :: i64) = (\<Sum>k\<in>A. f k)"
proof -
  have "\<bar>\<Sum>k\<in>A. f k\<bar> \<le> (\<Sum>k\<in>A. \<bar>f k\<bar>)" by (rule sum_abs)
  also have "\<dots> \<le> (\<Sum>k\<in>A. 2 ^ 32 - 1)"
    using assms(2) by (intro sum_mono) (force simp: zle_diff1_eq)
  also have "\<dots> = int (card A) * (2 ^ 32 - 1)" by simp
  also have "\<dots> \<le> 2 ^ 31 * (2 ^ 32 - 1)" using assms(3) by (intro mult_right_mono) simp_all
  finally have "\<bar>\<Sum>k\<in>A. f k\<bar> < 2 ^ 63" by simp
  then have "signed_take_bit 63 (\<Sum>k\<in>A. f k) = (\<Sum>k\<in>A. f k)"
    by (intro signed_take_bit_int_eq_self) auto
  then show ?thesis unfolding sint_sbintrunc' by simp
qed

lemma counter_read_int:
  "counter_read k = word_of_int (\<Sum>c\<in>fset (fmdom (entries k)).
     int (unat (inc_total (the (fmlookup (entries k) c)))) - int (unat (dec_total (the (fmlookup (entries k) c)))))"
  unfolding counter_read_def sum_fm_values
  by (simp add: of_int_sum)
lemma counter_read_signed:
  fixes k :: counter
  assumes "fm_size (entries k) \<le> 2 ^ 31"
  shows "sint (counter_read k) = (\<Sum>c\<in>fset (fmdom (entries k)).
     int (unat (inc_total (the (fmlookup (entries k) c)))) - int (unat (dec_total (the (fmlookup (entries k) c)))))"
  unfolding counter_read_int
proof (rule signed_sum_word)
  show "card (fset (fmdom (entries k))) \<le> 2 ^ 31"
    using assms by (simp add: fm_size_fcard fcard.rep_eq)
  fix c
  define t where "t = the (fmlookup (entries k) c)"
  have "int (unat (inc_total t)) < 2 ^ 32" "int (unat (dec_total t)) < 2 ^ 32"
    using uint_bounded [of "inc_total t"] uint_bounded [of "dec_total t"] by simp_all
  then show "\<bar>int (unat (inc_total (the (fmlookup (entries k) c)))) -
      int (unat (dec_total (the (fmlookup (entries k) c))))\<bar> < 2 ^ 32"
    unfolding t_def [symmetric] by linarith
qed simp

section \<open>Merging histories\<close>

lemma tally_of_filter: "tally_of c (filter (\<lambda>h. by_client h = c) hs) = tally_of c hs"
proof -
  have "incs c (filter (\<lambda>h. by_client h = c) hs) = incs c hs \<and>
        decs c (filter (\<lambda>h. by_client h = c) hs) = decs c hs"
    by (induction c hs rule: incs.induct) auto
  then show ?thesis by (simp add: tally_of_def)
qed

lemma tally_of_Nil: "tally_of c [] = Tally 0 0"
  by (simp add: tally_of_def)

lemma fold_counter_fields:
  "cnt_id (fold counter_step hs k) = cnt_id k \<and> cnt_displaced (fold counter_step hs k) = cnt_displaced k"
proof (induction hs arbitrary: k)
  case (Cons h hs)
  then show ?case by (cases h) (simp_all add: counter_inc_def counter_dec_def)
qed simp

lemma tally_of_mono:
  "inc_total (tally_of c xs) \<le> inc_total (tally_of c (xs @ ys))"
  "dec_total (tally_of c xs) \<le> dec_total (tally_of c (xs @ ys))"
  unfolding word_le_nat_alt tally_of_def tally.sel unat_sat32
  by (auto simp: sat32_def)

definition longer :: "'a list \<Rightarrow> 'a list \<Rightarrow> 'a list" where
  "longer xs ys = (if length xs \<le> length ys then ys else xs)"

lemma merged_tally:
  assumes "prefix xs ys \<or> prefix ys xs"
  shows "Tally (max (inc_total (tally_of c xs)) (inc_total (tally_of c ys)))
      (max (dec_total (tally_of c xs)) (dec_total (tally_of c ys))) = tally_of c (longer xs ys)"
  using assms
proof
  assume "prefix xs ys"
  then obtain zs where "ys = xs @ zs" by (auto elim: prefixE)
  then show ?thesis using tally_of_mono [of c xs zs] by (simp add: longer_def max_absorb2)
next
  assume "prefix ys xs"
  then obtain zs where "xs = ys @ zs" by (auto elim: prefixE)
  then show ?thesis using tally_of_mono [of c ys zs] by (auto simp: longer_def max_absorb1)
qed

section \<open>The state codec\<close>

lemma codes_entries:
  "distinct (map fst es) \<Longrightarrow> (\<And>c. c \<in> fst ` set es \<Longrightarrow> fmlookup m c = None) \<Longrightarrow>
     codes (put_all (map put_tally es)) (counter_entries (length es) m)
       (fold (\<lambda>(c, t). fmupd c t) es m)"
proof (induction es arbitrary: m)
  case Nil
  then show ?case by (simp add: codes_Nil)
next
  case (Cons e es)
  obtain c i d where e: "e = (c, Tally i d)" by (cases e rule: prod.exhaust, cases "snd e") auto
  have IH: "codes (put_all (map put_tally es)) (counter_entries (length es) (fmupd c (Tally i d) m))
      (fold (\<lambda>(c, t). fmupd c t) es (fmupd c (Tally i d) m))"
    using Cons.prems e by (intro Cons.IH) auto
  have "fmlookup m c = None" using Cons.prems e by simp
  with IH show ?case
    unfolding list.map length_Cons counter_entries.simps e put_tally_def fst_conv snd_conv tally.sel
      put_all_flatten append.simps
    by (intro codes_Cons [OF codes_client] codes_Cons [OF codes_u32]) simp
qed

lemma fold_fmupd_lookup:
  "distinct (map fst es) \<Longrightarrow>
     fmlookup (fold (\<lambda>(c, t). fmupd c t) es m) k =
       (case map_of es k of None \<Rightarrow> fmlookup m k | Some t \<Rightarrow> Some t)"
  by (induction es arbitrary: m) (auto simp: map_of_eq_None_iff image_iff split: option.split)

lemma fold_fmupd_entries:
  assumes "mset es = mset (sorted_list_of_fmap m)"
  shows "fold (\<lambda>(c, t). fmupd c t) es fmempty = m" and "distinct (map fst es)"
proof -
  show d: "distinct (map fst es)"
    using assms distinct_sorted_list_of_fmap [of m] by (metis mset_eq_imp_distinct_iff mset_map)
  have "map_of es k = fmlookup m k" for k
  proof (cases "fmlookup m k")
    case None
    then have "k \<notin> fst ` set es"
      using mset_eq_setD [OF assms] by (auto simp: image_iff)
    with None show ?thesis by (simp add: map_of_eq_None_iff)
  next
    case (Some v)
    then have "(k, v) \<in> set es"
      using mset_eq_setD [OF assms] by simp
    with d Some show ?thesis by simp
  qed
  with d show "fold (\<lambda>(c, t). fmupd c t) es fmempty = m"
    by (intro fmap_ext) (simp add: fold_fmupd_lookup split: option.split)
qed

lemma codes_counter:
  assumes "\<not> cnt_displaced k"
  shows "codes (counter_encode_state k) counter_decode_state_from k"
proof -
  let ?es = "sort_key (\<lambda>e. clientid_as_bytes (fst e)) (sorted_list_of_fmap (entries k))"
  have es: "fold (\<lambda>(c, t). fmupd c t) ?es fmempty = entries k" "distinct (map fst ?es)"
    by (rule fold_fmupd_entries, simp)+
  have "codes (put_all (map put_tally ?es)) (counter_entries (length ?es) fmempty) (entries k)"
    using codes_entries [OF es(2), of fmempty] es(1) by simp
  then show ?thesis
    unfolding counter_encode_state_def Let_def counter_decode_state_from_def
    by (intro codes_Cons [OF codes_element_id] codes_len_then codes_Cons [where x = "entries k"]
        codes_Nil') (use assms in simp_all)
qed

interpretation counter_format:
  wire_format counter_encode_state counter_decode_state_from "\<lambda>k. \<not> cnt_displaced k"
  by unfold_locales (rule codes_counter)

section \<open>Properties\<close>

text \<open>C37. A counter reads what was counted: after any history of increments and decrements it
  reads, summed over the clients, the increments minus the decrements, each saturated at the
  largest \<open>u32\<close>. With at most \<open>2 ^ 31\<close> clients the \<open>i64\<close> sum does not wrap.\<close>
theorem counter_reads_history:
  assumes "card (by_client ` set hs) \<le> 2 ^ 31"
  shows "sint (counter_read (fold counter_step hs (counter_new i))) =
    (\<Sum>c\<in>by_client ` set hs. int (min (incs c hs) (2 ^ 32 - 1)) - int (min (decs c hs) (2 ^ 32 - 1)))"
proof -
  let ?k = "fold counter_step hs (counter_new i)"
  have dom: "fset (fmdom (entries ?k)) = by_client ` set hs"
    by (rule set_eqI) (simp add: fmlookup_dom_iff lookup_counter_history)
  have "sint (counter_read ?k) = (\<Sum>c\<in>by_client ` set hs.
      int (unat (inc_total (the (fmlookup (entries ?k) c)))) -
      int (unat (dec_total (the (fmlookup (entries ?k) c)))))"
    using counter_read_signed [of ?k] assms dom by (simp add: fm_size_fcard fcard.rep_eq)
  also have "\<dots> = (\<Sum>c\<in>by_client ` set hs. int (sat32 (incs c hs)) - int (sat32 (decs c hs)))"
    unfolding lookup_counter_history
    by (intro sum.cong) (simp_all only: if_True option.sel tally_of_def tally.sel unat_sat32)
  finally show ?thesis by (simp add: sat32_def)
qed

text \<open>Increments and decrements may arrive in any order.\<close>
theorem counter_converges:
  assumes "mset xs = mset ys"
  shows "fold counter_step xs k = fold counter_step ys k"
  using assms by (rule counter_ops.fold_permutation) (simp_all add: list_all_iff)

text \<open>Merging keeps every count: if of each client one replica has seen a prefix of what the
  other has seen, then the merge of the two is the counter of any history that holds, per client,
  the longer of the two.\<close>
theorem counter_merge_histories:
  assumes "\<And>c. prefix (filter (\<lambda>h. by_client h = c) xs) (filter (\<lambda>h. by_client h = c) ys) \<or>
                prefix (filter (\<lambda>h. by_client h = c) ys) (filter (\<lambda>h. by_client h = c) xs)"
    and "\<And>c. filter (\<lambda>h. by_client h = c) zs =
           longer (filter (\<lambda>h. by_client h = c) xs) (filter (\<lambda>h. by_client h = c) ys)"
  shows "counter_merge (fold counter_step xs (counter_new i)) (fold counter_step ys (counter_new i))
           = fold counter_step zs (counter_new i)"
proof (rule counter_eqI)
  have fields: "cnt_id (fold counter_step hs k) = cnt_id k \<and>
      cnt_displaced (fold counter_step hs k) = cnt_displaced k" for hs k
    by (rule fold_counter_fields)
  show "cnt_id (counter_merge (fold counter_step xs (counter_new i)) (fold counter_step ys (counter_new i)))
      = cnt_id (fold counter_step zs (counter_new i))"
    and "cnt_displaced (counter_merge (fold counter_step xs (counter_new i)) (fold counter_step ys (counter_new i)))
      = cnt_displaced (fold counter_step zs (counter_new i))"
    by (simp_all add: fields)
  fix c
  let ?f = "filter (\<lambda>h. by_client h = c)"
  have some: "c \<in> by_client ` set hs \<longleftrightarrow> ?f hs \<noteq> []" for hs
    by (auto simp: filter_empty_conv)
  have "Tally (max (inc_total (tally_of c xs)) (inc_total (tally_of c ys)))
      (max (dec_total (tally_of c xs)) (dec_total (tally_of c ys))) = tally_of c zs"
    using merged_tally [OF assms(1) [of c], of c] assms(2) [of c] by (metis tally_of_filter)
  moreover have "tally_of c xs = Tally 0 0" if "?f xs = []"
    using tally_of_filter [of c xs] unfolding that tally_of_Nil by simp
  moreover have "tally_of c zs = tally_of c xs" if "?f ys = []"
    using tally_of_filter [of c zs] tally_of_filter [of c xs] assms(2) [of c]
    unfolding that by (simp add: longer_def split: if_splits)
  moreover have "?f zs = [] \<longleftrightarrow> ?f xs = [] \<and> ?f ys = []"
    using assms(2) [of c] by (auto simp: longer_def split: if_splits)
  ultimately show "fmlookup (entries (counter_merge (fold counter_step xs (counter_new i))
        (fold counter_step ys (counter_new i)))) c =
      fmlookup (entries (fold counter_step zs (counter_new i))) c"
    unfolding lookup_counter_merge lookup_counter_history some by auto
qed

lemma counter_merge_histories_witness:
  "counter_merge
     (fold counter_step [Inc (ClientId 1) 5, Dec (ClientId 2) 1] (counter_new (ElementId 9)))
     (fold counter_step [Inc (ClientId 1) 5, Inc (ClientId 1) 2] (counter_new (ElementId 9)))
   = fold counter_step [Inc (ClientId 1) 5, Inc (ClientId 1) 2, Dec (ClientId 2) 1] (counter_new (ElementId 9))"
  by (rule counter_merge_histories) (auto simp: longer_def)

lemma counter_reads_history_witness:
  "sint (counter_read (fold counter_step [Inc (ClientId 1) 5, Dec (ClientId 2) 7] (counter_new (ElementId 9)))) = -2"
  using counter_reads_history [of "[Inc (ClientId 1) 5, Dec (ClientId 2) 7]" "ElementId 9"] by simp

lemma counter_converges_witness:
  "fold counter_step [Inc (ClientId 1) 5, Dec (ClientId 1) 7, Inc (ClientId 2) 1] (counter_new (ElementId 9)) =
   fold counter_step [Inc (ClientId 2) 1, Dec (ClientId 1) 7, Inc (ClientId 1) 5] (counter_new (ElementId 9))"
  by (rule counter_converges) simp

text \<open>The state of a counter survives its codec, whatever the order its clients are held in.\<close>
theorem counter_state_roundtrip:
  assumes "counter_encode_state k = Some bs"
  shows "counter_decode_state bs = Inr (counter_deep_clone k)"
proof -
  have "\<not> cnt_displaced (counter_deep_clone k)" "counter_encode_state (counter_deep_clone k) = Some bs"
    using assms by (simp_all add: counter_deep_clone_def counter_encode_state_def)
  then show ?thesis
    unfolding counter_decode_state_def by (rule counter_format.decode_all_put)
qed

lemma counter_state_roundtrip_witness:
  "\<exists>bs. counter_encode_state (counter_new (ElementId 9)) = Some bs \<and>
     counter_decode_state bs = Inr (counter_new (ElementId 9))"
proof -
  have "counter_encode_state (counter_new (ElementId 9)) \<noteq> None"
    by (simp add: counter_encode_state_def counter_new_def put_all.simps put_element_id_def
        put_raw_def put_len_def len_u32_def put_u32_def)
  then show ?thesis
    using counter_state_roundtrip [of "counter_new (ElementId 9)"]
    by (auto simp: counter_new_def counter_deep_clone_def)
qed

end
