(* ===== verification/TreeMoves.thy ===== *)
theory TreeMoves
  imports Convergence Stamps
begin

text \<open>
  \<^verbatim>\<open>treemove.rs\<close>: the replicated tree move. Moves are kept in a log in stamp order and folded
  into a parent relation; a late move is absorbed by undoing the later ones, applying it and
  redoing them. A move that would close a cycle is recorded and changes nothing.
\<close>

section \<open>The move log\<close>

record log_op =
  lo_stamp :: stamp
  lo_child :: elementid
  lo_parent :: elementid
  lo_prev_parent :: "elementid option"

record tree_moves =
  tree :: "(elementid, elementid) fmap"
  base :: "(elementid, elementid) fmap"
  move_log :: "log_op list"

definition tm_new :: tree_moves where
  "tm_new = \<lparr>tree = fmempty, base = fmempty, move_log = []\<rparr>"

definition set_base :: "elementid \<Rightarrow> elementid \<Rightarrow> tree_moves \<Rightarrow> tree_moves" where
  "set_base c p t =
     (case fmlookup (base t) c of None \<Rightarrow> t\<lparr>base := fmupd c p (base t)\<rparr> | Some _ \<Rightarrow> t)"

definition parent_of :: "tree_moves \<Rightarrow> elementid \<Rightarrow> elementid option" where
  "parent_of t c = (case fmlookup (tree t) c of Some p \<Rightarrow> Some p | None \<Rightarrow> fmlookup (base t) c)"

text \<open>The bounded walk of \<open>is_ancestor\<close>: \<open>n\<close> is the number of rounds left.\<close>

fun climb :: "tree_moves \<Rightarrow> elementid \<Rightarrow> nat \<Rightarrow> elementid \<Rightarrow> bool" where
  "climb t a 0 cur = True"
| "climb t a (Suc n) cur =
     (case parent_of t cur of
        None \<Rightarrow> False
      | Some p \<Rightarrow> (if p = a then True else climb t a n p))"

definition is_ancestor :: "tree_moves \<Rightarrow> elementid \<Rightarrow> elementid \<Rightarrow> bool" where
  "is_ancestor t a b = climb t a (Suc (fm_size (tree t) + fm_size (base t))) b"

definition redo :: "stamp \<Rightarrow> elementid \<Rightarrow> elementid \<Rightarrow> tree_moves \<Rightarrow> log_op \<times> tree_moves" where
  "redo s c p t =
     (\<lparr>lo_stamp = s, lo_child = c, lo_parent = p, lo_prev_parent = fmlookup (tree t) c\<rparr>,
      if c \<noteq> p \<and> \<not> is_ancestor t c p then t\<lparr>tree := fmupd c p (tree t)\<rparr> else t)"

definition undo :: "log_op \<Rightarrow> tree_moves \<Rightarrow> tree_moves" where
  "undo r t = t\<lparr>tree :=
     (case lo_prev_parent r of
        Some p \<Rightarrow> fmupd (lo_child r) p (tree t)
      | None \<Rightarrow> fmdrop (lo_child r) (tree t))\<rparr>"

definition push_redo :: "stamp \<Rightarrow> elementid \<Rightarrow> elementid \<Rightarrow> tree_moves \<Rightarrow> tree_moves" where
  "push_redo s c p t = (case redo s c p t of (r, t') \<Rightarrow> t'\<lparr>move_log := move_log t' @ [r]\<rparr>)"

text \<open>\<open>partition_point\<close> of a slice that is partitioned by the predicate: the log is sorted.\<close>

definition partition_point :: "('a \<Rightarrow> bool) \<Rightarrow> 'a list \<Rightarrow> nat" where
  "partition_point P xs = length (takeWhile P xs)"

definition tm_apply :: "stamp \<Rightarrow> elementid \<Rightarrow> elementid \<Rightarrow> tree_moves \<Rightarrow> bool \<times> tree_moves" where
  "tm_apply s c p t =
     (let i = partition_point (\<lambda>r. lo_stamp r < s) (move_log t)
      in if i < length (move_log t) \<and> lo_stamp (move_log t ! i) = s then (False, t)
         else let later = drop i (move_log t);
                  t = t\<lparr>move_log := take i (move_log t)\<rparr>;
                  t = fold undo (rev later) t;
                  t = push_redo s c p t
              in (True, fold (\<lambda>r. push_redo (lo_stamp r) (lo_child r) (lo_parent r)) later t))"

definition tm_remove :: "stamp \<Rightarrow> elementid \<Rightarrow> elementid \<Rightarrow> tree_moves \<Rightarrow> bool \<times> tree_moves" where
  "tm_remove s c p t =
     (let i = partition_point (\<lambda>r. lo_stamp r < s) (move_log t)
      in if \<not> (i < length (move_log t) \<and> lo_stamp (move_log t ! i) = s \<and>
               lo_child (move_log t ! i) = c \<and> lo_parent (move_log t ! i) = p)
         then (False, t)
         else let later = drop i (move_log t);
                  t = t\<lparr>move_log := take i (move_log t)\<rparr>;
                  t = fold undo (rev later) t
              in (True, fold (\<lambda>r. push_redo (lo_stamp r) (lo_child r) (lo_parent r)) (drop 1 later) t))"

definition edges :: "tree_moves \<Rightarrow> (elementid \<times> elementid) list" where
  "edges t = sort_key (\<lambda>e. elementid_as_bytes (fst e)) (sorted_list_of_fmap (tree t))"

definition tm_len :: "tree_moves \<Rightarrow> nat" where
  "tm_len t = length (move_log t)"

definition tm_log :: "tree_moves \<Rightarrow> (stamp \<times> elementid \<times> elementid) list" where
  "tm_log t = map (\<lambda>r. (lo_stamp r, lo_child r, lo_parent r)) (move_log t)"

definition tm_retain :: "(elementid \<Rightarrow> elementid \<Rightarrow> bool) \<Rightarrow> tree_moves \<Rightarrow> tree_moves" where
  "tm_retain keep t = t\<lparr>move_log := filter (\<lambda>r. keep (lo_child r) (lo_parent r)) (move_log t)\<rparr>"

section \<open>Replaying a log\<close>

text \<open>The specification: the state is the replay of the logged moves over the base edges.\<close>

definition over_base :: "(elementid, elementid) fmap \<Rightarrow> tree_moves" where
  "over_base b = \<lparr>tree = fmempty, base = b, move_log = []\<rparr>"

definition push_move :: "stamp \<times> elementid \<times> elementid \<Rightarrow> tree_moves \<Rightarrow> tree_moves" where
  "push_move m = (case m of (s, c, p) \<Rightarrow> push_redo s c p)"

definition replay :: "(elementid, elementid) fmap \<Rightarrow> (stamp \<times> elementid \<times> elementid) list \<Rightarrow> tree_moves" where
  "replay b ms = fold push_move ms (over_base b)"

definition log_sorted :: "tree_moves \<Rightarrow> bool" where
  "log_sorted t \<longleftrightarrow> sorted_wrt (<) (map fst (tm_log t))"

definition replayed :: "tree_moves \<Rightarrow> bool" where
  "replayed t \<longleftrightarrow> log_sorted t \<and> t = replay (base t) (tm_log t)"

lemma push_move_fields [simp]:
  "base (push_move m t) = base t" "tm_log (push_move m t) = tm_log t @ [m]"
  by (auto simp: push_move_def push_redo_def redo_def tm_log_def split: prod.split)

lemma replay_snoc: "replay b (ms @ [m]) = push_move m (replay b ms)"
  by (simp add: replay_def)

lemma replay_Nil: "replay b [] = over_base b"
  by (simp add: replay_def)

lemma replay_fields [simp]: "base (replay b ms) = b" "tm_log (replay b ms) = ms"
  by (induction ms rule: rev_induct) (simp_all add: replay_snoc, simp_all add: replay_def over_base_def tm_log_def)

lemma length_tm_log [simp]: "length (tm_log t) = length (move_log t)"
  by (simp add: tm_log_def)

lemma undo_push_move:
  assumes "move_log (push_move m t) = l @ [r]"
  shows "(undo r (push_move m t))\<lparr>move_log := l\<rparr> = t"
proof -
  obtain s c p where m: "m = (s, c, p)" by (cases m)
  have r: "lo_child r = c" "lo_prev_parent r = fmlookup (tree t) c" "l = move_log t"
    using assms by (auto simp: m push_move_def push_redo_def redo_def)
  have "fmupd c q (tree t) = tree t" if "fmlookup (tree t) c = Some q" for q
    using that by (intro fmap_ext) auto
  moreover have "fmdrop c (fmupd c q (tree t)) = tree t" "fmdrop c (tree t) = tree t"
    if "fmlookup (tree t) c = None" for q
    using that by (intro fmap_ext; auto)+
  moreover have "fmupd c q (fmupd c q' (tree t)) = fmupd c q (tree t)" for q q'
    by (rule fmap_ext) simp
  ultimately show ?thesis
    by (auto simp: m r undo_def push_move_def push_redo_def redo_def split: option.split)
qed

lemma undo_log_indep: "(undo r t)\<lparr>move_log := l\<rparr> = undo r (t\<lparr>move_log := l\<rparr>)"
  for t :: tree_moves
  by (cases t) (simp add: undo_def split: option.split)

lemma fold_undo_log_indep: "(fold undo rs t)\<lparr>move_log := l\<rparr> = fold undo rs (t\<lparr>move_log := l\<rparr>)"
  for t :: tree_moves
  by (induction rs arbitrary: t) (simp_all add: undo_log_indep)

text \<open>Undoing the later part of a replayed log leaves the replay of the earlier part.\<close>

lemma undo_later:
  assumes "t = replay b ms" and "i \<le> length ms"
  shows "fold undo (rev (drop i (move_log t))) (t\<lparr>move_log := take i (move_log t)\<rparr>) = replay b (take i ms)"
  using assms
proof (induction ms arbitrary: t rule: rev_induct)
  case Nil
  then show ?case by (simp add: replay_def over_base_def)
next
  case (snoc m ms)
  let ?u = "replay b ms"
  have t: "t = push_move m ?u" using snoc.prems by (simp add: replay_snoc)
  have len: "length (move_log ?u) = length ms" by (metis length_tm_log replay_fields(2))
  obtain r where r: "move_log t = move_log ?u @ [r]"
    by (cases m) (auto simp: t push_move_def push_redo_def redo_def)
  show ?case
  proof (cases "i = length (ms @ [m])")
    case True
    then show ?thesis using snoc.prems r len by simp
  next
    case False
    with snoc.prems have i: "i \<le> length ms" by simp
    have "(undo r t)\<lparr>move_log := take i (move_log ?u)\<rparr> = ?u\<lparr>move_log := take i (move_log ?u)\<rparr>"
      using undo_push_move [of m ?u "move_log ?u" r] r t by (metis undo_log_indep tree_moves.update_convs(3)
          tree_moves.surjective)
    with snoc.IH [OF refl i] show ?thesis
      using i len by (simp add: r undo_log_indep)
  qed
qed

text \<open>So applying a move is inserting it into the log in stamp order and replaying, and removing
  one is dropping it from the log and replaying.\<close>

definition insert_move ::
  "stamp \<times> elementid \<times> elementid \<Rightarrow> (stamp \<times> elementid \<times> elementid) list \<Rightarrow>
    (stamp \<times> elementid \<times> elementid) list" where
  "insert_move m ms = (if fst m \<in> fst ` set ms then ms
     else takeWhile (\<lambda>k. fst k < fst m) ms @ m # dropWhile (\<lambda>k. fst k < fst m) ms)"

lemma fold_push_redo: "fold (\<lambda>r. push_redo (lo_stamp r) (lo_child r) (lo_parent r)) rs t
    = fold push_move (map (\<lambda>r. (lo_stamp r, lo_child r, lo_parent r)) rs) t"
  by (induction rs arbitrary: t) (simp_all add: push_move_def)

lemma partition_point_log:
  "partition_point (\<lambda>r. lo_stamp r < s) (move_log t) = length (takeWhile (\<lambda>k. fst k < s) (tm_log t))"
  by (simp add: partition_point_def tm_log_def takeWhile_map comp_def)

lemma stamp_at:
  "i < length (move_log t) \<Longrightarrow> tm_log t ! i = (lo_stamp (move_log t ! i), lo_child (move_log t ! i), lo_parent (move_log t ! i))"
  by (simp add: tm_log_def)

lemma found_iff:
  fixes ms :: "('a::linorder \<times> 'b) list"
  assumes "sorted_wrt (<) (map fst ms)" and "i = length (takeWhile (\<lambda>k. fst k < s) ms)"
  shows "(i < length ms \<and> fst (ms ! i) = s) \<longleftrightarrow> s \<in> fst ` set ms"
  using assms
proof (induction ms arbitrary: i)
  case (Cons m ms)
  then show ?case by (cases "fst m < s") (auto simp: image_iff)
qed simp

lemma take_drop_takeWhile:
  "take (length (takeWhile P xs)) xs = takeWhile P xs" "drop (length (takeWhile P xs)) xs = dropWhile P xs"
  by (metis takeWhile_eq_take) (simp add: dropWhile_eq_drop)

lemma tm_apply_replay:
  assumes "replayed t"
  shows "tm_apply s c p t = (s \<notin> fst ` set (tm_log t), replay (base t) (insert_move (s, c, p) (tm_log t)))"
proof -
  let ?i = "partition_point (\<lambda>r. lo_stamp r < s) (move_log t)"
  have t: "t = replay (base t) (tm_log t)" and srt: "sorted_wrt (<) (map fst (tm_log t))"
    using assms by (simp_all add: replayed_def log_sorted_def)
  have i: "?i = length (takeWhile (\<lambda>k. fst k < s) (tm_log t))" by (rule partition_point_log)
  have il: "?i \<le> length (tm_log t)" unfolding i by (rule length_takeWhile_le)
  have found: "(?i < length (move_log t) \<and> lo_stamp (move_log t ! ?i) = s) \<longleftrightarrow> s \<in> fst ` set (tm_log t)"
    using found_iff [OF srt i] stamp_at [of ?i t] by auto
  show ?thesis
  proof (cases "s \<in> fst ` set (tm_log t)")
    case True
    with found t show ?thesis by (simp add: tm_apply_def Let_def insert_move_def)
  next
    case False
    with found have absent: "\<not> (?i < length (move_log t) \<and> lo_stamp (move_log t ! ?i) = s)" by blast
    have "tm_apply s c p t = (True,
        fold push_move (map (\<lambda>r. (lo_stamp r, lo_child r, lo_parent r)) (drop ?i (move_log t)))
          (push_redo s c p (replay (base t) (take ?i (tm_log t)))))"
      unfolding tm_apply_def Let_def if_not_P [OF absent] fold_push_redo undo_later [OF t il] by simp
    also have "\<dots> = (True, replay (base t) (take ?i (tm_log t) @ (s, c, p) # drop ?i (tm_log t)))"
      by (simp add: replay_def push_move_def [of "(s, c, p)"] tm_log_def drop_map)
    finally show ?thesis
      using False unfolding i by (simp add: insert_move_def take_drop_takeWhile)
  qed
qed

lemma dropWhile_at:
  fixes ms :: "('a::linorder \<times> 'b) list"
  assumes "sorted_wrt (<) (map fst ms)" and "(s, x) \<in> set ms"
  shows "dropWhile (\<lambda>k. fst k < s) ms = (s, x) # drop 1 (dropWhile (\<lambda>k. fst k < s) ms)"
    and "filter (\<lambda>m. m \<noteq> (s, x)) ms = takeWhile (\<lambda>k. fst k < s) ms @ drop 1 (dropWhile (\<lambda>k. fst k < s) ms)"
  using assms
proof (induction ms)
  case (Cons m ms)
  { case 1 then show ?case using Cons.IH by (cases "fst m < s") auto }
  { case 2
    have "fst m = s \<Longrightarrow> filter (\<lambda>m. m \<noteq> (s, x)) ms = ms" using 2 by (auto intro!: filter_True)
    with 2 Cons.IH show ?case by (cases "fst m < s") auto }
qed simp_all

lemma tm_remove_replay:
  assumes "replayed t"
  shows "tm_remove s c p t =
    ((s, c, p) \<in> set (tm_log t), replay (base t) (filter (\<lambda>m. m \<noteq> (s, c, p)) (tm_log t)))"
proof -
  let ?i = "partition_point (\<lambda>r. lo_stamp r < s) (move_log t)"
  have t: "t = replay (base t) (tm_log t)" and srt: "sorted_wrt (<) (map fst (tm_log t))"
    using assms by (simp_all add: replayed_def log_sorted_def)
  have i: "?i = length (takeWhile (\<lambda>k. fst k < s) (tm_log t))" by (rule partition_point_log)
  have il: "?i \<le> length (tm_log t)" unfolding i by (rule length_takeWhile_le)
  have held: "(?i < length (move_log t) \<and> lo_stamp (move_log t ! ?i) = s \<and>
      lo_child (move_log t ! ?i) = c \<and> lo_parent (move_log t ! ?i) = p) \<longleftrightarrow> (s, c, p) \<in> set (tm_log t)"
  proof
    assume "(s, c, p) \<in> set (tm_log t)"
    then have "drop ?i (tm_log t) = (s, c, p) # drop 1 (drop ?i (tm_log t))"
      using dropWhile_at(1) [OF srt] unfolding i take_drop_takeWhile by blast
    then have "?i < length (tm_log t)" "tm_log t ! ?i = (s, c, p)"
      by (metis drop_all list.discI not_le, metis drop_all hd_drop_conv_nth list.discI list.sel(1) not_le)
    then show "?i < length (move_log t) \<and> lo_stamp (move_log t ! ?i) = s \<and>
        lo_child (move_log t ! ?i) = c \<and> lo_parent (move_log t ! ?i) = p"
      using stamp_at [of ?i t] by simp
  qed (metis length_tm_log nth_mem stamp_at)
  show ?thesis
  proof (cases "(s, c, p) \<in> set (tm_log t)")
    case False
    then have "filter (\<lambda>m. m \<noteq> (s, c, p)) (tm_log t) = tm_log t" by (auto intro!: filter_True)
    moreover have "tm_remove s c p t = (False, t)"
      using held False unfolding tm_remove_def Let_def by (intro if_P) blast
    ultimately show ?thesis using False t by simp
  next
    case True
    have "tm_remove s c p t = (True, fold push_move (drop 1 (drop ?i (tm_log t)))
        (replay (base t) (take ?i (tm_log t))))"
      unfolding tm_remove_def Let_def if_not_P [OF iffD2 [OF not_not, OF iffD2 [OF held True]]]
        fold_push_redo undo_later [OF t il] by (simp add: tm_log_def drop_map)
    also have "\<dots> = (True, replay (base t) (take ?i (tm_log t) @ drop 1 (drop ?i (tm_log t))))"
      by (simp add: replay_def)
    finally show ?thesis
      using True dropWhile_at(2) [OF srt True] unfolding i take_drop_takeWhile by simp
  qed
qed

section \<open>Any arrival order\<close>

lemma insert_move_set:
  "set (insert_move m ms) = (if fst m \<in> fst ` set ms then set ms else insert m (set ms))"
proof -
  have "set ms = set (takeWhile (\<lambda>k. fst k < fst m) ms) \<union> set (dropWhile (\<lambda>k. fst k < fst m) ms)"
    by (metis set_append takeWhile_dropWhile_id)
  then show ?thesis by (auto simp: insert_move_def)
qed

lemma insert_move_withdrawn:
  assumes "fst m \<notin> fst ` set ms"
  shows "filter (\<lambda>k. k \<noteq> m) (insert_move m ms) = ms"
proof -
  have "filter (\<lambda>k. k \<noteq> m) ms = ms" using assms by (intro filter_True) auto
  moreover have "filter (\<lambda>k. k \<noteq> m) (xs @ m # ys) = filter (\<lambda>k. k \<noteq> m) (xs @ ys)" for xs ys
    by simp
  ultimately show ?thesis using assms by (simp only: insert_move_def if_False takeWhile_dropWhile_id)
qed

lemma insert_move_sorted:
  "sorted_wrt (<) (map fst ms) \<Longrightarrow> sorted_wrt (<) (map fst (insert_move m ms))"
proof (induction ms)
  case (Cons k ms)
  have eq: "insert_move m (k # ms) = k # insert_move m ms" if "fst k < fst m"
    using that by (auto simp: insert_move_def)
  have "fst x > fst k" if "x \<in> set (insert_move m ms)" "fst k < fst m" for x
    using that Cons.prems by (auto simp: insert_move_set split: if_splits)
  with Cons eq show ?case
    by (cases "fst k < fst m") (auto simp: insert_move_def)
qed (simp add: insert_move_def)

lemma sorted_by_stamp_unique:
  fixes ms ns :: "('a::linorder \<times> 'b) list"
  assumes "sorted_wrt (<) (map fst ms)" "sorted_wrt (<) (map fst ns)" "set ms = set ns"
  shows "ms = ns"
proof (rule map_sorted_distinct_set_unique [of fst])
  show "inj_on fst (set ms \<union> set ns)"
    using assms strict_sorted_imp_sorted by (simp add: distinct_map strict_sorted_iff)
qed (use assms in \<open>simp_all add: strict_sorted_iff\<close>)

text \<open>Moves that come from one history: a stamp names one move.\<close>

definition moves_of ::
  "(elementid, elementid) fmap \<Rightarrow> (stamp \<Rightarrow> elementid \<times> elementid) \<Rightarrow> tree_moves \<Rightarrow> bool" where
  "moves_of b mv t \<longleftrightarrow> base t = b \<and> replayed t \<and> (\<forall>(s, e) \<in> set (tm_log t). e = mv s)"

definition apply_move :: "(stamp \<Rightarrow> elementid \<times> elementid) \<Rightarrow> stamp \<Rightarrow> tree_moves \<Rightarrow> tree_moves" where
  "apply_move mv s t = snd (tm_apply s (fst (mv s)) (snd (mv s)) t)"

lemma replayed_replay: "sorted_wrt (<) (map fst ms) \<Longrightarrow> replayed (replay b ms)"
  by (simp add: replayed_def log_sorted_def)

lemma apply_move_replay:
  "moves_of b mv t \<Longrightarrow> apply_move mv s t = replay b (insert_move (s, mv s) (tm_log t))"
  by (simp add: moves_of_def apply_move_def tm_apply_replay)

lemma apply_move_log_set:
  "moves_of b mv t \<Longrightarrow> set (tm_log (apply_move mv s t)) = insert (s, mv s) (set (tm_log t))"
  by (auto simp: apply_move_replay insert_move_set moves_of_def image_iff split: prod.splits)

lemma moves_of_apply: "moves_of b mv t \<Longrightarrow> moves_of b mv (apply_move mv s t)"
  using apply_move_log_set [of b mv t s] insert_move_sorted [of "tm_log t" "(s, mv s)"]
  by (auto simp: moves_of_def replayed_def log_sorted_def apply_move_replay)

lemma moves_of_unique:
  assumes "moves_of b mv t" "moves_of b mv u" "set (tm_log t) = set (tm_log u)"
  shows "t = u"
proof -
  have "tm_log t = tm_log u"
    using assms by (intro sorted_by_stamp_unique) (simp_all add: moves_of_def replayed_def log_sorted_def)
  with assms show ?thesis by (metis moves_of_def replayed_def)
qed

interpretation tree_moves: idempotent_steps "apply_move mv" "\<lambda>_. True" "moves_of b mv" for b mv
proof unfold_locales
  fix x y t
  assume t: "moves_of b mv t"
  show "moves_of b mv (apply_move mv x t)" using t by (rule moves_of_apply)
  show "apply_move mv x (apply_move mv y t) = apply_move mv y (apply_move mv x t)"
    by (rule moves_of_unique [where b = b and mv = mv])
      (simp_all add: t moves_of_apply apply_move_log_set [where b = b] insert_commute)
  show "apply_move mv x (apply_move mv x t) = apply_move mv x t"
    by (rule moves_of_unique [where b = b and mv = mv])
      (simp_all add: t moves_of_apply apply_move_log_set [where b = b])
qed

section \<open>The parent relation is a forest\<close>

definition parent_rel :: "tree_moves \<Rightarrow> (elementid \<times> elementid) set" where
  "parent_rel t = {(c, p). parent_of t c = Some p}"

lemma climb_reaches: "(b, a) \<in> (parent_rel t)\<^sup>+ \<Longrightarrow> climb t a n b"
proof (induction n arbitrary: b)
  case (Suc n)
  from Suc.prems obtain p where p: "parent_of t b = Some p" "p = a \<or> (p, a) \<in> (parent_rel t)\<^sup>+"
    by (auto simp: parent_rel_def elim: converse_tranclE)
  with Suc.IH show ?case by auto
qed simp

lemma climb_cases:
  "climb t a n b \<Longrightarrow> (b, a) \<in> (parent_rel t)\<^sup>+ \<or> (\<exists>y. (b, y) \<in> parent_rel t ^^ n)"
proof (induction n arbitrary: b)
  case (Suc n)
  then obtain p where p: "parent_of t b = Some p" "p = a \<or> climb t a n p"
    by (auto split: option.splits if_splits)
  then have e: "(b, p) \<in> parent_rel t" by (simp add: parent_rel_def)
  from p(2) show ?case
  proof
    assume "climb t a n p"
    with Suc.IH e show ?thesis
      by (meson relpow_Suc_I2 trancl_into_trancl2)
  qed (use e in auto)
qed auto

lemma path_bound:
  assumes "finite E" "acyclic E" and "(b, y) \<in> E ^^ n"
  shows "n \<le> card {x \<in> Domain E. (b, x) \<in> E\<^sup>*}"
  using assms(3)
proof (induction n arbitrary: b)
  case (Suc n)
  then obtain p where p: "(b, p) \<in> E" "(p, y) \<in> E ^^ n" by (meson relpow_Suc_D2)
  let ?S = "\<lambda>b. {x \<in> Domain E. (b, x) \<in> E\<^sup>*}"
  have "?S p \<subset> ?S b"
  proof
    show "?S p \<subseteq> ?S b" using p(1) by (auto intro: converse_rtrancl_into_rtrancl)
    have "b \<notin> ?S p" using p(1) assms(2) by (auto simp: acyclic_def dest: rtrancl_into_trancl2)
    moreover have "b \<in> ?S b" using p(1) by auto
    ultimately show "?S p \<noteq> ?S b" by blast
  qed
  moreover have "finite (?S b)" using assms(1) by (simp add: finite_Domain)
  ultimately have "card (?S p) < card (?S b)" by (rule psubset_card_mono [rotated])
  with Suc.IH [OF p(2)] show ?case by simp
qed simp

lemma Domain_parent_rel:
  "Domain (parent_rel t) = fset (fmdom (tree t)) \<union> fset (fmdom (base t))"
  by (auto simp: parent_rel_def parent_of_def fmlookup_dom_iff split: option.splits)

lemma finite_parent_rel: "finite (parent_rel t)"
proof -
  have "parent_rel t \<subseteq> (\<lambda>c. (c, the (parent_of t c))) ` Domain (parent_rel t)"
    by (auto simp: parent_rel_def image_iff)
  then show ?thesis using Domain_parent_rel [of t] by (simp add: finite_subset)
qed

text \<open>In a forest the bounded walk decides ancestry: it never runs out of rounds.\<close>

lemma is_ancestor_iff:
  assumes "acyclic (parent_rel t)"
  shows "is_ancestor t a b \<longleftrightarrow> (b, a) \<in> (parent_rel t)\<^sup>+"
proof
  let ?n = "Suc (fm_size (tree t) + fm_size (base t))"
  assume "is_ancestor t a b"
  then have "climb t a ?n b" by (simp add: is_ancestor_def)
  then show "(b, a) \<in> (parent_rel t)\<^sup>+"
  proof (rule disjE [OF climb_cases])
    assume "\<exists>y. (b, y) \<in> parent_rel t ^^ ?n"
    then have "?n \<le> card {x \<in> Domain (parent_rel t). (b, x) \<in> (parent_rel t)\<^sup>*}"
      using path_bound [OF finite_parent_rel assms] by blast
    also have "\<dots> \<le> card (Domain (parent_rel t))"
      by (intro card_mono) (simp_all add: finite_parent_rel finite_Domain)
    also have "\<dots> \<le> fm_size (tree t) + fm_size (base t)"
      unfolding Domain_parent_rel fm_size_fcard fcard.rep_eq by (rule card_Un_le)
    finally show ?thesis by simp
  qed
qed (unfold is_ancestor_def, rule climb_reaches)

lemma parent_of_push_move:
  "parent_of (push_move (s, c, p) t) x =
     (if c \<noteq> p \<and> \<not> is_ancestor t c p \<and> x = c then Some p else parent_of t x)"
  by (auto simp: push_move_def push_redo_def redo_def parent_of_def split: option.split)

lemma acyclic_push_move:
  assumes "acyclic (parent_rel t)"
  shows "acyclic (parent_rel (push_move m t))"
proof -
  obtain s c p where m: "m = (s, c, p)" by (cases m)
  show ?thesis
  proof (cases "c \<noteq> p \<and> \<not> is_ancestor t c p")
    case True
    have "parent_rel (push_move m t) \<subseteq> insert (c, p) (parent_rel t)"
      by (auto simp: m parent_of_push_move parent_rel_def split: if_splits)
    moreover have "(p, c) \<notin> (parent_rel t)\<^sup>*"
      using True is_ancestor_iff [OF assms] by (auto simp: rtrancl_eq_or_trancl)
    then have "acyclic (insert (c, p) (parent_rel t))" using assms by (simp add: acyclic_insert)
    ultimately show ?thesis by (rule acyclic_subset [rotated])
  next
    case False
    then have "parent_rel (push_move m t) = parent_rel t"
      by (auto simp: m parent_of_push_move parent_rel_def)
    with assms show ?thesis by simp
  qed
qed

lemma acyclic_replay: "acyclic (parent_rel (over_base b)) \<Longrightarrow> acyclic (parent_rel (replay b ms))"
  by (induction ms rule: rev_induct) (simp_all add: replay_snoc acyclic_push_move, simp add: replay_def)

section \<open>Every reachable state\<close>

text \<open>The states the document drives the log through: a node is born under another node before
  anything mentions it, moves arrive in any order, and a move may be withdrawn.\<close>

definition mentions :: "tree_moves \<Rightarrow> elementid \<Rightarrow> bool" where
  "mentions t c \<longleftrightarrow> fmlookup (base t) c \<noteq> None \<or> c |\<in>| fmran (base t) \<or>
     list_ex (\<lambda>(s, d, p). c = d \<or> c = p) (tm_log t)"

inductive tm_reach :: "tree_moves \<Rightarrow> bool" where
  start: "tm_reach tm_new"
| birth: "tm_reach t \<Longrightarrow> \<not> mentions t c \<Longrightarrow> c \<noteq> p \<Longrightarrow> tm_reach (set_base c p t)"
| move: "tm_reach t \<Longrightarrow> tm_reach (snd (tm_apply s c p t))"
| withdraw: "tm_reach t \<Longrightarrow> tm_reach (snd (tm_remove s c p t))"

lemma trancl_insert_source:
  assumes "c \<notin> Range E" and "y \<noteq> c"
  shows "(y, x) \<in> (insert (c, p) E)\<^sup>+ \<longleftrightarrow> (y, x) \<in> E\<^sup>+"
proof
  assume "(y, x) \<in> (insert (c, p) E)\<^sup>+"
  then show "(y, x) \<in> E\<^sup>+"
  proof (induction rule: trancl_induct)
    case (step z x)
    then have "z \<in> Range E" by (metis Range.intros tranclD2)
    with step assms show ?case by (auto intro: trancl_into_trancl)
  qed (use assms in auto)
qed (auto intro: trancl_mono)

lemma tree_of_replay: "fmlookup (tree (replay b ms)) x = Some q \<Longrightarrow> \<exists>s. (s, x, q) \<in> set ms"
proof (induction ms rule: rev_induct)
  case Nil
  then show ?case by (simp add: replay_def over_base_def)
next
  case (snoc m ms)
  then show ?case
    by (cases m) (auto simp: replay_snoc push_move_def push_redo_def redo_def split: if_splits)
qed

lemma push_move_rebase:
  assumes "\<And>a b. is_ancestor (u\<lparr>base := b'\<rparr>) c p = is_ancestor u c p"
  shows "push_move (s, c, p) (u\<lparr>base := b'\<rparr>) = (push_move (s, c, p) u)\<lparr>base := b'\<rparr>"
  using assms by (cases u) (simp add: push_move_def push_redo_def redo_def)

lemma acyclic_fresh: "acyclic E \<Longrightarrow> c \<notin> Range E \<Longrightarrow> c \<noteq> p \<Longrightarrow> acyclic (insert (c, p) E)"
  by (auto simp: acyclic_insert rtrancl_eq_or_trancl dest: tranclD2)

text \<open>A birth under a node that nothing mentions yet changes no earlier decision of the log.\<close>

lemma replay_birth:
  assumes "acyclic (parent_rel (over_base b))" and "fmlookup b c = None" and "c |\<notin>| fmran b"
    and "\<forall>(s, d, q) \<in> set ms. c \<noteq> d \<and> c \<noteq> q" and "c \<noteq> p"
  shows "replay (fmupd c p b) ms = (replay b ms)\<lparr>base := fmupd c p b\<rparr> \<and>
    parent_rel (replay (fmupd c p b) ms) = insert (c, p) (parent_rel (replay b ms)) \<and>
    c \<notin> Range (parent_rel (replay b ms))"
  using assms(4)
proof (induction ms rule: rev_induct)
  case Nil
  show ?case
    using assms by (auto simp: replay_def over_base_def parent_rel_def parent_of_def fmranI split: if_splits)
next
  case (snoc m ms)
  obtain s d q where m: "m = (s, d, q)" by (cases m)
  let ?u = "replay b ms" and ?b = "fmupd c p b"
  have IH: "replay ?b ms = ?u\<lparr>base := ?b\<rparr>" "parent_rel (?u\<lparr>base := ?b\<rparr>) = insert (c, p) (parent_rel ?u)"
    "c \<notin> Range (parent_rel ?u)" using snoc by auto
  have mq: "q \<noteq> c" "d \<noteq> c" using snoc.prems m by auto
  have ac: "acyclic (parent_rel ?u)" using assms(1) by (rule acyclic_replay)
  then have "acyclic (parent_rel (?u\<lparr>base := ?b\<rparr>))"
    unfolding IH(2) using IH(3) assms(5) by (rule acyclic_fresh)
  then have "is_ancestor (?u\<lparr>base := ?b\<rparr>) d q = is_ancestor ?u d q"
    using ac mq IH by (simp add: is_ancestor_iff trancl_insert_source)
  then have push: "push_move m (?u\<lparr>base := ?b\<rparr>) = (push_move m ?u)\<lparr>base := ?b\<rparr>"
    unfolding m by (rule push_move_rebase)
  have par: "parent_of (t\<lparr>base := ?b\<rparr>) x = (if x = c then Some p else parent_of t x)"
    if "base t = b" "fmlookup (tree t) c = None" for t x
    using that by (auto simp: parent_of_def split: option.split)
  have "fmlookup (tree (push_move m ?u)) c = None"
    using tree_of_replay [of b "ms @ [m]" c] snoc.prems by (cases "fmlookup (tree (push_move m ?u)) c")
      (auto simp: replay_snoc)
  moreover have "parent_of (push_move m ?u) c = None"
    using calculation assms(2) by (simp add: parent_of_def)
  ultimately have "parent_rel ((push_move m ?u)\<lparr>base := ?b\<rparr>) = insert (c, p) (parent_rel (push_move m ?u))"
    by (auto simp: parent_rel_def par split: if_splits)
  moreover have "c \<notin> Range (parent_rel (push_move m ?u))"
    using IH(3) mq by (auto simp: m parent_rel_def parent_of_push_move split: if_splits)
  ultimately show ?case by (simp add: replay_snoc IH(1) push)
qed

definition tm_invar :: "tree_moves \<Rightarrow> bool" where
  "tm_invar t \<longleftrightarrow> replayed t \<and> acyclic (parent_rel (over_base (base t)))"

lemma tm_invar_acyclic: "tm_invar t \<Longrightarrow> acyclic (parent_rel t)"
  by (metis acyclic_replay replayed_def tm_invar_def)

lemma tm_invar_birth:
  assumes "tm_invar t" "\<not> mentions t c" "c \<noteq> p"
  shows "tm_invar (set_base c p t)"
proof -
  let ?b = "fmupd c p (base t)"
  have pre: "acyclic (parent_rel (over_base (base t)))" "fmlookup (base t) c = None"
      "c |\<notin>| fmran (base t)" "\<forall>(s, d, q) \<in> set (tm_log t). c \<noteq> d \<and> c \<noteq> q"
    using assms by (auto simp: tm_invar_def mentions_def list_ex_iff split: prod.splits)
  have t: "t = replay (base t) (tm_log t)" using assms by (simp add: tm_invar_def replayed_def)
  have sb: "set_base c p t = t\<lparr>base := ?b\<rparr>" using pre by (simp add: set_base_def)
  have log: "tm_log (t\<lparr>base := ?b\<rparr>) = tm_log t" by (simp add: tm_log_def)
  have "t\<lparr>base := ?b\<rparr> = replay ?b (tm_log t)"
    using replay_birth [OF pre assms(3)] t by simp
  moreover have "parent_rel (over_base ?b) = insert (c, p) (parent_rel (over_base (base t)))"
      "c \<notin> Range (parent_rel (over_base (base t)))"
    using replay_birth [of "base t" c "[]" p, unfolded replay_Nil] pre assms(3) by auto
  then have "acyclic (parent_rel (over_base ?b))" using acyclic_fresh [OF pre(1)] assms(3) by metis
  ultimately show ?thesis
    using assms(1) by (simp add: sb tm_invar_def replayed_def log log_sorted_def)
qed

lemma sorted_wrt_map_filter: "sorted_wrt R (map f xs) \<Longrightarrow> sorted_wrt R (map f (filter P xs))"
  by (induction xs) auto

lemma tm_reach_invar: "tm_reach t \<Longrightarrow> tm_invar t"
proof (induction rule: tm_reach.induct)
  case start
  have "parent_rel (over_base fmempty) = {}" by (simp add: parent_rel_def parent_of_def over_base_def)
  then show ?case
    by (simp add: tm_invar_def replayed_def log_sorted_def tm_new_def replay_def over_base_def
        tm_log_def acyclic_def)
next
  case (birth t c p)
  then show ?case by (simp add: tm_invar_birth)
next
  case (move t s c p)
  then show ?case
    using insert_move_sorted [of "tm_log t" "(s, c, p)"]
    by (auto simp: tm_invar_def tm_apply_replay replayed_def log_sorted_def)
next
  case (withdraw t s c p)
  then show ?case
    by (auto simp: tm_invar_def tm_remove_replay replayed_def log_sorted_def sorted_wrt_map_filter)
qed

section \<open>Properties\<close>




definition sample_tree :: tree_moves where
  "sample_tree = snd (tm_apply (Stamp 5 (ClientId 1) 0) (ElementId 1) (ElementId 2)
     (set_base (ElementId 2) (ElementId 0) (set_base (ElementId 1) (ElementId 0) tm_new)))"

lemma sample_tree_reach: "tm_reach sample_tree"
proof -
  have "\<not> mentions tm_new (ElementId 1)"
    "\<not> mentions (set_base (ElementId 1) (ElementId 0) tm_new) (ElementId 2)"
    by (auto simp: mentions_def tm_new_def tm_log_def set_base_def fmlookup_ran_iff split: if_splits)
  then show ?thesis
    unfolding sample_tree_def
    by (intro tm_reach.move tm_reach.birth tm_reach.start) simp_all
qed




text \<open>Withdrawing a move just recorded restores the state, and recording a move twice changes
  nothing the second time.\<close>
theorem tree_move_withdrawn:
  assumes "tm_reach t" and "s \<notin> fst ` set (tm_log t)"
  shows "tm_remove s c p (snd (tm_apply s c p t)) = (True, t) \<and>
    tm_apply s d q (snd (tm_apply s c p t)) = (False, snd (tm_apply s c p t))"
proof -
  have t: "replayed t" using tm_reach_invar [OF assms(1)] by (simp add: tm_invar_def)
  let ?u = "snd (tm_apply s c p t)"
  have u: "?u = replay (base t) (insert_move (s, c, p) (tm_log t))"
    using tm_apply_replay [OF t, of s c p] by simp
  then have ru: "replayed ?u"
    using insert_move_sorted [of "tm_log t" "(s, c, p)"] t by (simp add: replayed_def log_sorted_def)
  have "filter (\<lambda>m. m \<noteq> (s, c, p)) (insert_move (s, c, p) (tm_log t)) = tm_log t"
    using insert_move_withdrawn [of "(s, c, p)" "tm_log t"] assms(2) by simp
  moreover have "(s, c, p) \<in> set (insert_move (s, c, p) (tm_log t))"
    using assms(2) by (simp add: insert_move_set)
  moreover have "t = replay (base t) (tm_log t)" using t by (simp add: replayed_def)
  moreover have "insert_move (s, d, q) (insert_move (s, c, p) (tm_log t)) = insert_move (s, c, p) (tm_log t)"
    using calculation(2) by (force simp: insert_move_def [of "(s, d, q)"])
  ultimately show ?thesis
    unfolding tm_remove_replay [OF ru] tm_apply_replay [OF ru] by (simp add: u) force
qed

lemma tree_move_withdrawn_witness:
  "tm_remove (Stamp 1 (ClientId 3) 0) (ElementId 2) (ElementId 1)
     (snd (tm_apply (Stamp 1 (ClientId 3) 0) (ElementId 2) (ElementId 1) sample_tree)) = (True, sample_tree)"
proof -
  have "Stamp 1 (ClientId 3) 0 \<notin> fst ` set (tm_log sample_tree)" by code_simp
  then show ?thesis using tree_move_withdrawn [OF sample_tree_reach] by blast
qed

text \<open>The latest move takes effect exactly if it closes no cycle: a move with a stamp above the
  log puts the child under the parent unless the parent is the child or below it, and then no
  parent changes.\<close>
theorem latest_move_effect:
  assumes "tm_reach t" and "\<forall>m \<in> set (tm_log t). fst m < s"
  shows "parent_of (snd (tm_apply s c p t)) x =
    (if x = c \<and> c \<noteq> p \<and> (p, c) \<notin> {(c, p). parent_of t c = Some p}\<^sup>+ then Some p else parent_of t x)"
proof -
  have inv: "tm_invar t" using assms(1) by (rule tm_reach_invar)
  then have t: "replayed t" by (simp add: tm_invar_def)
  have w: "takeWhile (\<lambda>k. fst k < s) (tm_log t) = tm_log t" "dropWhile (\<lambda>k. fst k < s) (tm_log t) = []"
    using assms(2) by auto
  have "insert_move (s, c, p) (tm_log t) = tm_log t @ [(s, c, p)]"
    using assms(2) w by (auto simp: insert_move_def)
  then have "snd (tm_apply s c p t) = push_move (s, c, p) t"
    using tm_apply_replay [OF t, of s c p] t by (simp add: replay_snoc replayed_def)
  then show ?thesis
    using is_ancestor_iff [OF tm_invar_acyclic [OF inv], of c p]
    by (auto simp: parent_of_push_move parent_rel_def)
qed

lemma latest_move_effect_witness:
  "parent_of (snd (tm_apply (Stamp 6 (ClientId 3) 0) (ElementId 2) (ElementId 1) sample_tree)) (ElementId 2)
     = Some (ElementId 0)"
proof -
  have "\<forall>m \<in> set (tm_log sample_tree). fst m < Stamp 6 (ClientId 3) 0" by code_simp
  moreover have "parent_of sample_tree (ElementId 1) = Some (ElementId 2)"
    "parent_of sample_tree (ElementId 2) = Some (ElementId 0)" by code_simp+
  moreover from calculation have "(ElementId 1, ElementId 2) \<in> {(c, p). parent_of sample_tree c = Some p}\<^sup>+"
    by blast
  ultimately show ?thesis using latest_move_effect [OF sample_tree_reach] by simp
qed

end
