(* ===== verification/Zone.thy ===== *)
theory Zone
  imports Values "HOL-Library.Sublist"
begin

text \<open>
  \<^verbatim>\<open>zone.rs\<close>: which zone of the schema a document location falls in. A schema is here its
  declared zones, a name and a root path each, in declaration order (\<open>Schema::zones\<close>).
\<close>

type_synonym zones = "(rust_string \<times> rust_string) list"
type_synonym key_path = "bytes list"

definition slash :: nat where
  "slash = 47"

fun split_slash :: "rust_string \<Rightarrow> rust_string list" where
  "split_slash [] = [[]]"
| "split_slash (c # s) =
     (if c = slash then [] # split_slash s
      else case split_slash s of [] \<Rightarrow> [[c]] | seg # segs \<Rightarrow> (c # seg) # segs)"

definition root_keys :: "rust_string \<Rightarrow> key_path" where
  "root_keys root =
     (let body = (case root of [] \<Rightarrow> root | c # s \<Rightarrow> if c = slash then s else root)
      in if body = [] then [] else map as_utf8 (split_slash body))"

definition is_prefix :: "key_path \<Rightarrow> key_path \<Rightarrow> bool" where
  "is_prefix root path \<longleftrightarrow> length root \<le> length path \<and> list_all (\<lambda>(a, b). a = b) (zip root path)"

definition zone_root_keys :: "zones \<Rightarrow> rust_string \<Rightarrow> key_path option" where
  "zone_root_keys zs name =
     map_option (\<lambda>z. root_keys (snd z)) (find (\<lambda>z. fst z = name) zs)"

text \<open>One round of the longest-prefix walk: \<open>best\<close> is the id and the root length held so far.\<close>

definition zone_round ::
  "key_path \<Rightarrow> nat \<times> rust_string \<times> rust_string \<Rightarrow> (u32 \<times> nat) option \<Rightarrow> (u32 \<times> nat) option" where
  "zone_round path e best =
     (let root = root_keys (snd (snd e))
      in if is_prefix root path \<and> (case best of None \<Rightarrow> True | Some (_, best_len) \<Rightarrow> best_len < length root)
         then Some (word_of_nat (fst e), length root) else best)"

definition zone_id_of :: "zones \<Rightarrow> key_path \<Rightarrow> u32 option" where
  "zone_id_of zs path = map_option fst (fold (zone_round path) (enumerate 0 zs) None)"

definition zone_of :: "zones \<Rightarrow> key_path \<Rightarrow> rust_string option" where
  "zone_of zs path = map_option (\<lambda>i. fst (zs ! unat i)) (zone_id_of zs path)"

definition same_zone :: "zones \<Rightarrow> key_path \<Rightarrow> key_path \<Rightarrow> bool" where
  "same_zone zs a b \<longleftrightarrow> zone_of zs a = zone_of zs b"

definition crosses_zones :: "zones \<Rightarrow> key_path \<Rightarrow> key_path \<Rightarrow> bool" where
  "crosses_zones zs a b \<longleftrightarrow> \<not> same_zone zs a b"

section \<open>The innermost zone\<close>

lemma is_prefix_prefix: "is_prefix r p \<longleftrightarrow> prefix r p"
proof (induction r arbitrary: p)
  case (Cons k r)
  then show ?case by (cases p) (auto simp: is_prefix_def)
qed (simp add: is_prefix_def)

text \<open>\<open>innermost zs path i\<close>: zone \<open>i\<close> covers the path, no covering zone has a longer root, and of
  those with an equally long root it is the first declared.\<close>

definition innermost :: "zones \<Rightarrow> key_path \<Rightarrow> nat \<Rightarrow> bool" where
  "innermost zs path i \<longleftrightarrow> i < length zs \<and> prefix (root_keys (snd (zs ! i))) path \<and>
     (\<forall>j < length zs. prefix (root_keys (snd (zs ! j))) path \<longrightarrow>
        length (root_keys (snd (zs ! j))) \<le> length (root_keys (snd (zs ! i))) \<and>
        (j < i \<longrightarrow> length (root_keys (snd (zs ! j))) < length (root_keys (snd (zs ! i)))))"

lemma innermost_unique: "innermost zs path i \<Longrightarrow> innermost zs path j \<Longrightarrow> i = j"
  unfolding innermost_def by (metis linorder_neq_iff not_le)

text \<open>The walk holds the innermost zone of what it has seen.\<close>

lemma zone_walk:
  assumes "length zs \<le> 2 ^ 32"
  shows "case fold (zone_round path) (enumerate 0 zs) None of
      None \<Rightarrow> \<forall>i < length zs. \<not> prefix (root_keys (snd (zs ! i))) path
    | Some (i, n) \<Rightarrow> innermost zs path (unat i) \<and> n = length (root_keys (snd (zs ! unat i)))"
  using assms
proof (induction zs rule: rev_induct)
  case Nil
  then show ?case by simp
next
  case (snoc z zs)
  have n: "unat (word_of_nat (length zs) :: u32) = length zs"
    using snoc.prems by (simp add: unat_of_nat)
  show ?case
    using snoc n
    by (auto simp: enumerate_append_eq zone_round_def is_prefix_prefix innermost_def Let_def nth_append
        less_Suc_eq split: option.splits if_splits)
qed

lemma zone_id_of_Some:
  assumes "length zs \<le> 2 ^ 32"
  shows "zone_id_of zs path = Some i \<longleftrightarrow> innermost zs path (unat i)"
proof (cases "fold (zone_round path) (enumerate 0 zs) None")
  case None
  with zone_walk [OF assms, of path] show ?thesis by (simp add: zone_id_of_def innermost_def)
next
  case (Some e)
  then obtain j n where "fold (zone_round path) (enumerate 0 zs) None = Some (j, n)" by (cases e) auto
  with zone_walk [OF assms, of path] have j: "zone_id_of zs path = Some j" "innermost zs path (unat j)"
    by (simp_all add: zone_id_of_def)
  show ?thesis
    using j innermost_unique [OF j(2), of "unat i"] by (auto simp: word_unat_eq_iff)
qed

lemma zone_id_of_None:
  "length zs \<le> 2 ^ 32 \<Longrightarrow>
     zone_id_of zs path = None \<longleftrightarrow> (\<forall>i < length zs. \<not> prefix (root_keys (snd (zs ! i))) path)"
  using zone_walk [of zs path]
  by (auto simp: zone_id_of_def innermost_def split: option.splits prod.splits)

lemma innermost_extend:
  assumes "prefix p q" and "\<forall>z \<in> set zs. prefix (root_keys (snd z)) q \<longrightarrow> prefix (root_keys (snd z)) p"
  shows "innermost zs q i \<longleftrightarrow> innermost zs p i"
proof -
  have "prefix (root_keys (snd (zs ! j))) q \<longleftrightarrow> prefix (root_keys (snd (zs ! j))) p" if "j < length zs" for j
    using that assms prefix_order.trans nth_mem by blast
  then show ?thesis unfolding innermost_def by auto
qed

section \<open>Properties\<close>

text \<open>A location belongs to its innermost zone: the declared zone with the longest root above
  it, the first declared of equally long ones, and to none exactly if no root is above it. The id
  is the zone's index, which fits \<open>u32\<close>.\<close>
theorem zone_is_innermost:
  assumes "length zs \<le> 2 ^ 32"
  shows "(zone_id_of zs path = Some i \<longleftrightarrow> innermost zs path (unat i)) \<and>
    (zone_id_of zs path = None \<longleftrightarrow> (\<forall>j < length zs. \<not> prefix (root_keys (snd (zs ! j))) path))"
  using zone_id_of_Some zone_id_of_None assms by blast

definition sample_zones :: zones where
  "sample_zones = [([97], [47]), ([98], [47, 120]), ([99], [47, 120, 47, 121])]"

lemma zone_is_innermost_witness:
  "zone_id_of sample_zones [[120], [122]] = Some 1 \<and> innermost sample_zones [[120], [122]] 1"
proof -
  have "zone_id_of sample_zones [[120], [122]] = Some 1" by code_simp
  then show ?thesis
    using zone_is_innermost [of sample_zones "[[120], [122]]" 1] by (simp add: sample_zones_def)
qed

text \<open>Zones are compared by name and zone names are unique, so two locations are in the same
  zone exactly if they have the same zone id.\<close>
theorem same_zone_iff_id:
  assumes "length zs \<le> 2 ^ 32" and "distinct (map fst zs)"
  shows "same_zone zs a b \<longleftrightarrow> zone_id_of zs a = zone_id_of zs b"
proof (cases "zone_id_of zs a = None \<or> zone_id_of zs b = None")
  case True
  then show ?thesis by (auto simp: same_zone_def zone_of_def)
next
  case False
  then obtain i j where ij: "zone_id_of zs a = Some i" "zone_id_of zs b = Some j" by auto
  then have "unat i < length zs" "unat j < length zs"
    using assms(1) by (simp_all add: zone_id_of_Some innermost_def)
  then have "fst (zs ! unat i) = fst (zs ! unat j) \<longleftrightarrow> unat i = unat j"
    using assms(2) nth_eq_iff_index_eq [of "map fst zs" "unat i" "unat j"] by simp
  with ij show ?thesis by (simp add: same_zone_def zone_of_def word_unat_eq_iff)
qed

lemma same_zone_iff_id_witness:
  "same_zone sample_zones [[120], [122]] [[120], [121]] \<longleftrightarrow>
     zone_id_of sample_zones [[120], [122]] = zone_id_of sample_zones [[120], [121]]"
  by (rule same_zone_iff_id) (simp_all add: sample_zones_def)

text \<open>A zone is a contiguous subtree: a location and one below it never straddle a zone boundary
  unless the root of a zone lies between them.\<close>
theorem zone_contiguous:
  assumes "length zs \<le> 2 ^ 32" and "prefix p q"
    and "\<forall>z \<in> set zs. prefix (root_keys (snd z)) q \<longrightarrow> prefix (root_keys (snd z)) p"
  shows "\<not> crosses_zones zs p q"
proof -
  have "zone_id_of zs q = Some i \<longleftrightarrow> zone_id_of zs p = Some i" for i
    using assms innermost_extend [OF assms(2,3)] by (simp add: zone_id_of_Some)
  then have "zone_id_of zs q = zone_id_of zs p" by (metis not_None_eq)
  then show ?thesis by (simp add: crosses_zones_def same_zone_def zone_of_def)
qed

lemma zone_contiguous_witness: "\<not> crosses_zones sample_zones [[120], [122]] [[120], [122], [121]]"
  by (rule zone_contiguous)
    (auto simp: sample_zones_def root_keys_def slash_def as_utf8_def utf8_char_def byte_def)

end
