(* ===== verification/Sequence.thy ===== *)
theory Sequence
  imports Codec_Roundtrip
begin

text \<open>
  \<^verbatim>\<open>list.rs\<close>: the sequence CRDT (Fugue) that backs lists, text and XML children. Ids that
  carry a value are nodes; deleted ids are kept as runs of consecutive lamports, keyed by the run
  head. This theory is the state, the run store and the operations that claim, delete and merge
  ids; the walk in sequence order is in \<open>Sequence_Order\<close>.

  A node holds a scalar or a handle to a composite, known here by its kind and id: what the
  composite holds is state of its own component.
\<close>

datatype element = EScalar scalar | EHandle element_kind elementid

fun element_kind_of :: "element \<Rightarrow> element_kind" where
  "element_kind_of (EScalar _) = KScalar"
| "element_kind_of (EHandle k _) = k"

definition MAX_TOMBSTONE_RUN :: u32 where
  "MAX_TOMBSTONE_RUN = push_bit 20 1"

type_synonym skey = "clientid \<times> u64 \<times> u64"

definition seq_key :: "stamp \<Rightarrow> skey" where
  "seq_key s = (client s, offset s, lamport s)"

fun seq_stamp :: "skey \<Rightarrow> stamp" where
  "seq_stamp (c, off, l) = Stamp l c off"

text \<open>The source panics where the step leaves 64 bits; that no stored run reaches that is part of
  the invariant below.\<close>

definition run_id :: "stamp \<Rightarrow> u64 \<Rightarrow> stamp" where
  "run_id head i = Stamp (lamport head + i) (client head) (offset head)"

definition put_node_ref :: "element_kind \<Rightarrow> elementid \<Rightarrow> encoder" where
  "put_node_ref k e = put_all [put_u8 (kind_tag k), put_element_id e]"

fun put_node_value :: "element \<Rightarrow> encoder" where
  "put_node_value (EScalar s) = put_all [put_u8 (kind_tag KScalar), put_scalar s]"
| "put_node_value (EHandle k e) =
     (if k = KScalar \<or> k = KRegister then None else put_node_ref k e)"

type_synonym rank = "u8 \<times> anchor \<times> bytes option"

definition claim_rank :: "element \<Rightarrow> anchor \<Rightarrow> rank" where
  "claim_rank v a = (kind_tag (element_kind_of v), a, put_node_value v)"

datatype seat_state = Vacant | SeatedLive rank | SeatedDead anchor

record list_node =
  ln_id :: stamp
  ln_value :: element
  ln_anchor :: anchor
  moved_away :: bool

record deadrun =
  run_len :: u64
  run_anchor :: anchor

record seq_list =
  list_id :: elementid
  nodes :: "(skey, list_node) fmap"
  dead :: "(skey, deadrun) fmap"
  list_displaced :: bool

definition list_new :: "elementid \<Rightarrow> seq_list" where
  "list_new i = \<lparr>list_id = i, nodes = fmempty, dead = fmempty, list_displaced = False\<rparr>"

section \<open>Range queries of an ordered map\<close>

text \<open>\<open>range(..=k).next_back()\<close>, \<open>range(k..).next()\<close> and \<open>range(a..=b).next().is_some()\<close>.\<close>

definition range_last :: "('k::linorder, 'v) fmap \<Rightarrow> 'k \<Rightarrow> ('k \<times> 'v) option" where
  "range_last m k =
     (case filter (\<lambda>e. fst e \<le> k) (sorted_list_of_fmap m) of [] \<Rightarrow> None | e # es \<Rightarrow> Some (last (e # es)))"

definition range_first :: "('k::linorder, 'v) fmap \<Rightarrow> 'k \<Rightarrow> ('k \<times> 'v) option" where
  "range_first m k =
     (case filter (\<lambda>e. k \<le> fst e) (sorted_list_of_fmap m) of [] \<Rightarrow> None | e # es \<Rightarrow> Some e)"

definition range_any :: "('k::linorder, 'v) fmap \<Rightarrow> 'k \<Rightarrow> 'k \<Rightarrow> bool" where
  "range_any m a b = list_ex (\<lambda>e. a \<le> fst e \<and> fst e \<le> b) (sorted_list_of_fmap m)"

section \<open>The run store\<close>

definition covers :: "stamp \<Rightarrow> u64 \<Rightarrow> stamp \<Rightarrow> bool" where
  "covers head len x \<longleftrightarrow> client head = client x \<and> offset head = offset x \<and>
     lamport head \<le> lamport x \<and> lamport x - lamport head < len"

definition dead_run :: "seq_list \<Rightarrow> stamp \<Rightarrow> (stamp \<times> deadrun) option" where
  "dead_run l x =
     (case range_last (dead l) (seq_key x) of
        None \<Rightarrow> None
      | Some (k, run) \<Rightarrow> if covers (seq_stamp k) (run_len run) x then Some (seq_stamp k, run) else None)"

definition holds_any :: "seq_list \<Rightarrow> stamp \<Rightarrow> u64 \<Rightarrow> bool" where
  "holds_any l start last_lamport \<longleftrightarrow>
     (if dead_run l start \<noteq> None then True
      else let from = seq_key start; to = (client start, offset start, last_lamport)
           in range_any (nodes l) from to \<or> range_any (dead l) from to)"

definition put_dead :: "stamp \<Rightarrow> u64 \<Rightarrow> anchor \<Rightarrow> seq_list \<Rightarrow> seq_list" where
  "put_dead head len a l =
     (if len = 0 then l
      else l\<lparr>dead := fmupd (seq_key head) \<lparr>run_len = len, run_anchor = a\<rparr> (dead l)\<rparr>)"

text \<open>\<open>add_dead\<close> in its two halves: welding onto the run that ends just before the head, then
  taking in the run that starts just after the last id.\<close>

definition weld_before ::
  "stamp \<Rightarrow> u64 \<Rightarrow> anchor \<Rightarrow> seq_list \<Rightarrow> stamp \<times> u64 \<times> anchor \<times> seq_list" where
  "weld_before head len a l =
     (case checked_sub (lamport head) 1 of
        None \<Rightarrow> (head, len, a, l)
      | Some p \<Rightarrow>
          (let prev = Stamp p (client head) (offset head)
           in if a = Anchor (Some prev) RightSide then
                (case dead_run l prev of
                   None \<Rightarrow> (head, len, a, l)
                 | Some (phead, prun) \<Rightarrow>
                     (if run_id phead (run_len prun - 1) = prev
                      then (phead, len + run_len prun, run_anchor prun,
                            l\<lparr>dead := fmdrop (seq_key phead) (dead l)\<rparr>)
                      else (head, len, a, l)))
              else (head, len, a, l)))"

definition weld_after :: "stamp \<Rightarrow> u64 \<Rightarrow> seq_list \<Rightarrow> u64 \<times> seq_list" where
  "weld_after head len l =
     (let last_id = run_id head (len - 1)
      in case checked_add (lamport last_id) 1 of
           None \<Rightarrow> (len, l)
         | Some n \<Rightarrow>
             (let next_id = Stamp n (client last_id) (offset last_id)
              in case fmlookup (dead l) (seq_key next_id) of
                   None \<Rightarrow> (len, l)
                 | Some nrun \<Rightarrow>
                     (if run_anchor nrun = Anchor (Some last_id) RightSide
                      then (len + run_len nrun, l\<lparr>dead := fmdrop (seq_key next_id) (dead l)\<rparr>)
                      else (len, l))))"

definition add_dead :: "stamp \<Rightarrow> u64 \<Rightarrow> anchor \<Rightarrow> seq_list \<Rightarrow> seq_list" where
  "add_dead head len a l =
     (case weld_before head len a l of
        (head, len, a, l) \<Rightarrow>
          (case weld_after head len l of
             (len, l) \<Rightarrow> l\<lparr>dead := fmupd (seq_key head) \<lparr>run_len = len, run_anchor = a\<rparr> (dead l)\<rparr>))"

definition dead_anchor_of :: "seq_list \<Rightarrow> stamp \<Rightarrow> anchor option" where
  "dead_anchor_of l x =
     (case dead_run l x of
        None \<Rightarrow> None
      | Some (head, run) \<Rightarrow>
          (if head = x then Some (run_anchor run)
           else Some (Anchor (Some (run_id head (lamport x - lamport head - 1))) RightSide)))"

definition take_dead :: "stamp \<Rightarrow> seq_list \<Rightarrow> bool \<times> seq_list" where
  "take_dead x l =
     (case dead_run l x of
        None \<Rightarrow> (False, l)
      | Some (head, run) \<Rightarrow>
          (let l = l\<lparr>dead := fmdrop (seq_key head) (dead l)\<rparr>;
               prior = lamport x - lamport head;
               l = put_dead head prior (run_anchor run) l;
               after = run_len run - prior - 1
           in (True, if 0 < after
                     then put_dead (run_id head (prior + 1)) after (Anchor (Some x) RightSide) l
                     else l)))"

section \<open>Claims and deletes\<close>

definition anchor_of :: "seq_list \<Rightarrow> stamp \<Rightarrow> anchor option" where
  "anchor_of l x =
     (case fmlookup (nodes l) (seq_key x) of
        Some n \<Rightarrow> Some (ln_anchor n)
      | None \<Rightarrow> dead_anchor_of l x)"

definition seated :: "seq_list \<Rightarrow> stamp \<Rightarrow> seat_state" where
  "seated l x =
     (case fmlookup (nodes l) (seq_key x) of
        Some n \<Rightarrow> SeatedLive (claim_rank (ln_value n) (ln_anchor n))
      | None \<Rightarrow> (case dead_anchor_of l x of Some a \<Rightarrow> SeatedDead a | None \<Rightarrow> Vacant))"

definition delete_id :: "stamp \<Rightarrow> seq_list \<Rightarrow> seq_list" where
  "delete_id x l =
     (case fmlookup (nodes l) (seq_key x) of
        None \<Rightarrow> l
      | Some n \<Rightarrow> add_dead x 1 (ln_anchor n) (l\<lparr>nodes := fmdrop (seq_key x) (nodes l)\<rparr>))"

definition seat :: "stamp \<Rightarrow> element \<Rightarrow> anchor \<Rightarrow> seq_list \<Rightarrow> seq_list" where
  "seat x v a l =
     (case take_dead x l of
        (was_dead, l) \<Rightarrow>
          (let l = l\<lparr>nodes := fmupd (seq_key x)
                 \<lparr>ln_id = x, ln_value = v, ln_anchor = a, moved_away = False\<rparr> (nodes l)\<rparr>
           in if was_dead then delete_id x l else l))"

definition insert_at :: "stamp \<Rightarrow> element \<Rightarrow> anchor \<Rightarrow> seq_list \<Rightarrow> seq_list" where
  "insert_at x v a l =
     (let takes = (case seated l x of
            Vacant \<Rightarrow> True
          | SeatedLive r \<Rightarrow> claim_rank v a < r
          | SeatedDead held \<Rightarrow> a < held)
      in if takes then seat x v a l else l)"

definition yields_to_seated :: "seq_list \<Rightarrow> stamp \<Rightarrow> bool" where
  "yields_to_seated l x \<longleftrightarrow>
     map_option (\<lambda>n. element_kind_of (ln_value n)) (fmlookup (nodes l) (seq_key x)) = Some KScalar"

definition reseat :: "stamp \<Rightarrow> element \<Rightarrow> anchor \<Rightarrow> seq_list \<Rightarrow> seq_list" where
  "reseat x v a l = (if yields_to_seated l x then l else seat x v a l)"

definition rejoin :: "stamp \<Rightarrow> element \<Rightarrow> anchor \<Rightarrow> seq_list \<Rightarrow> seq_list" where
  "rejoin x v a l =
     (if yields_to_seated l x then l
      else seat x v (case anchor_of l x of None \<Rightarrow> a | Some held \<Rightarrow> min a held) l)"

definition set_moved_away :: "stamp \<Rightarrow> bool \<Rightarrow> seq_list \<Rightarrow> seq_list" where
  "set_moved_away x away l =
     (case fmlookup (nodes l) (seq_key x) of
        None \<Rightarrow> l
      | Some n \<Rightarrow> l\<lparr>nodes := fmupd (seq_key x) (n\<lparr>moved_away := away\<rparr>) (nodes l)\<rparr>)"

definition resolve_node :: "stamp \<Rightarrow> element \<Rightarrow> seq_list \<Rightarrow> seq_list" where
  "resolve_node x v l =
     (case fmlookup (nodes l) (seq_key x) of
        None \<Rightarrow> l
      | Some n \<Rightarrow> l\<lparr>nodes := fmupd (seq_key x) (n\<lparr>ln_value := v\<rparr>) (nodes l)\<rparr>)"

definition list_contains :: "seq_list \<Rightarrow> stamp \<Rightarrow> bool" where
  "list_contains l x \<longleftrightarrow> fmlookup (nodes l) (seq_key x) \<noteq> None \<or> dead_run l x \<noteq> None"

definition is_tombstoned :: "seq_list \<Rightarrow> stamp \<Rightarrow> bool" where
  "is_tombstoned l x \<longleftrightarrow> dead_run l x \<noteq> None"

definition node_value :: "seq_list \<Rightarrow> stamp \<Rightarrow> element option" where
  "node_value l x = map_option ln_value (fmlookup (nodes l) (seq_key x))"

definition list_len :: "seq_list \<Rightarrow> nat" where
  "list_len l = length (filter (\<lambda>n. \<not> moved_away n) (fm_values (nodes l)))"

definition stored_records :: "seq_list \<Rightarrow> nat" where
  "stored_records l = fm_size (nodes l) + fm_size (dead l)"

section \<open>Merging a replica\<close>

definition unseen_from :: "seq_list \<Rightarrow> stamp \<Rightarrow> u64 \<Rightarrow> u64" where
  "unseen_from l x most =
     (let distance = (\<lambda>k :: skey. if fst k = client x \<and> fst (snd k) = offset x
                        then Some (snd (snd k) - lamport x) else None);
          next_node = Option.bind (range_first (nodes l) (seq_key x)) (\<lambda>e. distance (fst e));
          next_dead = Option.bind (range_first (dead l) (seq_key x)) (\<lambda>e. distance (fst e))
      in case List.map_filter (\<lambda>d. d) [next_node, next_dead] of
           [] \<Rightarrow> most
         | d # ds \<Rightarrow> min (fold min ds d) most)"

text \<open>The loop of \<open>bury\<close>, with fuel for the rounds left; \<open>None\<close> where the fuel runs out.\<close>

fun bury_from :: "nat \<Rightarrow> u64 \<Rightarrow> stamp \<Rightarrow> u64 \<Rightarrow> anchor \<Rightarrow> seq_list \<Rightarrow> seq_list option" where
  "bury_from fuel i head len a l =
     (if \<not> i < len then Some l
      else case fuel of
        0 \<Rightarrow> None
      | Suc fuel \<Rightarrow>
          (let x = run_id head i
           in case dead_run l x of
                Some (h, run) \<Rightarrow>
                  bury_from fuel (i + (run_len run - (lamport x - lamport h))) head len a l
              | None \<Rightarrow>
                  (case fmlookup (nodes l) (seq_key x) of
                     Some n \<Rightarrow>
                       bury_from fuel (i + 1) head len a
                         (add_dead x 1 (ln_anchor n) (l\<lparr>nodes := fmdrop (seq_key x) (nodes l)\<rparr>))
                   | None \<Rightarrow>
                       (let unseen = unseen_from l x (len - i);
                            place = (if i = 0 then a else Anchor (Some (run_id head (i - 1))) RightSide)
                        in bury_from fuel (i + unseen) head len a (add_dead x unseen place l)))))"

declare bury_from.simps [simp del]

definition bury :: "stamp \<Rightarrow> u64 \<Rightarrow> anchor \<Rightarrow> seq_list \<Rightarrow> seq_list option" where
  "bury head len a l = bury_from (unat len) 0 head len a l"

definition merge_node :: "skey \<Rightarrow> list_node \<Rightarrow> seq_list \<Rightarrow> seq_list" where
  "merge_node k n l =
     (case seated l (ln_id n) of
        Vacant \<Rightarrow> l\<lparr>nodes := fmupd k n (nodes l)\<rparr>
      | SeatedDead _ \<Rightarrow> l
      | SeatedLive r \<Rightarrow>
          (let claim = claim_rank (ln_value n) (ln_anchor n)
           in if fst claim = fst r \<and> snd (snd claim) = snd (snd r) then
                (if fst (snd claim) < fst (snd r)
                 then (case fmlookup (nodes l) k of
                         None \<Rightarrow> l
                       | Some sn \<Rightarrow> l\<lparr>nodes := fmupd k (sn\<lparr>ln_anchor := ln_anchor n\<rparr>) (nodes l)\<rparr>)
                 else l)
              else if claim < r then seat (ln_id n) (ln_value n) (ln_anchor n) l
              else l))"

definition list_merge :: "seq_list \<Rightarrow> seq_list \<Rightarrow> seq_list option" where
  "list_merge l other =
     fm_fold (\<lambda>k run acc. Option.bind acc (bury (seq_stamp k) (run_len run) (run_anchor run)))
       (dead other) (Some (fm_fold merge_node (nodes other) l))"

definition list_deep_clone :: "seq_list \<Rightarrow> seq_list" where
  "list_deep_clone l = l\<lparr>list_displaced := False\<rparr>"

definition list_clear :: "seq_list \<Rightarrow> seq_list" where
  "list_clear l = l\<lparr>nodes := fmempty, dead := fmempty\<rparr>"

definition list_displace :: "seq_list \<Rightarrow> seq_list" where
  "list_displace l = l\<lparr>list_displaced := True\<rparr>"

definition list_reinstate :: "seq_list \<Rightarrow> seq_list" where
  "list_reinstate l = l\<lparr>list_displaced := False\<rparr>"

end
