(* ===== verification/Sequence_Runs.thy ===== *)
theory Sequence_Runs
  imports Sequence
begin

text \<open>
  The run store of a sequence. \<open>runs_ok\<close> is its invariant: runs are non-empty, stay at or
  below \<open>LAMPORT_STATE_CEILING\<close>, do not overlap, and are maximal, that is, no run continues the chain of the run before
  it. \<open>dead_at\<close> is what the store means, an anchor for each deleted id. Each operation on the
  store is shown to keep the invariant and to have its effect on that meaning, and a store is
  determined by its meaning.
\<close>

named_theorems run_arith \<open>stamps of one group as positions on the line\<close>

definition same_group :: "stamp \<Rightarrow> stamp \<Rightarrow> bool" where
  "same_group x y \<longleftrightarrow> client x = client y \<and> offset x = offset y"

definition place_of :: "stamp \<Rightarrow> nat" where
  "place_of x = unat (lamport x)"

definition pred_id :: "stamp \<Rightarrow> stamp" where
  "pred_id x = Stamp (lamport x - 1) (client x) (offset x)"

definition chain_anchor :: "stamp \<Rightarrow> anchor \<Rightarrow> stamp \<Rightarrow> anchor" where
  "chain_anchor head a x = (if x = head then a else Anchor (Some (pred_id x)) RightSide)"

type_synonym runs = "(skey, deadrun) fmap"

abbreviation run_at :: "runs \<Rightarrow> stamp \<Rightarrow> deadrun option" where
  "run_at d h \<equiv> fmlookup d (seq_key h)"

abbreviation run_size :: "deadrun \<Rightarrow> nat" where
  "run_size r \<equiv> unat (run_len r)"

definition runs_apart :: "runs \<Rightarrow> bool" where
  "runs_apart d \<longleftrightarrow>
     (\<forall>h r. run_at d h = Some r \<longrightarrow> 0 < run_size r \<and> place_of h + run_size r \<le> 2 ^ 63) \<and>
     (\<forall>h r h' r'. run_at d h = Some r \<and> run_at d h' = Some r' \<and> same_group h h' \<and>
        place_of h < place_of h' \<longrightarrow> place_of h + run_size r \<le> place_of h')"

definition runs_maximal :: "runs \<Rightarrow> bool" where
  "runs_maximal d \<longleftrightarrow>
     (\<forall>h r h' r'. run_at d h = Some r \<and> run_at d h' = Some r' \<and> same_group h h' \<and>
        place_of h' = place_of h + run_size r \<longrightarrow> run_anchor r' \<noteq> Anchor (Some (pred_id h')) RightSide)"

definition runs_ok :: "runs \<Rightarrow> bool" where
  "runs_ok d \<longleftrightarrow> runs_apart d \<and> runs_maximal d"

definition dead_at :: "runs \<Rightarrow> stamp \<Rightarrow> anchor \<Rightarrow> bool" where
  "dead_at d x a \<longleftrightarrow>
     (\<exists>h r. run_at d h = Some r \<and> covers h (run_len r) x \<and> a = chain_anchor h (run_anchor r) x)"

section \<open>Ids of a group\<close>

lemma same_group_refl [simp]: "same_group x x"
  by (simp add: same_group_def)

lemma same_group_sym: "same_group x y \<Longrightarrow> same_group y x"
  by (simp add: same_group_def)

lemma same_group_trans: "same_group x y \<Longrightarrow> same_group y z \<Longrightarrow> same_group x z"
  by (simp add: same_group_def)

lemma stamp_eq_iff: "x = y \<longleftrightarrow> same_group x y \<and> place_of x = place_of y"
  by (cases x; cases y) (auto simp: same_group_def place_of_def word_unat_eq_iff)

lemma place_of_less: "place_of x < 2 ^ 64"
  using unat_lt_pow [of "lamport x"] by (simp add: place_of_def)

lemma covers_iff:
  "covers h len x \<longleftrightarrow> same_group h x \<and> place_of h \<le> place_of x \<and> place_of x < place_of h + unat len"
  by (auto simp: covers_def same_group_def place_of_def word_to_nat)

lemma seq_stamp_key [simp]: "seq_stamp (seq_key x) = x"
  by (simp add: seq_key_def)

lemma seq_key_stamp [simp]: "seq_key (seq_stamp k) = k"
  by (cases k) (simp add: seq_key_def)

lemma seq_key_inject [simp]: "seq_key x = seq_key y \<longleftrightarrow> x = y"
  by (metis seq_stamp_key)

lemma run_id_group [simp]: "same_group (run_id h i) x \<longleftrightarrow> same_group h x" "same_group x (run_id h i) \<longleftrightarrow> same_group x h"
  by (auto simp: run_id_def same_group_def)

lemma place_of_run_id: "place_of h + unat i < 2 ^ 64 \<Longrightarrow> place_of (run_id h i) = place_of h + unat i"
  by (simp add: run_id_def place_of_def unat_word_ariths)

lemma pred_id_group [simp]: "same_group (pred_id h) x \<longleftrightarrow> same_group h x" "same_group x (pred_id h) \<longleftrightarrow> same_group x h"
  by (auto simp: pred_id_def same_group_def)

lemma pred_id_parts [simp]: "client (pred_id h) = client h" "offset (pred_id h) = offset h"
  by (simp_all add: pred_id_def)

lemma place_of_pred_id: "0 < place_of h \<Longrightarrow> place_of (pred_id h) = place_of h - 1"
  by (simp add: pred_id_def place_of_def unat_diff_le word_le_nat_alt)

lemma run_id_pred: "run_id h (lamport x - lamport h - 1) = pred_id x" if "same_group h x"
  using that by (simp add: run_id_def pred_id_def same_group_def)

lemma seq_key_le_iff:
  "seq_key x \<le> seq_key y \<longleftrightarrow>
     client x < client y \<or> client x = client y \<and>
       (offset x < offset y \<or> offset x = offset y \<and> lamport x \<le> lamport y)"
  by (auto simp: seq_key_def less_eq_prod_def)

lemma seq_key_between:
  assumes "seq_key h \<le> seq_key y" "seq_key y \<le> seq_key x" "same_group h x"
  shows "same_group h y \<and> place_of h \<le> place_of y \<and> place_of y \<le> place_of x"
proof -
  have c: "client y = client h"
    using assms unfolding seq_key_le_iff same_group_def by (metis less_le_not_le order.asym)
  moreover have "offset y = offset h"
    using assms c unfolding seq_key_le_iff same_group_def by (metis order.asym order.strict_iff_not)
  ultimately show ?thesis
    using assms unfolding seq_key_le_iff same_group_def place_of_def word_le_nat_alt by simp
qed

section \<open>Finding a run\<close>

lemma sorted_last_ge: "sorted xs \<Longrightarrow> x \<in> set xs \<Longrightarrow> x \<le> last xs"
  by (induction xs) (auto split: if_splits)

lemma keys_filter:
  "map fst (filter (\<lambda>e. P (fst e)) (sorted_list_of_fmap m)) = filter P (sorted_list_of_fset (fmdom m))"
  unfolding map_fst_sorted_list_of_fmap [symmetric] filter_map comp_def ..

lemma range_last_Some:
  assumes "range_last m k = Some (k', v)"
  shows "fmlookup m k' = Some v \<and> k' \<le> k \<and> (\<forall>q. q \<le> k \<and> fmlookup m q \<noteq> None \<longrightarrow> q \<le> k')"
proof -
  let ?es = "filter (\<lambda>e. fst e \<le> k) (sorted_list_of_fmap m)"
  have l: "?es \<noteq> []" "last ?es = (k', v)" using assms by (auto simp: range_last_def split: list.splits)
  then have mem: "(k', v) \<in> set ?es" by (metis last_in_set)
  have "q \<le> k'" if "q \<le> k" "fmlookup m q \<noteq> None" for q
  proof -
    have "q \<in> set (map fst ?es)" unfolding keys_filter [of "\<lambda>q. q \<le> k"] using that by (simp add: fmlookup_dom_iff)
    moreover have "sorted (map fst ?es)" unfolding keys_filter [of "\<lambda>q. q \<le> k"]
      using sorted_sorted_list_of_fmap [of m] by (simp add: sorted_wrt_filter)
    ultimately have "q \<le> last (map fst ?es)" by (rule sorted_last_ge [rotated])
    with l show ?thesis by (simp add: last_map)
  qed
  with mem show ?thesis by simp
qed

lemma range_last_None:
  assumes "range_last m k = None" "q \<le> k"
  shows "fmlookup m q = None"
proof (rule ccontr)
  assume "fmlookup m q \<noteq> None"
  then have "q \<in> set (map fst (filter (\<lambda>e. fst e \<le> k) (sorted_list_of_fmap m)))"
    unfolding keys_filter [of "\<lambda>q. q \<le> k"] using assms(2) by (simp add: fmlookup_dom_iff)
  moreover have "filter (\<lambda>e. fst e \<le> k) (sorted_list_of_fmap m) = []"
    using assms(1) by (simp add: range_last_def split: list.splits)
  ultimately show False by (simp only: list.simps empty_iff list.set)
qed

lemma runs_apartD:
  assumes "runs_apart d" "run_at d h = Some r"
  shows "0 < run_size r" "place_of h + run_size r \<le> 2 ^ 63"
    "run_at d h' = Some r' \<Longrightarrow> same_group h h' \<Longrightarrow> place_of h < place_of h' \<Longrightarrow>
       place_of h + run_size r \<le> place_of h'"
  using assms unfolding runs_apart_def by blast+

lemma runs_apartI:
  assumes "\<And>h r. run_at d h = Some r \<Longrightarrow> 0 < run_size r \<and> place_of h + run_size r \<le> 2 ^ 63"
    and "\<And>h r h' r'. run_at d h = Some r \<Longrightarrow> run_at d h' = Some r' \<Longrightarrow> same_group h h' \<Longrightarrow>
      place_of h < place_of h' \<Longrightarrow> place_of h + run_size r \<le> place_of h'"
  shows "runs_apart d"
  using assms unfolding runs_apart_def by blast

lemma runs_apart_unique:
  assumes "runs_apart d" "run_at d h = Some r" "run_at d h' = Some r'"
    "covers h (run_len r) x" "covers h' (run_len r') x"
  shows "h = h' \<and> r = r'"
proof -
  have g: "same_group h h'" "same_group h' h" using assms(4,5) by (auto simp: covers_iff same_group_def)
  have "\<not> place_of h < place_of h'" "\<not> place_of h' < place_of h"
    using runs_apartD(3) [OF assms(1,2,3) g(1)] runs_apartD(3) [OF assms(1,3,2) g(2)] assms(4,5)
    by (auto simp: covers_iff)
  then have "place_of h = place_of h'" by simp
  with g have "h = h'" by (simp add: stamp_eq_iff)
  with assms(2,3) show ?thesis by simp
qed

lemma covers_head: "runs_apart d \<Longrightarrow> run_at d h = Some r \<Longrightarrow> covers h (run_len r) h"
  by (simp add: covers_iff runs_apart_def)

lemma dead_run_iff:
  assumes "runs_apart (dead l)"
  shows "dead_run l x = Some (h, r) \<longleftrightarrow> run_at (dead l) h = Some r \<and> covers h (run_len r) x"
proof
  assume "dead_run l x = Some (h, r)"
  then obtain k where "range_last (dead l) (seq_key x) = Some (k, r)" "h = seq_stamp k"
    "covers h (run_len r) x"
    by (auto simp: dead_run_def split: option.splits if_splits)
  then show "run_at (dead l) h = Some r \<and> covers h (run_len r) x"
    using range_last_Some by fastforce
next
  assume h: "run_at (dead l) h = Some r \<and> covers h (run_len r) x"
  then have le: "seq_key h \<le> seq_key x"
    by (auto simp: covers_iff seq_key_le_iff same_group_def place_of_def word_le_nat_alt)
  show "dead_run l x = Some (h, r)"
  proof (cases "range_last (dead l) (seq_key x)")
    case None
    with h range_last_None [OF None le] show ?thesis by simp
  next
    case (Some e)
    obtain k v where e: "e = (k, v)" by (cases e)
    note k = range_last_Some [OF Some [unfolded e]]
    have "seq_key h \<le> k" using k h le by blast
    moreover have "k \<le> seq_key x" using k by blast
    ultimately have "covers h (run_len r) (seq_stamp k)"
      using h seq_key_between [of h "seq_stamp k" x] by (auto simp: covers_iff)
    moreover have "run_at (dead l) (seq_stamp k) = Some v" using k by simp
    ultimately have "seq_stamp k = h" "v = r"
      using runs_apart_unique [OF assms, of h r "seq_stamp k" v "seq_stamp k"] covers_head [OF assms] h
      by auto
    with Some e h show ?thesis by (auto simp: dead_run_def)
  qed
qed

lemma dead_run_None:
  assumes "runs_apart (dead l)"
  shows "dead_run l x = None \<longleftrightarrow> (\<forall>h r. run_at (dead l) h = Some r \<longrightarrow> \<not> covers h (run_len r) x)"
  using dead_run_iff [OF assms, of x] by (cases "dead_run l x") auto

lemma dead_anchor_of_iff:
  assumes "runs_apart (dead l)"
  shows "dead_anchor_of l x = Some a \<longleftrightarrow> dead_at (dead l) x a"
proof (cases "dead_run l x")
  case None
  then show ?thesis
    using dead_run_None [OF assms, of x] by (auto simp: dead_anchor_of_def dead_at_def)
next
  case (Some e)
  obtain h r where e: "dead_run l x = Some (h, r)" using Some by (cases e) auto
  then have h: "run_at (dead l) h = Some r" "covers h (run_len r) x"
    using dead_run_iff [OF assms] by blast+
  have "run_id h (lamport x - lamport h - 1) = pred_id x"
    using h by (simp add: covers_iff run_id_pred)
  then have "dead_anchor_of l x = Some (chain_anchor h (run_anchor r) x)"
    using e by (auto simp: dead_anchor_of_def chain_anchor_def)
  moreover have "dead_at (dead l) x b \<longleftrightarrow> b = chain_anchor h (run_anchor r) x" for b
    unfolding dead_at_def using h runs_apart_unique [OF assms] by metis
  ultimately show ?thesis by auto
qed

lemma dead_at_unique: "runs_apart d \<Longrightarrow> dead_at d x a \<Longrightarrow> dead_at d x b \<Longrightarrow> a = b"
  unfolding dead_at_def by (metis runs_apart_unique)

section \<open>Adding, dropping and welding runs\<close>

lemma run_at_upd: "run_at (fmupd (seq_key h) r d) x = (if x = h then Some r else run_at d x)"
  by auto

lemma run_at_drop: "run_at (fmdrop (seq_key h) d) x = (if x = h then None else run_at d x)"
  by auto

lemma runs_apart_drop: "runs_apart d \<Longrightarrow> runs_apart (fmdrop (seq_key h) d)"
  unfolding runs_apart_def run_at_drop by (metis option.distinct(1))

lemma dead_at_drop:
  assumes "runs_apart d" "run_at d h = Some r"
  shows "dead_at (fmdrop (seq_key h) d) x a \<longleftrightarrow> dead_at d x a \<and> \<not> covers h (run_len r) x"
proof
  assume "dead_at (fmdrop (seq_key h) d) x a"
  then obtain h' r' where h': "run_at d h' = Some r'" "h' \<noteq> h" "covers h' (run_len r') x"
    "a = chain_anchor h' (run_anchor r') x"
    unfolding dead_at_def run_at_drop by (metis option.distinct(1))
  then show "dead_at d x a \<and> \<not> covers h (run_len r) x"
    using runs_apart_unique [OF assms(1) h'(1) assms(2) h'(3)] unfolding dead_at_def by metis
next
  assume "dead_at d x a \<and> \<not> covers h (run_len r) x"
  then obtain h' r' where "run_at d h' = Some r'" "covers h' (run_len r') x"
    "a = chain_anchor h' (run_anchor r') x" "h' \<noteq> h"
    using assms(2) unfolding dead_at_def by (metis option.inject)
  then show "dead_at (fmdrop (seq_key h) d) x a"
    unfolding dead_at_def run_at_drop by metis
qed

text \<open>A stretch of ids that the store can take in as one run.\<close>

definition free_stretch :: "runs \<Rightarrow> stamp \<Rightarrow> u64 \<Rightarrow> bool" where
  "free_stretch d h n \<longleftrightarrow> 0 < unat n \<and> place_of h + unat n \<le> 2 ^ 63 \<and>
     (\<forall>x a. covers h n x \<longrightarrow> \<not> dead_at d x a)"

lemma free_stretchD:
  assumes "free_stretch d h n" "runs_apart d" "run_at d h' = Some r'" "same_group h h'"
  shows "place_of h + unat n \<le> place_of h' \<or> place_of h' + run_size r' \<le> place_of h"
proof (rule ccontr)
  assume "\<not> ?thesis"
  then have le: "place_of h' < place_of h + unat n" "place_of h < place_of h' + run_size r'" by auto
  define x where "x = (if place_of h \<le> place_of h' then h' else h)"
  have "covers h n x \<and> covers h' (run_len r') x"
    using le assms(1,4) runs_apartD(1) [OF assms(2,3)] same_group_sym
    by (auto simp: x_def covers_iff free_stretch_def)
  with assms(1,3) show False unfolding free_stretch_def dead_at_def by blast
qed

lemma runs_apart_upd:
  assumes d: "runs_apart d" and free: "free_stretch d h n"
  shows "runs_apart (fmupd (seq_key h) \<lparr>run_len = n, run_anchor = a\<rparr> d)"
proof (rule runs_apartI; unfold run_at_upd)
  fix h' r'
  assume r': "(if h' = h then Some \<lparr>run_len = n, run_anchor = a\<rparr> else run_at d h') = Some r'"
  then show "0 < run_size r' \<and> place_of h' + run_size r' \<le> 2 ^ 63"
    using free runs_apartD [OF d] by (auto simp: free_stretch_def split: if_splits)
  fix h'' r''
  assume r'': "(if h'' = h then Some \<lparr>run_len = n, run_anchor = a\<rparr> else run_at d h'') = Some r''"
    and g: "same_group h' h''" and lt: "place_of h' < place_of h''"
  consider "h' = h" "h'' \<noteq> h" | "h' \<noteq> h" "h'' = h" | "h' \<noteq> h" "h'' \<noteq> h" using lt by auto
  then show "place_of h' + run_size r' \<le> place_of h''"
  proof cases
    case 1
    then show ?thesis using free_stretchD [OF free d, of h'' r''] r' r'' g lt by auto
  next
    case 2
    then show ?thesis using free_stretchD [OF free d, of h' r'] r' r'' same_group_sym [OF g] lt by auto
  next
    case 3
    then show ?thesis using runs_apartD(3) [OF d, of h' r' h'' r''] r' r'' g lt by simp
  qed
qed

lemma dead_at_upd:
  assumes "runs_apart d" "free_stretch d h n"
  shows "dead_at (fmupd (seq_key h) \<lparr>run_len = n, run_anchor = a\<rparr> d) x b \<longleftrightarrow>
    (if covers h n x then b = chain_anchor h a x else dead_at d x b)"
proof -
  have "covers h n h" using assms(2) by (simp add: free_stretch_def covers_iff)
  then have "run_at d h = None"
    using covers_head [OF assms(1), of h] assms(2) unfolding free_stretch_def dead_at_def
    by (metis not_None_eq)
  then have "dead_at (fmupd (seq_key h) \<lparr>run_len = n, run_anchor = a\<rparr> d) x b \<longleftrightarrow>
      covers h n x \<and> b = chain_anchor h a x \<or> dead_at d x b"
    unfolding dead_at_def run_at_upd by (metis (no_types, lifting) deadrun.select_convs option.distinct(1) option.inject)
  then show ?thesis using assms(2) by (auto simp: free_stretch_def)
qed

text \<open>The meaning of a store with one more stretch of ids.\<close>

definition with_stretch :: "runs \<Rightarrow> stamp \<Rightarrow> u64 \<Rightarrow> anchor \<Rightarrow> stamp \<Rightarrow> anchor \<Rightarrow> bool" where
  "with_stretch d h n a x b \<longleftrightarrow> (if covers h n x then b = chain_anchor h a x else dead_at d x b)"

definition maximal_before :: "runs \<Rightarrow> stamp \<Rightarrow> anchor \<Rightarrow> bool" where
  "maximal_before d h a \<longleftrightarrow> (\<forall>h' r'. run_at d h' = Some r' \<and> same_group h' h \<and>
     place_of h = place_of h' + run_size r' \<longrightarrow> a \<noteq> Anchor (Some (pred_id h)) RightSide)"

definition maximal_after :: "runs \<Rightarrow> stamp \<Rightarrow> u64 \<Rightarrow> bool" where
  "maximal_after d h n \<longleftrightarrow> (\<forall>h' r'. run_at d h' = Some r' \<and> same_group h h' \<and>
     place_of h' = place_of h + unat n \<longrightarrow> run_anchor r' \<noteq> Anchor (Some (pred_id h')) RightSide)"

lemma runs_maximal_drop: "runs_maximal d \<Longrightarrow> runs_maximal (fmdrop k d)"
  unfolding runs_maximal_def by (simp add: fmlookup_drop) blast

lemma maximal_before_drop: "maximal_before d h a \<Longrightarrow> maximal_before (fmdrop k d) h a"
  unfolding maximal_before_def by (simp add: fmlookup_drop) blast

lemma runs_maximal_upd:
  assumes "runs_maximal d" "maximal_before d h a" "maximal_after d h n" "0 < unat n"
  shows "runs_maximal (fmupd (seq_key h) \<lparr>run_len = n, run_anchor = a\<rparr> d)"
  unfolding runs_maximal_def
proof (intro allI impI, elim conjE)
  fix h1 r1 h2 r2
  assume 1: "run_at (fmupd (seq_key h) \<lparr>run_len = n, run_anchor = a\<rparr> d) h1 = Some r1"
    and 2: "run_at (fmupd (seq_key h) \<lparr>run_len = n, run_anchor = a\<rparr> d) h2 = Some r2"
    and g: "same_group h1 h2" "place_of h2 = place_of h1 + run_size r1"
  consider "h1 = h" "h2 = h" | "h1 = h" "h2 \<noteq> h" | "h1 \<noteq> h" "h2 = h" | "h1 \<noteq> h" "h2 \<noteq> h" by blast
  then show "run_anchor r2 \<noteq> Anchor (Some (pred_id h2)) RightSide"
  proof cases
    case 1
    with \<open>run_at _ h1 = _\<close> g assms(4) show ?thesis by (auto simp: run_at_upd)
  next
    case 2
    with 1 \<open>run_at _ h2 = _\<close> g assms(3) show ?thesis by (auto simp: run_at_upd maximal_after_def)
  next
    case 3
    with 1 2 g assms(2) show ?thesis by (auto simp: run_at_upd maximal_before_def)
  next
    case 4
    with 1 2 g assms(1) show ?thesis unfolding run_at_upd runs_maximal_def by auto
  qed
qed

lemma run_end:
  assumes "runs_apart d" "run_at d h = Some r"
  shows "run_id h (run_len r - 1) = x \<longleftrightarrow> same_group h x \<and> place_of h + run_size r = place_of x + 1"
proof -
  have "0 < run_size r" "place_of h + run_size r \<le> 2 ^ 63" using runs_apartD [OF assms] by auto
  moreover from this have "unat (run_len r - 1) = run_size r - 1"
    by (simp add: unat_diff_le word_le_nat_alt)
  ultimately have "place_of (run_id h (run_len r - 1)) = place_of h + (run_size r - 1)"
    by (subst place_of_run_id) auto
  then show ?thesis using \<open>0 < run_size r\<close> by (auto simp: stamp_eq_iff)
qed

lemma covers_append:
  assumes "same_group h h'" "place_of h' = place_of h + unat m" "unat n = unat m + unat k"
  shows "covers h n x \<longleftrightarrow> covers h m x \<or> covers h' k x"
  using assms by (auto simp: covers_iff same_group_def)

lemma chain_weld:
  assumes "same_group h h'" "place_of h' = place_of h + unat m" "0 < unat m"
    and "a' = Anchor (Some (pred_id h')) RightSide" "covers h' k x"
  shows "chain_anchor h a x = chain_anchor h' a' x"
  using assms by (auto simp: chain_anchor_def covers_iff)

lemma unat_len_add: "unat m + unat n \<le> 2 ^ 63 \<Longrightarrow> unat (m + n :: u64) = unat m + unat n"
  by (simp add: unat_word_ariths)

lemma free_stretch_extend:
  assumes "runs_apart d" "free_stretch d head len" "run_at d p = Some r" "same_group p head"
    "place_of head = place_of p + run_size r"
  shows "free_stretch (fmdrop (seq_key p) d) p (len + run_len r)"
    and "covers p (len + run_len r) x \<longleftrightarrow> covers p (run_len r) x \<or> covers head len x"
proof -
  have bound: "place_of head + unat len \<le> 2 ^ 63" using assms(2) by (simp add: free_stretch_def)
  then have sum: "unat (len + run_len r) = run_size r + unat len"
    using assms(5) by (subst unat_len_add) auto
  show cov: "covers p (len + run_len r) x \<longleftrightarrow> covers p (run_len r) x \<or> covers head len x" for x
    by (rule covers_append [OF assms(4,5) sum])
  show "free_stretch (fmdrop (seq_key p) d) p (len + run_len r)"
    using assms(2,5) sum bound runs_apartD(1) [OF assms(1,3)]
    unfolding free_stretch_def cov dead_at_drop [OF assms(1,3)] by auto
qed

lemma run_before:
  assumes "runs_apart d" "free_stretch d head len" "0 < place_of head"
    and "run_at d p = Some r" "covers p (run_len r) (pred_id head)"
  shows "same_group p head" "place_of head = place_of p + run_size r"
proof -
  show g: "same_group p head" using assms(5) by (simp add: covers_iff)
  have "covers head len head" using assms(2) by (simp add: free_stretch_def covers_iff)
  then have "\<not> covers p (run_len r) head"
    using assms(2,4) unfolding free_stretch_def dead_at_def by blast
  with assms(3,5) g show "place_of head = place_of p + run_size r"
    by (auto simp: covers_iff place_of_pred_id)
qed

definition welded :: "runs \<Rightarrow> runs \<Rightarrow> stamp \<Rightarrow> u64 \<Rightarrow> anchor \<Rightarrow> stamp \<Rightarrow> u64 \<Rightarrow> anchor \<Rightarrow> bool" where
  "welded d d' head len a h n b \<longleftrightarrow>
     runs_apart d' \<and> runs_maximal d' \<and> free_stretch d' h n \<and>
     (\<forall>x c. with_stretch d' h n b x c \<longleftrightarrow> with_stretch d head len a x c)"

lemma weld_before_merges:
  assumes ok: "runs_ok d" and free: "free_stretch d head len" and pos: "0 < place_of head"
    and p: "run_at d p = Some r" "covers p (run_len r) (pred_id head)"
    and a: "a = Anchor (Some (pred_id head)) RightSide"
  shows "welded d (fmdrop (seq_key p) d) head len a p (len + run_len r) (run_anchor r)"
    and "maximal_before (fmdrop (seq_key p) d) p (run_anchor r)"
proof -
  have ap: "runs_apart d" and mx: "runs_maximal d" using ok by (simp_all add: runs_ok_def)
  note e = run_before [OF ap free pos p]
  note ext = free_stretch_extend [OF ap free p(1) e]
  have sz: "0 < run_size r" using runs_apartD(1) [OF ap p(1)] .
  have "with_stretch (fmdrop (seq_key p) d) p (len + run_len r) (run_anchor r) x c \<longleftrightarrow>
      with_stretch d head len a x c" for x c
  proof (cases "covers head len x")
    case True
    then show ?thesis
      unfolding with_stretch_def ext(2) using chain_weld [OF e sz a True, of "run_anchor r"] by simp
  next
    case False
    then show ?thesis
      unfolding with_stretch_def ext(2) dead_at_drop [OF ap p(1)]
      using p(1) dead_at_unique [OF ap, of x] by (auto simp: dead_at_def)
  qed
  then show "welded d (fmdrop (seq_key p) d) head len a p (len + run_len r) (run_anchor r)"
    using runs_apart_drop [OF ap] runs_maximal_drop [OF mx] ext(1) by (simp add: welded_def)
  have "maximal_before d p (run_anchor r)"
    using mx p(1) unfolding runs_maximal_def maximal_before_def by blast
  then show "maximal_before (fmdrop (seq_key p) d) p (run_anchor r)" by (rule maximal_before_drop)
qed

lemma pred_id_alt: "Stamp (lamport h - 1) (client h) (offset h) = pred_id h"
  by (simp add: pred_id_def)

lemma weld_before_spec:
  assumes ok: "runs_ok (dead l)" and free: "free_stretch (dead l) head len"
    and w: "weld_before head len a l = (h, n, b, l')"
  shows "l' = l\<lparr>dead := dead l'\<rparr> \<and> welded (dead l) (dead l') head len a h n b \<and> maximal_before (dead l') h b"
proof -
  have ap: "runs_apart (dead l)" and mx: "runs_maximal (dead l)" using ok by (simp_all add: runs_ok_def)
  have stay: "welded (dead l) (dead l) head len a head len a"
    using ap mx free by (simp add: welded_def)
  show ?thesis
  proof (cases "0 < place_of head \<and> a = Anchor (Some (pred_id head)) RightSide \<and> dead_run l (pred_id head) \<noteq> None")
    case True
    then obtain p r where p: "dead_run l (pred_id head) = Some (p, r)" by auto
    then have pr: "run_at (dead l) p = Some r" "covers p (run_len r) (pred_id head)"
      using dead_run_iff [OF ap] by blast+
    have pos: "0 < place_of head" and a: "a = Anchor (Some (pred_id head)) RightSide" using True by auto
    have "checked_sub (lamport head) 1 = Some (lamport head - 1)"
      using pos by (simp add: checked_sub_def place_of_def word_le_nat_alt)
    moreover have "run_id p (run_len r - 1) = pred_id head"
      using run_end [OF ap pr(1)] run_before [OF ap free pos pr] pos by (simp add: place_of_pred_id)
    ultimately have "weld_before head len a l =
        (p, len + run_len r, run_anchor r, l\<lparr>dead := fmdrop (seq_key p) (dead l)\<rparr>)"
      using p a by (simp add: weld_before_def pred_id_alt Let_def)
    with w weld_before_merges [OF ok free pos pr a] show ?thesis by auto
  next
    case False
    have "weld_before head len a l = (head, len, a, l)"
      using False dead_run_None [OF ap, of "pred_id head"]
      by (auto simp: weld_before_def checked_sub_def pred_id_alt Let_def place_of_def word_le_nat_alt
          split: option.splits)
    moreover have "maximal_before (dead l) head a"
    proof (unfold maximal_before_def, intro allI impI, elim conjE)
      fix h' r'
      assume h': "run_at (dead l) h' = Some r'" "same_group h' head" "place_of head = place_of h' + run_size r'"
      then have "covers h' (run_len r') (pred_id head)" "0 < place_of head"
        using runs_apartD(1) [OF ap h'(1)] by (auto simp: covers_iff place_of_pred_id)
      then have "dead_run l (pred_id head) \<noteq> None" using h'(1) dead_run_None [OF ap] by blast
      with False \<open>0 < place_of head\<close> show "a \<noteq> Anchor (Some (pred_id head)) RightSide" by blast
    qed
    ultimately show ?thesis using w stay by simp
  qed
qed

lemma stretch_last:
  assumes "free_stretch d h n"
  shows "place_of (run_id h (n - 1)) = place_of h + unat n - 1"
proof -
  have "0 < unat n" "place_of h + unat n \<le> 2 ^ 63" using assms by (simp_all add: free_stretch_def)
  moreover from this have "unat (n - 1) = unat n - 1" by (simp add: unat_diff_le word_le_nat_alt)
  ultimately show ?thesis by (subst place_of_run_id) auto
qed

lemma stretch_next:
  assumes "free_stretch d h n"
  shows "\<exists>m. checked_add (lamport (run_id h (n - 1))) 1 = Some m \<and>
    same_group h (Stamp m (client (run_id h (n - 1))) (offset (run_id h (n - 1)))) \<and>
    place_of (Stamp m (client (run_id h (n - 1))) (offset (run_id h (n - 1)))) = place_of h + unat n \<and>
    pred_id (Stamp m (client (run_id h (n - 1))) (offset (run_id h (n - 1)))) = run_id h (n - 1)"
proof -
  let ?z = "run_id h (n - 1)"
  have z: "place_of ?z = place_of h + unat n - 1" by (rule stretch_last [OF assms])
  have b: "0 < unat n" "place_of h + unat n \<le> 2 ^ 63" using assms by (simp_all add: free_stretch_def)
  have "checked_add (lamport ?z) 1 = Some (lamport ?z + 1)"
    using z b by (simp add: checked_add_def place_of_def)
  moreover have "unat (lamport ?z + 1) = unat (lamport ?z) + 1"
    using z b by (simp add: place_of_def unat_word_ariths)
  ultimately show ?thesis
    using z b by (auto simp: same_group_def place_of_def pred_id_def run_id_def)
qed

lemma weld_after_spec:
  assumes ap: "runs_apart (dead l)" and mx: "runs_maximal (dead l)" and free: "free_stretch (dead l) h n"
    and w: "weld_after h n l = (n', l')"
  shows "l' = l\<lparr>dead := dead l'\<rparr> \<and> welded (dead l) (dead l') h n a h n' a \<and> maximal_after (dead l') h n' \<and>
    (\<forall>b. maximal_before (dead l) h b \<longrightarrow> maximal_before (dead l') h b)"
proof -
  let ?z = "run_id h (n - 1)"
  obtain m where m: "checked_add (lamport ?z) 1 = Some m" "same_group h (Stamp m (client ?z) (offset ?z))"
    "place_of (Stamp m (client ?z) (offset ?z)) = place_of h + unat n"
    "pred_id (Stamp m (client ?z) (offset ?z)) = ?z"
    using stretch_next [OF free] by blast
  define y where "y = Stamp m (client ?z) (offset ?z)"
  note y = m(2,3,4) [folded y_def]
  have uniq: "h' = y" if "same_group h h'" "place_of h' = place_of h + unat n" for h'
    using that y by (auto simp: stamp_eq_iff same_group_def)
  show ?thesis
  proof (cases "\<exists>r. run_at (dead l) y = Some r \<and> run_anchor r = Anchor (Some ?z) RightSide")
    case True
    then obtain r where r: "run_at (dead l) y = Some r" "run_anchor r = Anchor (Some (pred_id y)) RightSide"
      using y by auto
    have b: "place_of y + run_size r \<le> 2 ^ 63" "0 < run_size r" using runs_apartD [OF ap r(1)] by auto
    have sum: "unat (n + run_len r) = unat n + run_size r" using b y by (intro unat_len_add) simp
    have n0: "0 < unat n" using free by (simp add: free_stretch_def)
    have cov: "covers h (n + run_len r) x \<longleftrightarrow> covers h n x \<or> covers y (run_len r) x" for x
      by (rule covers_append [OF y(1,2) sum])
    let ?d = "fmdrop (seq_key y) (dead l)"
    have "weld_after h n l = (n + run_len r, l\<lparr>dead := ?d\<rparr>)"
      using m(1) r y by (simp add: weld_after_def Let_def y_def [symmetric])
    then have l': "n' = n + run_len r" "l' = l\<lparr>dead := ?d\<rparr>" using w by auto
    have "free_stretch ?d h (n + run_len r)"
      using free sum b y unfolding free_stretch_def cov dead_at_drop [OF ap r(1)] by auto
    moreover have "with_stretch ?d h (n + run_len r) a x c \<longleftrightarrow> with_stretch (dead l) h n a x c" for x c
    proof (cases "covers y (run_len r) x")
      case True
      have "\<not> covers h n x" using True y by (auto simp: covers_iff)
      moreover have "dead_at (dead l) x c \<longleftrightarrow> c = chain_anchor y (run_anchor r) x"
        using r(1) True dead_at_unique [OF ap, of x] by (auto simp: dead_at_def)
      ultimately show ?thesis
        using True chain_weld [OF y(1,2) n0 r(2) True, of a] by (simp add: with_stretch_def cov)
    next
      case False
      then show ?thesis by (simp add: with_stretch_def cov dead_at_drop [OF ap r(1)])
    qed
    ultimately have "welded (dead l) ?d h n a h (n + run_len r) a"
      using runs_apart_drop [OF ap] runs_maximal_drop [OF mx] by (simp add: welded_def)
    moreover have "maximal_after ?d h (n + run_len r)"
    proof (unfold maximal_after_def, intro allI impI, elim conjE)
      fix h' r'
      assume h': "run_at ?d h' = Some r'" "same_group h h'" "place_of h' = place_of h + unat (n + run_len r)"
      then have "run_at (dead l) h' = Some r'" "same_group y h'" "place_of h' = place_of y + run_size r"
        using y sum by (auto simp: same_group_def split: if_splits)
      then show "run_anchor r' \<noteq> Anchor (Some (pred_id h')) RightSide"
        using mx r(1) unfolding runs_maximal_def by blast
    qed
    ultimately show ?thesis using l' maximal_before_drop by simp
  next
    case False
    have "weld_after h n l = (n, l)"
      using m(1) False by (auto simp: weld_after_def Let_def y_def [symmetric] split: option.split)
    then have l': "n' = n" "l' = l" using w by auto
    have "maximal_after (dead l) h n"
      using False uniq y unfolding maximal_after_def by metis
    moreover have "welded (dead l) (dead l) h n a h n a" using ap mx free by (simp add: welded_def)
    ultimately show ?thesis using l' by simp
  qed
qed

lemma redo_dead:
  "l1 = l\<lparr>dead := d1\<rparr> \<Longrightarrow> l2 = l1\<lparr>dead := d2\<rparr> \<Longrightarrow> l2\<lparr>dead := d\<rparr> = l\<lparr>dead := d\<rparr>"
  by simp

lemma add_dead_spec:
  assumes ok: "runs_ok (dead l)" and free: "free_stretch (dead l) head len"
  shows "runs_ok (dead (add_dead head len a l))"
    and "dead_at (dead (add_dead head len a l)) x c \<longleftrightarrow> with_stretch (dead l) head len a x c"
    and "add_dead head len a l = l\<lparr>dead := dead (add_dead head len a l)\<rparr>"
proof -
  obtain h n b l1 where 1: "weld_before head len a l = (h, n, b, l1)" by (metis prod.exhaust)
  note w1 = weld_before_spec [OF ok free 1]
  obtain n' l2 where 2: "weld_after h n l1 = (n', l2)" by (metis prod.exhaust)
  have ok1: "runs_apart (dead l1)" "runs_maximal (dead l1)" "free_stretch (dead l1) h n"
    using w1 by (simp_all add: welded_def)
  note w2 = weld_after_spec [OF ok1 2, of b]
  have ok2: "runs_apart (dead l2)" "runs_maximal (dead l2)" "free_stretch (dead l2) h n'"
    "maximal_before (dead l2) h b" "maximal_after (dead l2) h n'"
    using w1 w2 by (simp_all add: welded_def)
  let ?d = "fmupd (seq_key h) \<lparr>run_len = n', run_anchor = b\<rparr> (dead l2)"
  have eq: "add_dead head len a l = l2\<lparr>dead := ?d\<rparr>" using 1 2 by (simp add: add_dead_def)
  show "runs_ok (dead (add_dead head len a l))"
    using runs_apart_upd [OF ok2(1,3)] runs_maximal_upd [OF ok2(2,4,5)] ok2(3)
    by (simp add: eq runs_ok_def free_stretch_def)
  show "dead_at (dead (add_dead head len a l)) x c \<longleftrightarrow> with_stretch (dead l) head len a x c"
    using dead_at_upd [OF ok2(1,3), of b x c] w1 w2 by (simp add: eq welded_def with_stretch_def)
  have "l2\<lparr>dead := ?d\<rparr> = l\<lparr>dead := ?d\<rparr>"
    by (rule redo_dead [OF conjunct1 [OF w1] conjunct1 [OF w2]])
  then show "add_dead head len a l = l\<lparr>dead := dead (add_dead head len a l)\<rparr>" by (simp add: eq)
qed

section \<open>Taking an id out of a run\<close>

lemma put_dead_fields [simp]: "nodes (put_dead h n a l) = nodes l" "list_id (put_dead h n a l) = list_id l"
  "list_displaced (put_dead h n a l) = list_displaced l"
  by (simp_all add: put_dead_def)

lemma dead_at_covered:
  "runs_apart d \<Longrightarrow> run_at d h = Some r \<Longrightarrow> covers h (run_len r) y \<Longrightarrow>
     dead_at d y b \<longleftrightarrow> b = chain_anchor h (run_anchor r) y"
  using dead_at_unique [of d y b] unfolding dead_at_def by blast

lemma maximal_before_head:
  "runs_maximal d \<Longrightarrow> run_at d h = Some r \<Longrightarrow> maximal_before d h (run_anchor r)"
  unfolding runs_maximal_def maximal_before_def by blast

text \<open>The run store after \<open>take_dead\<close>: the run around the id in two pieces.\<close>

definition split_run :: "runs \<Rightarrow> stamp \<Rightarrow> deadrun \<Rightarrow> stamp \<Rightarrow> runs" where
  "split_run d h r x =
     (let d1 = fmdrop (seq_key h) d;
          prior = lamport x - lamport h;
          d2 = (if prior = 0 then d1 else fmupd (seq_key h) \<lparr>run_len = prior, run_anchor = run_anchor r\<rparr> d1);
          after = run_len r - prior - 1
      in if after = 0 then d2
         else fmupd (seq_key (run_id h (prior + 1)))
                \<lparr>run_len = after, run_anchor = Anchor (Some x) RightSide\<rparr> d2)"

lemma take_dead_split:
  "dead_run l x = Some (h, r) \<Longrightarrow> take_dead x l = (True, l\<lparr>dead := split_run (dead l) h r x\<rparr>)"
  by (auto simp: take_dead_def split_run_def put_dead_def Let_def word_gt_0)

lemma split_run_spec:
  assumes ok: "runs_ok d" and h: "run_at d h = Some r" and cov: "covers h (run_len r) x"
  shows "runs_ok (split_run d h r x)"
    and "dead_at (split_run d h r x) y b \<longleftrightarrow> y \<noteq> x \<and> dead_at d y b"
proof -
  have ap: "runs_apart d" and mx: "runs_maximal d" using ok by (simp_all add: runs_ok_def)
  define d1 where "d1 = fmdrop (seq_key h) d"
  define prior where "prior = lamport x - lamport h"
  define d2 where "d2 = (if prior = 0 then d1 else fmupd (seq_key h) \<lparr>run_len = prior, run_anchor = run_anchor r\<rparr> d1)"
  define after where "after = run_len r - prior - 1"
  define t where "t = run_id h (prior + 1)"
  have g: "same_group h x" "place_of h \<le> place_of x" "place_of x < place_of h + run_size r"
    using cov by (simp_all add: covers_iff)
  have sz: "0 < run_size r" "place_of h + run_size r \<le> 2 ^ 63" using runs_apartD [OF ap h] by auto
  have ub: "unat prior = place_of x - place_of h"
    using g by (simp add: prior_def unat_diff_le word_le_nat_alt place_of_def)
  have ua: "unat after = place_of h + run_size r - place_of x - 1"
  proof -
    have "prior + 1 \<le> run_len r" "unat (prior + 1) = unat prior + 1"
      using ub g sz by (simp_all add: word_le_nat_alt unat_word_ariths)
    then have "unat (run_len r - (prior + 1)) = run_size r - (unat prior + 1)"
      by (simp add: unat_diff_le)
    then show ?thesis using ub g by (simp add: after_def algebra_simps)
  qed
  have t: "same_group h t" "after \<noteq> 0 \<Longrightarrow> place_of t = place_of x + 1"
  proof -
    show "same_group h t" by (simp add: t_def)
    assume "after \<noteq> 0"
    then have "0 < unat after" by (simp add: unat_gt_0)
    then have "unat (prior + 1) = unat prior + 1" "place_of h + (unat prior + 1) < 2 ^ 64"
      using ub ua g sz by (simp_all add: unat_word_ariths)
    then show "place_of t = place_of x + 1" using ub g unfolding t_def by (subst place_of_run_id) auto
  qed
  have split: "split_run d h r x = (if after = 0 then d2 else fmupd (seq_key t)
      \<lparr>run_len = after, run_anchor = Anchor (Some x) RightSide\<rparr> d2)"
    by (simp add: split_run_def Let_def d1_def prior_def d2_def after_def t_def)
  have cover: "covers h (run_len r) y \<longleftrightarrow> covers h prior y \<or> y = x \<or> (after \<noteq> 0 \<and> covers t after y)" for y
  proof (cases "after = 0")
    case True
    then have "place_of h + run_size r = place_of x + 1" using ua g by simp
    with True g ub show ?thesis by (auto simp: covers_iff stamp_eq_iff same_group_def)
  next
    case False
    with t have "place_of t = place_of x + 1" "same_group h t" by auto
    with False g ub ua show ?thesis by (auto simp: covers_iff stamp_eq_iff same_group_def)
  qed
  have d1: "runs_apart d1" "runs_maximal d1" "maximal_before d1 h (run_anchor r)"
    using runs_apart_drop [OF ap] runs_maximal_drop [OF mx] maximal_before_head [OF mx h]
    by (simp_all add: d1_def maximal_before_drop)
  have at1: "dead_at d1 y b \<longleftrightarrow> dead_at d y b \<and> \<not> covers h (run_len r) y" for y b
    unfolding d1_def by (rule dead_at_drop [OF ap h])
  have no_x: "run_at d1 x = None"
    using at1 [of x] covers_head [OF d1(1), of x] cov unfolding dead_at_def by (metis not_None_eq)
  have d2: "runs_ok d2 \<and> (\<forall>y b. dead_at d2 y b \<longleftrightarrow>
      (if covers h prior y then b = chain_anchor h (run_anchor r) y else dead_at d1 y b))"
  proof (cases "prior = 0")
    case True
    then show ?thesis using d1 by (auto simp: d2_def runs_ok_def covers_iff)
  next
    case False
    then have pos: "0 < unat prior" by (simp add: unat_gt_0)
    then have free: "free_stretch d1 h prior"
      using g ub sz at1 cover by (auto simp: free_stretch_def)
    have "maximal_after d1 h prior"
      using no_x g ub by (auto simp: maximal_after_def stamp_eq_iff) (metis option.distinct(1) same_group_sym
          same_group_trans stamp_eq_iff le_add_diff_inverse)
    then show ?thesis
      using False pos runs_apart_upd [OF d1(1) free] runs_maximal_upd [OF d1(2,3)] dead_at_upd [OF d1(1) free]
      by (simp add: d2_def runs_ok_def)
  qed
  have at2: "dead_at d2 y b \<longleftrightarrow> y \<noteq> x \<and> \<not> (after \<noteq> 0 \<and> covers t after y) \<and> dead_at d y b" for y b
  proof -
    have "covers h prior y \<Longrightarrow> y \<noteq> x \<and> \<not> (after \<noteq> 0 \<and> covers t after y)"
      using g ub t by (auto simp: covers_iff)
    then show ?thesis
      using d2 at1 cover [of y] dead_at_covered [OF ap h, of y b] by auto
  qed
  have fin: "runs_ok (split_run d h r x) \<and> (dead_at (split_run d h r x) y b \<longleftrightarrow> y \<noteq> x \<and> dead_at d y b)"
  proof (cases "after = 0")
    case True
    then show ?thesis using d2 at2 by (simp add: split)
  next
    case False
    then have pos: "0 < unat after" by (simp add: unat_gt_0)
    have ok2: "runs_apart d2" "runs_maximal d2" using d2 by (simp_all add: runs_ok_def)
    have tx: "pred_id t = x" "x \<noteq> t"
      using t False g by (auto simp: stamp_eq_iff place_of_pred_id same_group_def)
    have free: "free_stretch d2 t after"
      using pos False t ua sz g at2 by (auto simp: free_stretch_def)
    have mb: "maximal_before d2 t (Anchor (Some x) RightSide)"
      unfolding maximal_before_def
    proof (intro allI impI, elim conjE)
      fix h' r'
      assume h': "run_at d2 h' = Some r'" "same_group h' t" "place_of t = place_of h' + run_size r'"
      then have "covers h' (run_len r') x"
        using t False g runs_apartD(1) [OF ok2(1) h'(1)] by (auto simp: covers_iff same_group_def)
      with h'(1) have "\<exists>b. dead_at d2 x b" unfolding dead_at_def by blast
      then show "Anchor (Some x) RightSide \<noteq> Anchor (Some (pred_id t)) RightSide" using at2 by blast
    qed
    have ma: "maximal_after d2 t after"
      unfolding maximal_after_def
    proof (intro allI impI, elim conjE)
      fix h' r'
      assume h': "run_at d2 h' = Some r'" "same_group t h'" "place_of h' = place_of t + unat after"
      then have p: "place_of h' = place_of h + run_size r" "same_group h h'"
        using t False ua g by (auto simp: same_group_def)
      then have "h' \<noteq> h" using sz by auto
      with h'(1) have "run_at d h' = Some r'" by (auto simp: d2_def d1_def split: if_splits)
      with p h mx show "run_anchor r' \<noteq> Anchor (Some (pred_id h')) RightSide"
        unfolding runs_maximal_def by blast
    qed
    have "chain_anchor t (Anchor (Some x) RightSide) y = chain_anchor h (run_anchor r) y" if "covers t after y"
      using that t False g tx by (auto simp: chain_anchor_def covers_iff)
    then have "dead_at (split_run d h r x) y b \<longleftrightarrow> y \<noteq> x \<and> dead_at d y b"
      using False dead_at_upd [OF ok2(1) free, of "Anchor (Some x) RightSide" y b] at2 [of y b] cover [of y]
        dead_at_covered [OF ap h, of y b] t by (auto simp: split covers_iff)
    then show ?thesis
      using False runs_apart_upd [OF ok2(1) free] runs_maximal_upd [OF ok2(2) mb ma pos]
      by (simp add: split runs_ok_def)
  qed
  show "runs_ok (split_run d h r x)" using fin by blast
  show "dead_at (split_run d h r x) y b \<longleftrightarrow> y \<noteq> x \<and> dead_at d y b" using fin by blast
qed

section \<open>A store is determined by what it means\<close>

text \<open>In a store of maximal runs, the heads are the dead ids that do not chain to a dead
  predecessor, and a run goes on as long as the chain does.\<close>

definition chained :: "runs \<Rightarrow> stamp \<Rightarrow> bool" where
  "chained d x \<longleftrightarrow> 0 < place_of x \<and> (\<exists>a. dead_at d (pred_id x) a) \<and>
     dead_at d x (Anchor (Some (pred_id x)) RightSide)"

lemma interior_chained:
  assumes "runs_apart d" "run_at d h = Some r" "covers h (run_len r) x" "x \<noteq> h"
  shows "chained d x"
proof -
  have "0 < place_of x" "covers h (run_len r) (pred_id x)"
    using assms(3,4) by (auto simp: covers_iff stamp_eq_iff place_of_pred_id same_group_sym)
  then show ?thesis
    using assms dead_at_covered [OF assms(1,2)] by (auto simp: chained_def chain_anchor_def)
qed

lemma head_not_chained:
  assumes "runs_ok d" "run_at d h = Some r"
  shows "\<not> chained d h"
proof
  assume c: "chained d h"
  have ap: "runs_apart d" and mx: "runs_maximal d" using assms(1) by (simp_all add: runs_ok_def)
  obtain p q where p: "run_at d p = Some q" "covers p (run_len q) (pred_id h)"
    using c unfolding chained_def dead_at_def by blast
  have "\<not> covers p (run_len q) h"
    using runs_apart_unique [OF ap p(1) assms(2) _ covers_head [OF ap assms(2)]] p(2) c
    by (auto simp: chained_def covers_iff place_of_pred_id)
  then have "same_group p h" "place_of h = place_of p + run_size q"
    using p(2) c by (auto simp: chained_def covers_iff place_of_pred_id)
  then have "run_anchor r \<noteq> Anchor (Some (pred_id h)) RightSide"
    using mx p(1) assms(2) unfolding runs_maximal_def by blast
  moreover have "dead_at d h (run_anchor r)"
    using dead_at_covered [OF ap assms(2) covers_head [OF ap assms(2)]] by (simp add: chain_anchor_def)
  ultimately show False
    using c dead_at_unique [OF ap] unfolding chained_def by blast
qed

lemma run_head_iff:
  assumes "runs_ok d"
  shows "run_at d h \<noteq> None \<longleftrightarrow> (\<exists>a. dead_at d h a) \<and> \<not> chained d h"
proof
  have ap: "runs_apart d" using assms by (simp add: runs_ok_def)
  assume "run_at d h \<noteq> None"
  then show "(\<exists>a. dead_at d h a) \<and> \<not> chained d h"
    using head_not_chained [OF assms] covers_head [OF ap] unfolding dead_at_def by blast
next
  have ap: "runs_apart d" using assms by (simp add: runs_ok_def)
  assume "(\<exists>a. dead_at d h a) \<and> \<not> chained d h"
  then show "run_at d h \<noteq> None"
    using interior_chained [OF ap] unfolding dead_at_def by (metis option.distinct(1))
qed

lemma run_not_longer:
  assumes "runs_ok d" "runs_ok d'" and same: "\<And>x a. dead_at d x a \<longleftrightarrow> dead_at d' x a"
    and "run_at d h = Some r" "run_at d' h = Some r'"
  shows "run_size r' \<le> run_size r"
proof (rule ccontr)
  have ap: "runs_apart d" "runs_apart d'" using assms by (simp_all add: runs_ok_def)
  assume "\<not> run_size r' \<le> run_size r"
  then have lt: "run_size r < run_size r'" by simp
  have b: "place_of h + run_size r' \<le> 2 ^ 63" using runs_apartD(2) [OF ap(2) assms(5)] .
  define x where "x = run_id h (run_len r)"
  have x: "same_group h x" "place_of x = place_of h + run_size r"
    using lt b by (auto simp: x_def place_of_run_id)
  have sz: "0 < run_size r" using runs_apartD(1) [OF ap(1) assms(4)] .
  have "chained d' x"
    using x lt sz by (intro interior_chained [OF ap(2) assms(5)]) (auto simp: covers_iff)
  then have c: "chained d x" by (simp add: chained_def same)
  obtain p q where p: "run_at d p = Some q" "covers p (run_len q) x"
    using c unfolding chained_def dead_at_def by blast
  have "p \<noteq> x" using c p(1) head_not_chained [OF assms(1)] by blast
  then have "covers p (run_len q) (pred_id x)"
    using p(2) by (auto simp: covers_iff stamp_eq_iff place_of_pred_id)
  moreover have "covers h (run_len r) (pred_id x)"
    using x sz by (auto simp: covers_iff place_of_pred_id)
  ultimately have "p = h" "q = r" using runs_apart_unique [OF ap(1) p(1) assms(4)] by blast+
  with p(2) x show False by (simp add: covers_iff)
qed

lemma runs_canonical:
  assumes "runs_ok d" "runs_ok d'" and same: "\<And>x a. dead_at d x a \<longleftrightarrow> dead_at d' x a"
  shows "d = d'"
proof (rule fmap_ext)
  fix k
  define h where "h = seq_stamp k"
  have k: "k = seq_key h" by (simp add: h_def)
  have ap: "runs_apart d" "runs_apart d'" using assms by (simp_all add: runs_ok_def)
  have heads: "run_at d h \<noteq> None \<longleftrightarrow> run_at d' h \<noteq> None"
    by (simp only: run_head_iff [OF assms(1)] run_head_iff [OF assms(2)] chained_def same)
  show "fmlookup d k = fmlookup d' k"
  proof (cases "run_at d h")
    case None
    with heads k show ?thesis by simp
  next
    case (Some r)
    then obtain r' where r': "run_at d' h = Some r'" using heads by auto
    have "run_size r = run_size r'"
      using run_not_longer [OF assms Some r'] run_not_longer [OF assms(2,1) same [symmetric] r' Some] by simp
    moreover have "dead_at d h (run_anchor r)" "dead_at d' h (run_anchor r')"
      using dead_at_covered [OF ap(1) Some covers_head [OF ap(1) Some]]
        dead_at_covered [OF ap(2) r' covers_head [OF ap(2) r']] by (simp_all add: chain_anchor_def)
    then have "run_anchor r = run_anchor r'" using same dead_at_unique [OF ap(2)] by blast
    ultimately show ?thesis using Some r' k by (simp add: word_unat_eq_iff)
  qed
qed

end
