(* ===== verification/Sequence_Ops.thy ===== *)
theory Sequence_Ops
  imports Sequence_Runs
begin

text \<open>
  What a sequence holds at each id, and the effect of claims, deletes and moves on it.
  \<open>list_invar\<close> is the invariant of a sequence; \<open>slots\<close> is its abstraction: for each id nothing, a
  live node or a tombstone with its anchor. Every operation keeps the invariant and refines an
  update of one slot, and two sequences with the same slots are equal.
\<close>

section \<open>The slots of a sequence\<close>

datatype slot = LiveSlot element anchor bool | DeadSlot anchor

definition slots :: "seq_list \<Rightarrow> stamp \<Rightarrow> slot option" where
  "slots l x =
     (case fmlookup (nodes l) (seq_key x) of
        Some n \<Rightarrow> Some (LiveSlot (ln_value n) (ln_anchor n) (moved_away n))
      | None \<Rightarrow> map_option DeadSlot (dead_anchor_of l x))"

definition node_ids_ok :: "(skey, list_node) fmap \<Rightarrow> bool" where
  "node_ids_ok ns \<longleftrightarrow>
     (\<forall>x n. fmlookup ns (seq_key x) = Some n \<longrightarrow> ln_id n = x \<and> place_of x < 2 ^ 63)"

definition apart :: "seq_list \<Rightarrow> bool" where
  "apart l \<longleftrightarrow> (\<forall>x a. dead_at (dead l) x a \<longrightarrow> fmlookup (nodes l) (seq_key x) = None)"

definition list_invar :: "seq_list \<Rightarrow> bool" where
  "list_invar l \<longleftrightarrow> node_ids_ok (nodes l) \<and> runs_ok (dead l) \<and> apart l"

text \<open>Two sequences of one element, apart from what they hold.\<close>

definition same_list :: "seq_list \<Rightarrow> seq_list \<Rightarrow> bool" where
  "same_list l l' \<longleftrightarrow> list_id l = list_id l' \<and> list_displaced l = list_displaced l'"

lemma runs_okD: "runs_ok d \<Longrightarrow> runs_apart d" "runs_ok d \<Longrightarrow> runs_maximal d"
  by (simp_all add: runs_ok_def)

lemma list_invarD:
  assumes "list_invar l"
  shows "node_ids_ok (nodes l)" "runs_ok (dead l)" "runs_apart (dead l)" "apart l"
  using assms by (simp_all add: list_invar_def runs_ok_def)

lemma list_invarI: "node_ids_ok (nodes l) \<Longrightarrow> runs_ok (dead l) \<Longrightarrow> apart l \<Longrightarrow> list_invar l"
  by (simp add: list_invar_def)

lemma slots_Live_iff:
  "slots l x = Some (LiveSlot v a m) \<longleftrightarrow>
     (\<exists>n. fmlookup (nodes l) (seq_key x) = Some n \<and> ln_value n = v \<and> ln_anchor n = a \<and> moved_away n = m)"
  by (auto simp: slots_def split: option.splits)

lemma dead_anchor_of_nodes [simp]: "dead_anchor_of (l\<lparr>nodes := ns\<rparr>) x = dead_anchor_of l x"
  by (simp add: dead_anchor_of_def dead_run_def)

lemma dead_anchor_of_invar: "list_invar l \<Longrightarrow> dead_anchor_of l x = Some a \<longleftrightarrow> dead_at (dead l) x a"
  by (simp add: dead_anchor_of_iff list_invarD)

lemma dead_not_node: "list_invar l \<Longrightarrow> dead_at (dead l) x a \<Longrightarrow> fmlookup (nodes l) (seq_key x) = None"
  using list_invarD(4) unfolding apart_def by blast

lemma slots_Dead_iff:
  "list_invar l \<Longrightarrow> slots l x = Some (DeadSlot a) \<longleftrightarrow> dead_at (dead l) x a"
  by (cases "fmlookup (nodes l) (seq_key x)")
    (auto simp: slots_def dead_anchor_of_invar dest: dead_not_node)

lemma slots_None_iff:
  assumes "list_invar l"
  shows "slots l x = None \<longleftrightarrow>
     fmlookup (nodes l) (seq_key x) = None \<and> (\<forall>a. \<not> dead_at (dead l) x a)"
proof -
  have "dead_anchor_of l x = None \<longleftrightarrow> (\<forall>a. \<not> dead_at (dead l) x a)"
    by (simp flip: dead_anchor_of_invar [OF assms] not_Some_eq)
  then show ?thesis by (cases "fmlookup (nodes l) (seq_key x)") (simp_all add: slots_def)
qed

text \<open>To show what an operation does it is enough to know its nodes and its tombstones.\<close>

lemma slots_eqI:
  assumes "list_invar l"
    and "\<And>n. fmlookup (nodes l) (seq_key x) = Some n \<Longrightarrow>
      s = Some (LiveSlot (ln_value n) (ln_anchor n) (moved_away n))"
    and "\<And>a. dead_at (dead l) x a \<Longrightarrow> s = Some (DeadSlot a)"
    and "fmlookup (nodes l) (seq_key x) = None \<Longrightarrow> (\<And>a. \<not> dead_at (dead l) x a) \<Longrightarrow> s = None"
  shows "slots l x = s"
proof (cases "slots l x")
  case None
  with assms show ?thesis by (simp add: slots_None_iff)
next
  case (Some t)
  with assms show ?thesis by (cases t) (auto simp: slots_Live_iff slots_Dead_iff)
qed

lemma node_id: "list_invar l \<Longrightarrow> fmlookup (nodes l) (seq_key x) = Some n \<Longrightarrow> ln_id n = x"
  by (auto dest: list_invarD(1) simp: node_ids_ok_def)

lemma slot_place:
  assumes "list_invar l" "slots l x = Some s"
  shows "place_of x < 2 ^ 63"
proof (cases s)
  case (LiveSlot v a m)
  with assms obtain n where "fmlookup (nodes l) (seq_key x) = Some n" by (auto simp: slots_Live_iff)
  with list_invarD(1) [OF assms(1)] show ?thesis by (auto simp: node_ids_ok_def)
next
  case (DeadSlot a)
  with assms have "dead_at (dead l) x a" by (simp add: slots_Dead_iff)
  then obtain h r where "run_at (dead l) h = Some r" "covers h (run_len r) x"
    by (auto simp: dead_at_def)
  with runs_apartD(2) [OF list_invarD(3) [OF assms(1)]] show ?thesis
    by (fastforce simp: covers_iff)
qed

theorem slots_canonical:
  assumes l: "list_invar l" and l': "list_invar l'" and same: "same_list l l'"
    and slots: "\<And>x. slots l x = slots l' x"
  shows "l = l'"
proof -
  have "dead_at (dead l) x a \<longleftrightarrow> dead_at (dead l') x a" for x a
    by (simp add: slots flip: slots_Dead_iff [OF l] slots_Dead_iff [OF l'])
  then have dead: "dead l = dead l'"
    using l l' by (intro runs_canonical) (auto dest: list_invarD)
  have "fmlookup (nodes l) k = fmlookup (nodes l') k" for k
  proof -
    obtain x where k: "k = seq_key x" by (metis seq_key_stamp)
    have *: "fmlookup (nodes q) k = Some n"
      if "fmlookup (nodes p) k = Some n" "list_invar p" "list_invar q" "\<And>x. slots p x = slots q x" for p q n
    proof -
      have "slots q x = Some (LiveSlot (ln_value n) (ln_anchor n) (moved_away n))"
        using that k by (metis slots_Live_iff)
      then obtain n' where n': "fmlookup (nodes q) k = Some n'" "ln_value n' = ln_value n"
        "ln_anchor n' = ln_anchor n" "moved_away n' = moved_away n"
        using k by (auto simp: slots_Live_iff)
      then have "n' = n" using that k by (auto dest!: node_id)
      with n' show ?thesis by simp
    qed
    show ?thesis
      by (metis * l l' slots not_Some_eq)
  qed
  then have "nodes l = nodes l'" by (rule fmap_ext)
  with dead same show ?thesis by (simp add: same_list_def)
qed

lemma list_new_ok: "list_invar (list_new i)" "slots (list_new i) x = None"
  by (simp_all add: list_invar_def list_new_def node_ids_ok_def runs_ok_def runs_apart_def
      runs_maximal_def apart_def dead_at_def slots_def dead_anchor_of_def dead_run_def range_last_def)

section \<open>Steps on one slot\<close>

text \<open>\<open>puts l x s l'\<close>: \<open>l'\<close> is \<open>l\<close> with the slot at \<open>x\<close> set to \<open>s\<close>.\<close>

definition puts :: "seq_list \<Rightarrow> stamp \<Rightarrow> slot option \<Rightarrow> seq_list \<Rightarrow> bool" where
  "puts l x s l' \<longleftrightarrow> list_invar l' \<and> same_list l l' \<and> (\<forall>y. slots l' y = (if y = x then s else slots l y))"

lemma putsI:
  assumes "list_invar l'" "same_list l l'" "\<And>y. slots l' y = (if y = x then s else slots l y)"
  shows "puts l x s l'"
  using assms by (simp add: puts_def)

lemma puts_refl: "list_invar l \<Longrightarrow> slots l x = s \<Longrightarrow> puts l x s l"
  by (auto simp: puts_def same_list_def)

lemma puts_trans: "puts l x s l' \<Longrightarrow> puts l' x s' l'' \<Longrightarrow> puts l x s' l''"
  by (auto simp: puts_def same_list_def)

lemma putsD:
  assumes "puts l x s l'"
  shows "list_invar l'" "same_list l l'" "slots l' y = (if y = x then s else slots l y)"
  using assms by (simp_all add: puts_def)

lemma puts_unique: "puts l x s l1 \<Longrightarrow> puts l x s l2 \<Longrightarrow> l1 = l2"
  by (intro slots_canonical) (auto simp: puts_def same_list_def)

lemma covers_one: "place_of x < 2 ^ 63 \<Longrightarrow> covers x 1 y \<longleftrightarrow> y = x"
  by (auto simp: covers_iff stamp_eq_iff same_group_sym)

lemma put_node_puts:
  assumes l: "list_invar l" and x: "ln_id n = x" "place_of x < 2 ^ 63"
    and free: "\<And>a. slots l x \<noteq> Some (DeadSlot a)"
  shows "puts l x (Some (LiveSlot (ln_value n) (ln_anchor n) (moved_away n)))
    (l\<lparr>nodes := fmupd (seq_key x) n (nodes l)\<rparr>)" (is "puts l x _ ?l")
proof -
  have inv: "list_invar ?l"
    using l x free
    by (intro list_invarI)
      (auto simp: node_ids_ok_def apart_def slots_Dead_iff dest: list_invarD dead_not_node node_id
        dest!: slot_place [rotated, OF slots_Live_iff [THEN iffD2, OF exI]])
  show ?thesis
  proof (rule putsI [OF inv])
    show "same_list l ?l" by (simp add: same_list_def)
    show "slots ?l y = (if y = x then Some (LiveSlot (ln_value n) (ln_anchor n) (moved_away n)) else slots l y)" for y
      by (cases "fmlookup (nodes l) (seq_key y)") (simp_all add: slots_def)
  qed
qed

lemma drop_node_invar:
  assumes "list_invar l"
  shows "list_invar (l\<lparr>nodes := fmdrop (seq_key x) (nodes l)\<rparr>)"
proof (rule list_invarI)
  show "node_ids_ok (nodes (l\<lparr>nodes := fmdrop (seq_key x) (nodes l)\<rparr>))"
    using list_invarD(1) [OF assms] by (simp add: node_ids_ok_def)
  show "apart (l\<lparr>nodes := fmdrop (seq_key x) (nodes l)\<rparr>)"
    using list_invarD(4) [OF assms] by (simp add: apart_def)
qed (use assms in \<open>simp add: list_invarD\<close>)

lemma bury_node_puts:
  assumes l: "list_invar l" and n: "fmlookup (nodes l) (seq_key x) = Some n"
  shows "puts l x (Some (DeadSlot (ln_anchor n)))
    (add_dead x 1 (ln_anchor n) (l\<lparr>nodes := fmdrop (seq_key x) (nodes l)\<rparr>))" (is "puts l x _ ?l")
proof -
  let ?m = "l\<lparr>nodes := fmdrop (seq_key x) (nodes l)\<rparr>"
  have m: "list_invar ?m" using l by (rule drop_node_invar)
  have place: "place_of x < 2 ^ 63" using l n by (meson slot_place slots_Live_iff)
  have free: "free_stretch (dead ?m) x 1"
    using place n l by (auto simp: free_stretch_def covers_one dest: dead_not_node)
  note add = add_dead_spec [OF list_invarD(2) [OF m] free, of "ln_anchor n"]
  have dead: "dead_at (dead ?l) y b \<longleftrightarrow> (if y = x then b = ln_anchor n else dead_at (dead l) y b)" for y b
    using place by (simp add: add(2) with_stretch_def covers_one chain_anchor_def)
  have nodes: "nodes ?l = fmdrop (seq_key x) (nodes l)" by (subst add(3)) simp
  have inv: "list_invar ?l"
    using list_invarD [OF m] list_invarD(4) [OF l]
    by (intro list_invarI add(1)) (simp_all add: nodes apart_def dead)
  show ?thesis
  proof (rule putsI [OF inv])
    show "same_list l ?l" by (subst add(3)) (simp add: same_list_def)
    show "slots ?l y = (if y = x then Some (DeadSlot (ln_anchor n)) else slots l y)" for y
      by (rule slots_eqI [OF inv])
        (auto simp: nodes dead slots_Dead_iff [OF l] slots_None_iff [OF l] slots_Live_iff split: if_splits)
  qed
qed

lemma take_dead_puts:
  assumes l: "list_invar l"
  shows "if \<exists>a. slots l x = Some (DeadSlot a)
     then fst (take_dead x l) \<and> puts l x None (snd (take_dead x l))
     else take_dead x l = (False, l)"
proof (cases "dead_run l x")
  case None
  then have "dead_anchor_of l x = None" by (simp add: dead_anchor_of_def)
  with None show ?thesis
    by (auto simp: take_dead_def slots_def split: option.splits)
next
  case (Some hr)
  obtain h r where hr: "hr = (h, r)" by (cases hr)
  note ok = list_invarD [OF l]
  from Some hr have h: "run_at (dead l) h = Some r" "covers h (run_len r) x"
    by (simp_all add: dead_run_iff ok)
  then obtain a where a: "dead_at (dead l) x a" by (auto simp: dead_at_def)
  let ?l = "l\<lparr>dead := split_run (dead l) h r x\<rparr>"
  note split = split_run_spec [OF ok(2) h]
  have inv: "list_invar ?l"
    using ok by (intro list_invarI) (auto simp: split apart_def)
  have "puts l x None ?l"
  proof (rule putsI [OF inv])
    show "same_list l ?l" by (simp add: same_list_def)
    show "slots ?l y = (if y = x then None else slots l y)" for y
      using dead_not_node [OF l a]
      by (intro slots_eqI [OF inv])
        (auto simp: split slots_Dead_iff [OF l] slots_None_iff [OF l] slots_Live_iff)
  qed
  with Some hr a show ?thesis
    by (auto simp: take_dead_split slots_Dead_iff [OF l])
qed

section \<open>Claims and deletes\<close>

text \<open>The abstract operations.\<close>

fun delete_slot :: "slot option \<Rightarrow> slot option" where
  "delete_slot (Some (LiveSlot _ a _)) = Some (DeadSlot a)"
| "delete_slot s = s"

fun seat_slot :: "element \<Rightarrow> anchor \<Rightarrow> slot option \<Rightarrow> slot option" where
  "seat_slot v a (Some (DeadSlot _)) = Some (DeadSlot a)"
| "seat_slot v a _ = Some (LiveSlot v a False)"

fun claim_slot :: "element \<Rightarrow> anchor \<Rightarrow> slot option \<Rightarrow> slot option" where
  "claim_slot v a None = Some (LiveSlot v a False)"
| "claim_slot v a (Some (LiveSlot w b m)) =
     (if claim_rank v a < claim_rank w b then Some (LiveSlot v a False) else Some (LiveSlot w b m))"
| "claim_slot v a (Some (DeadSlot b)) = Some (DeadSlot (min a b))"

fun slot_anchor :: "slot \<Rightarrow> anchor" where
  "slot_anchor (LiveSlot _ a _) = a"
| "slot_anchor (DeadSlot a) = a"

fun scalar_slot :: "slot option \<Rightarrow> bool" where
  "scalar_slot (Some (LiveSlot v _ _)) = (element_kind_of v = KScalar)"
| "scalar_slot _ = False"

fun rejoin_slot :: "element \<Rightarrow> anchor \<Rightarrow> slot option \<Rightarrow> slot option" where
  "rejoin_slot v a None = Some (LiveSlot v a False)"
| "rejoin_slot v a (Some s) =
     (if scalar_slot (Some s) then Some s else seat_slot v (min a (slot_anchor s)) (Some s))"

fun move_slot :: "bool \<Rightarrow> slot option \<Rightarrow> slot option" where
  "move_slot away (Some (LiveSlot v a m)) = Some (LiveSlot v a away)"
| "move_slot away s = s"

lemma delete_id_puts: "list_invar l \<Longrightarrow> puts l x (delete_slot (slots l x)) (delete_id x l)"
proof (cases "fmlookup (nodes l) (seq_key x)")
  case None
  assume "list_invar l"
  moreover from None have "delete_slot (slots l x) = slots l x"
    by (cases "dead_anchor_of l x") (simp_all add: slots_def)
  ultimately show ?thesis using None by (simp add: delete_id_def puts_refl)
next
  case (Some n)
  assume "list_invar l"
  from bury_node_puts [OF this Some] Some show ?thesis by (simp add: delete_id_def slots_def)
qed

lemma seat_puts:
  assumes l: "list_invar l" and x: "place_of x < 2 ^ 63"
  shows "puts l x (seat_slot v a (slots l x)) (seat x v a l)"
proof -
  let ?n = "\<lparr>ln_id = x, ln_value = v, ln_anchor = a, moved_away = False\<rparr>"
  let ?put = "\<lambda>l. l\<lparr>nodes := fmupd (seq_key x) ?n (nodes l)\<rparr>"
  show ?thesis
  proof (cases "\<exists>b. slots l x = Some (DeadSlot b)")
    case True
    then obtain l' where t: "take_dead x l = (True, l')" and l': "puts l x None l'"
      using take_dead_puts [OF l, of x] by (cases "take_dead x l") auto
    have "puts l' x (Some (LiveSlot v a False)) (?put l')"
      using put_node_puts [OF putsD(1) [OF l'], of ?n x] x putsD(3) [OF l'] by simp
    then have p: "puts l x (Some (LiveSlot v a False)) (?put l')" by (rule puts_trans [OF l'])
    have "puts l x (Some (DeadSlot a)) (delete_id x (?put l'))"
      using puts_trans [OF p delete_id_puts [OF putsD(1) [OF p]]] putsD(3) [OF p] by simp
    with True t show ?thesis by (auto simp: seat_def)
  next
    case False
    then have "take_dead x l = (False, l)" using take_dead_puts [OF l, of x] by simp
    moreover have "seat_slot v a (slots l x) = Some (LiveSlot v a False)"
      using False by (cases "(v, a, slots l x)" rule: seat_slot.cases) auto
    moreover have "puts l x (Some (LiveSlot v a False)) (?put l)"
      using put_node_puts [OF l, of ?n x] x False by simp
    ultimately show ?thesis by (simp add: seat_def)
  qed
qed

lemma seated_slots:
  "seated l x = (case slots l x of
     None \<Rightarrow> Vacant
   | Some (LiveSlot v a m) \<Rightarrow> SeatedLive (claim_rank v a)
   | Some (DeadSlot a) \<Rightarrow> SeatedDead a)"
  by (simp add: seated_def slots_def split: option.split)

lemma insert_at_puts:
  assumes l: "list_invar l" and x: "place_of x < 2 ^ 63"
  shows "puts l x (claim_slot v a (slots l x)) (insert_at x v a l)"
  using seat_puts [OF l x, of v a] puts_refl [OF l, of x]
  by (auto simp: insert_at_def seated_slots min_def not_less split: option.split slot.split)

lemma anchor_of_slots: "anchor_of l x = map_option slot_anchor (slots l x)"
  by (auto simp: anchor_of_def slots_def option.map_comp comp_def option.map_ident split: option.split)

lemma yields_slots: "yields_to_seated l x \<longleftrightarrow> scalar_slot (slots l x)"
  by (cases "dead_anchor_of l x") (simp_all add: yields_to_seated_def slots_def split: option.split)

lemma reseat_puts:
  assumes "list_invar l" "place_of x < 2 ^ 63"
  shows "puts l x (if scalar_slot (slots l x) then slots l x else seat_slot v a (slots l x)) (reseat x v a l)"
  using assms by (simp add: reseat_def yields_slots seat_puts puts_refl)

lemma rejoin_puts:
  assumes "list_invar l" "place_of x < 2 ^ 63"
  shows "puts l x (rejoin_slot v a (slots l x)) (rejoin x v a l)"
proof (cases "slots l x")
  case None
  then show ?thesis
    using seat_puts [OF assms, of v a] by (simp add: rejoin_def yields_slots anchor_of_slots)
next
  case (Some s)
  then show ?thesis
    using seat_puts [OF assms, of v "min a (slot_anchor s)"] puts_refl [OF assms(1) Some]
    by (simp add: rejoin_def yields_slots anchor_of_slots)
qed

lemma set_moved_away_puts:
  assumes l: "list_invar l"
  shows "puts l x (move_slot away (slots l x)) (set_moved_away x away l)"
proof (cases "fmlookup (nodes l) (seq_key x)")
  case None
  then have "move_slot away (slots l x) = slots l x"
    by (cases "dead_anchor_of l x") (simp_all add: slots_def)
  with None l show ?thesis by (simp add: set_moved_away_def puts_refl)
next
  case (Some n)
  then have s: "slots l x = Some (LiveSlot (ln_value n) (ln_anchor n) (moved_away n))"
    by (simp add: slots_def)
  from put_node_puts [OF l _ slot_place [OF l s], of "n\<lparr>moved_away := away\<rparr>"] s Some node_id [OF l Some]
  show ?thesis by (simp add: set_moved_away_def)
qed

end
