(* ===== verification/Sequence_History.thy ===== *)
theory Sequence_History
  imports Sequence_Ops Convergence
begin

text \<open>
  Histories of a sequence. A replica receives claims on ids and deletes of ids, a delete after a
  claim of its id. What it holds is then a function of the set of operations it received: the id
  goes to the claim of least rank, and a deleted id keeps that claim's anchor. This needs the
  claims on one id to carry values of one kind; without that, the order of arrival shows.
\<close>

section \<open>Ranks identify claims\<close>

fun element_typed :: "element \<Rightarrow> bool" where
  "element_typed (EScalar v) = scalar_typed v"
| "element_typed (EHandle k _) = (k \<noteq> KScalar \<and> k \<noteq> KRegister)"

definition cur_element :: "element decoder" where
  "cur_element = and_then cur_u8 (\<lambda>tag.
     if tag = 0 then and_then cur_scalar (\<lambda>v. ret (EScalar v))
     else case from_tag tag of
         None \<Rightarrow> fail (BadTag ''list node value'' tag)
       | Some k \<Rightarrow> and_then cur_element_id (\<lambda>e. ret (EHandle k e)))"

lemma kind_tag_0_iff [simp]: "kind_tag k = 0 \<longleftrightarrow> k = KScalar"
  using kind_tag_inject [of k KScalar] by simp

lemma codes_element: "element_typed v \<Longrightarrow> codes (put_node_value v) cur_element v"
  unfolding cur_element_def
  by (cases v) (auto simp: put_node_ref_def intro!: codes_tagged codes_single codes_map codes_intro)

interpretation element_format: wire_format put_node_value cur_element element_typed
  by unfold_locales (rule codes_element)

definition encodable :: "element \<Rightarrow> bool" where
  "encodable v \<longleftrightarrow> element_typed v \<and> put_node_value v \<noteq> None"

lemma claim_rank_inject:
  "encodable v \<Longrightarrow> encodable w \<Longrightarrow> claim_rank v a = claim_rank w b \<Longrightarrow> v = w \<and> a = b"
  by (auto simp: claim_rank_def encodable_def dest: element_format.put_inj)

lemma claim_rank_same_kind:
  "element_kind_of v = element_kind_of w \<Longrightarrow>
     claim_rank v a \<le> claim_rank w b \<longleftrightarrow> a < b \<or> a = b \<and> put_node_value v \<le> put_node_value w"
  by (auto simp: claim_rank_def)

section \<open>Histories\<close>

datatype seq_op = Claim stamp element anchor | Delete stamp

fun seq_step :: "seq_op \<Rightarrow> seq_list \<Rightarrow> seq_list" where
  "seq_step (Claim x v a) = insert_at x v a"
| "seq_step (Delete x) = delete_id x"

abbreviation run_ops :: "elementid \<Rightarrow> seq_op list \<Rightarrow> seq_list" where
  "run_ops i ops \<equiv> fold seq_step ops (list_new i)"

fun causal :: "stamp list \<Rightarrow> seq_op list \<Rightarrow> bool" where
  "causal prior [] = True"
| "causal prior (Claim x v a # ops) = causal (x # prior) ops"
| "causal prior (Delete x # ops) = (x \<in> set prior \<and> causal prior ops)"

fun op_ok :: "seq_op \<Rightarrow> bool" where
  "op_ok (Claim x v a) = (place_of x < 2 ^ 63 \<and> encodable v)"
| "op_ok (Delete x) = True"

fun kinds_agree :: "seq_op \<Rightarrow> seq_op \<Rightarrow> bool" where
  "kinds_agree (Claim x v a) (Claim y w b) = (x = y \<longrightarrow> element_kind_of v = element_kind_of w)"
| "kinds_agree _ _ = True"

definition one_kind :: "seq_op list \<Rightarrow> bool" where
  "one_kind ops \<longleftrightarrow> list_all (\<lambda>p. list_all (kinds_agree p) ops) ops"

definition history :: "seq_op list \<Rightarrow> bool" where
  "history ops \<longleftrightarrow> causal [] ops \<and> list_all op_ok ops \<and> one_kind ops"

text \<open>The claim that an id goes to.\<close>

definition wins :: "seq_op set \<Rightarrow> stamp \<Rightarrow> element \<Rightarrow> anchor \<Rightarrow> bool" where
  "wins ops x v a \<longleftrightarrow> Claim x v a \<in> ops \<and>
     (\<forall>w b. Claim x w b \<in> ops \<longrightarrow> claim_rank v a \<le> claim_rank w b)"

definition claimed :: "seq_op set \<Rightarrow> stamp \<Rightarrow> bool" where
  "claimed ops x \<longleftrightarrow> (\<exists>v a. Claim x v a \<in> ops)"

text \<open>What the operations leave at an id.\<close>

definition left_at :: "seq_op set \<Rightarrow> stamp \<Rightarrow> slot option \<Rightarrow> bool" where
  "left_at ops x s \<longleftrightarrow>
     (if claimed ops x
      then \<exists>v a. wins ops x v a \<and> s = Some (if Delete x \<in> ops then DeadSlot a else LiveSlot v a False)
      else s = None)"

lemma wins_unique:
  assumes "\<forall>p\<in>ops. op_ok p" "wins ops x v a" "wins ops x w b"
  shows "v = w \<and> a = b"
proof -
  have "claim_rank v a = claim_rank w b"
    using assms by (auto simp: wins_def intro: order.antisym)
  moreover have "op_ok (Claim x v a)" "op_ok (Claim x w b)"
    using assms by (auto simp: wins_def)
  ultimately show ?thesis by (auto dest: claim_rank_inject)
qed

lemma left_at_unique:
  assumes "\<forall>p\<in>ops. op_ok p" "left_at ops x s" "left_at ops x t"
  shows "s = t"
  using assms wins_unique [OF assms(1)] by (auto simp: left_at_def split: if_splits)

lemma causal_snoc:
  "causal prior (ops @ [p]) \<longleftrightarrow> causal prior ops \<and>
     (\<forall>x. p = Delete x \<longrightarrow> x \<in> set prior \<or> claimed (set ops) x)"
  by (induction prior ops rule: causal.induct) (cases p; auto simp: claimed_def)+

lemma history_snoc:
  assumes "history (ops @ [p])"
  shows "history ops" "op_ok p" "\<And>x. p = Delete x \<Longrightarrow> claimed (set ops) x"
    "\<And>q. q \<in> set ops \<Longrightarrow> kinds_agree p q"
  using assms by (auto simp: history_def causal_snoc one_kind_def list_all_iff)

text \<open>One more operation.\<close>

lemma wins_first: "\<not> claimed ops x \<Longrightarrow> wins (insert (Claim x v a) ops) x v a"
  by (auto simp: wins_def claimed_def)

lemma wins_insert:
  assumes "wins ops x w b"
  shows "if claim_rank v a < claim_rank w b then wins (insert (Claim x v a) ops) x v a
    else wins (insert (Claim x v a) ops) x w b"
  using assms by (auto simp: wins_def intro: order.trans [OF less_imp_le])

lemma wins_other:
  "(\<And>v a. p \<noteq> Claim x v a) \<Longrightarrow> wins (insert p ops) x v a \<longleftrightarrow> wins ops x v a"
  by (auto simp: wins_def)

lemma claimed_insert [simp]:
  "claimed (insert (Claim x v a) ops) y \<longleftrightarrow> y = x \<or> claimed ops y"
  "claimed (insert (Delete x) ops) y \<longleftrightarrow> claimed ops y"
  by (auto simp: claimed_def)

lemma left_at_other:
  "y \<noteq> x \<Longrightarrow> left_at (insert (Claim x v a) ops) y s \<longleftrightarrow> left_at ops y s"
  "y \<noteq> x \<Longrightarrow> left_at (insert (Delete x) ops) y s \<longleftrightarrow> left_at ops y s"
  by (simp_all add: left_at_def wins_other)

lemma left_at_delete:
  assumes "claimed ops x" "left_at ops x s"
  shows "left_at (insert (Delete x) ops) x (delete_slot s)"
  using assms by (auto simp: left_at_def wins_other)

lemma left_at_claim:
  assumes left: "left_at ops x s"
    and kinds: "\<And>q. q \<in> ops \<Longrightarrow> kinds_agree (Claim x v a) q"
    and causal: "Delete x \<in> ops \<Longrightarrow> claimed ops x"
  shows "left_at (insert (Claim x v a) ops) x (claim_slot v a s)"
proof (cases "claimed ops x")
  case False
  with left causal show ?thesis by (auto simp: left_at_def wins_first)
next
  case True
  with left obtain w b where w: "wins ops x w b"
    and s: "s = Some (if Delete x \<in> ops then DeadSlot b else LiveSlot w b False)"
    by (auto simp: left_at_def)
  have "element_kind_of v = element_kind_of w"
    using kinds [of "Claim x w b"] w by (simp add: wins_def)
  then have rank: "claim_rank w b \<le> claim_rank v a \<longleftrightarrow>
      b < a \<or> b = a \<and> put_node_value w \<le> put_node_value v"
    by (simp add: claim_rank_same_kind)
  show ?thesis
  proof (cases "claim_rank v a < claim_rank w b")
    case True
    then have "min a b = a" using rank by (auto simp: not_le [symmetric])
    with True wins_insert [OF w, of v a] s \<open>claimed ops x\<close> show ?thesis
      by (auto simp: left_at_def)
  next
    case False
    then have "min a b = b" using rank by auto
    with False wins_insert [OF w, of v a] s \<open>claimed ops x\<close> show ?thesis
      by (auto simp: left_at_def)
  qed
qed

lemma history_causal:
  assumes "history ops" "Delete x \<in> set ops"
  shows "claimed (set ops) x"
proof -
  have "causal prior ops \<Longrightarrow> Delete x \<in> set ops \<Longrightarrow> x \<in> set prior \<or> claimed (set ops) x" for prior
    by (induction prior ops rule: causal.induct) auto
  from this [of "[]"] assms show ?thesis by (simp add: history_def)
qed

lemma run_ops_left:
  "history ops \<Longrightarrow> list_invar (run_ops i ops) \<and> same_list (list_new i) (run_ops i ops) \<and>
     (\<forall>x. left_at (set ops) x (slots (run_ops i ops) x))"
proof (induction ops rule: rev_induct)
  case Nil
  show ?case by (simp add: list_new_ok same_list_def left_at_def claimed_def)
next
  case (snoc p ops)
  note h = history_snoc [OF snoc.prems]
  let ?l = "run_ops i ops"
  from snoc.IH [OF h(1)] have l: "list_invar ?l" and same: "same_list (list_new i) ?l"
    and left: "left_at (set ops) x (slots ?l x)" for x by simp_all
  have step: ?case if "puts ?l x s (seq_step p ?l)" "left_at (insert p (set ops)) x s"
    and "\<And>y t. y \<noteq> x \<Longrightarrow> left_at (insert p (set ops)) y t \<longleftrightarrow> left_at (set ops) y t" for x s
    using that left same by (auto simp: puts_def same_list_def)
  show ?case
  proof (cases p)
    case (Claim x v a)
    with h(2) have "place_of x < 2 ^ 63" by simp
    from insert_at_puts [OF l this, of v a] show ?thesis
      using left_at_claim [OF left, of x v a] h(4) history_causal [OF h(1)] Claim
      by (intro step) (auto simp: left_at_other)
  next
    case (Delete x)
    from delete_id_puts [OF l, of x] show ?thesis
      using left_at_delete [OF _ left, of x] h(3) Delete
      by (intro step) (auto simp: left_at_other)
  qed
qed

section \<open>Replicas agree\<close>

lemma history_ops_ok: "history ops \<Longrightarrow> \<forall>p\<in>set ops. op_ok p"
  by (simp add: history_def list_all_iff)



section \<open>Concrete histories\<close>

definition sample_list :: elementid where
  "sample_list = ElementId 7"

definition sample_id :: "nat \<Rightarrow> stamp" where
  "sample_id n = Stamp (word_of_nat n) (ClientId 1) 0"

definition at_start :: anchor where
  "at_start = Anchor None RightSide"

definition right_of :: "nat \<Rightarrow> anchor" where
  "right_of n = Anchor (Some (sample_id n)) RightSide"

definition int_node :: "i64 \<Rightarrow> element" where
  "int_node k = EScalar (SInt k)"

lemmas sample_defs = sample_list_def sample_id_def at_start_def right_of_def int_node_def

lemma encodable_int_node [simp]: "encodable (int_node k)"
  by (simp add: encodable_def int_node_def put_all.simps put_u8_def put_i64_def)

definition sample_ops :: "seq_op list" where
  "sample_ops = [Claim (sample_id 1) (int_node 10) at_start, Claim (sample_id 2) (int_node 20) (right_of 1),
     Delete (sample_id 1), Delete (sample_id 2), Claim (sample_id 1) (int_node 9) (right_of 5)]"

definition sample_ops' :: "seq_op list" where
  "sample_ops' = [Claim (sample_id 1) (int_node 9) (right_of 5), Claim (sample_id 2) (int_node 20) (right_of 1),
     Claim (sample_id 1) (int_node 10) at_start, Delete (sample_id 2), Delete (sample_id 1), Delete (sample_id 2)]"

lemma sample_histories: "history sample_ops" "history sample_ops'" "set sample_ops = set sample_ops'"
  by (auto simp: history_def sample_ops_def sample_ops'_def one_kind_def place_of_def sample_id_def
      int_node_def encodable_int_node [unfolded int_node_def])



section \<open>Claims of different kinds\<close>

fun slot_step :: "seq_op \<Rightarrow> stamp \<Rightarrow> slot option \<Rightarrow> slot option" where
  "slot_step (Claim y v a) x s = (if x = y then claim_slot v a s else s)"
| "slot_step (Delete y) x s = (if x = y then delete_slot s else s)"

lemma seq_step_slots:
  assumes "list_invar l" "op_ok p"
  shows "list_invar (seq_step p l)" "slots (seq_step p l) x = slot_step p x (slots l x)"
  using assms insert_at_puts delete_id_puts by (cases p; simp add: puts_def)+

lemma run_ops_slots:
  "list_all op_ok ops \<Longrightarrow> list_invar l \<Longrightarrow>
     slots (fold seq_step ops l) x = fold (\<lambda>p. slot_step p x) ops (slots l x)"
  by (induction ops arbitrary: l) (simp_all add: seq_step_slots)

definition late_claim :: "seq_op list" where
  "late_claim = [Claim (sample_id 1) (int_node 10) (right_of 5), Delete (sample_id 1),
     Claim (sample_id 1) (EHandle KText (ElementId 3)) at_start]"

definition early_claim :: "seq_op list" where
  "early_claim = [Claim (sample_id 1) (int_node 10) (right_of 5),
     Claim (sample_id 1) (EHandle KText (ElementId 3)) at_start, Delete (sample_id 1)]"


end
