(* ===== verification/Sequence_Merge.thy ===== *)
theory Sequence_Merge
  imports Sequence_History
begin

text \<open>
  Merging another replica of a sequence. The loop of \<open>bury\<close> ends within as many rounds as the run
  has ids and marks exactly the ids of the run; a merge then is a merge slot by slot. For replicas
  whose histories make one claim per id, merging gives the sequence of both histories.
\<close>

section \<open>The next key of an ordered map\<close>

lemma range_first_Some:
  assumes "range_first m k = Some (k', v)"
  shows "fmlookup m k' = Some v \<and> k \<le> k' \<and> (\<forall>q. k \<le> q \<and> fmlookup m q \<noteq> None \<longrightarrow> k' \<le> q)"
proof -
  from assms obtain es where es: "filter (\<lambda>e. k \<le> fst e) (sorted_list_of_fmap m) = (k', v) # es"
    by (auto simp: range_first_def split: list.splits)
  then have mem: "(k', v) \<in> set (filter (\<lambda>e. k \<le> fst e) (sorted_list_of_fmap m))" by simp
  have keys: "filter (\<lambda>q. k \<le> q) (sorted_list_of_fset (fmdom m)) = k' # map fst es"
    by (simp flip: keys_filter add: es)
  have "sorted (k' # map fst es)"
    unfolding keys [symmetric] by (rule sorted_wrt_filter) (simp add: sorted_list_of_fset.rep_eq)
  moreover have "q \<in> set (k' # map fst es)" if "k \<le> q" "fmlookup m q \<noteq> None" for q
    unfolding keys [symmetric] using that by (auto simp: sorted_list_of_fset.rep_eq fmdomI)
  ultimately show ?thesis using mem by auto
qed

lemma range_first_None:
  assumes "range_first m k = None" "k \<le> q"
  shows "fmlookup m q = None"
proof (rule ccontr)
  assume "fmlookup m q \<noteq> None"
  then obtain v where "(q, v) \<in> set (sorted_list_of_fmap m)" by auto
  with assms(2) have "filter (\<lambda>e. k \<le> fst e) (sorted_list_of_fmap m) \<noteq> []"
    unfolding filter_empty_conv by (metis fst_conv)
  with assms(1) show False by (simp add: range_first_def split: list.splits)
qed

text \<open>The distance to the next key of the group of an id, and what lies before it.\<close>

definition group_distance :: "stamp \<Rightarrow> skey \<Rightarrow> u64 option" where
  "group_distance x k = (if fst k = client x \<and> fst (snd k) = offset x then Some (snd (snd k) - lamport x) else None)"

definition next_distance :: "(skey, 'v) fmap \<Rightarrow> stamp \<Rightarrow> u64 option" where
  "next_distance m x = Option.bind (range_first m (seq_key x)) (\<lambda>e. group_distance x (fst e))"

lemma unseen_from_alt:
  "unseen_from l x most =
     (case (next_distance (nodes l) x, next_distance (dead l) x) of
        (None, None) \<Rightarrow> most
      | (Some d, None) \<Rightarrow> min d most
      | (None, Some e) \<Rightarrow> min e most
      | (Some d, Some e) \<Rightarrow> min (min e d) most)"
  by (auto simp: unseen_from_def next_distance_def group_distance_def map_filter_simps Let_def
      split: option.split)

lemma group_distance_key:
  "group_distance x (seq_key y) = (if same_group x y then Some (lamport y - lamport x) else None)"
  by (auto simp: group_distance_def seq_key_def same_group_def)

lemma key_le_same_group: "same_group x y \<Longrightarrow> seq_key x \<le> seq_key y \<longleftrightarrow> place_of x \<le> place_of y"
  by (auto simp: seq_key_le_iff same_group_def place_of_def word_le_nat_alt)

lemma next_distance_free:
  assumes y: "fmlookup m (seq_key y) \<noteq> None" "same_group x y" "place_of x \<le> place_of y"
  shows "\<exists>d. next_distance m x = Some d \<and> unat d \<le> place_of y - place_of x"
proof -
  have le: "seq_key x \<le> seq_key y" using y by (simp add: key_le_same_group)
  then obtain k v where k: "range_first m (seq_key x) = Some (k, v)"
    using range_first_None [of m "seq_key x"] y(1) by (cases "range_first m (seq_key x)") auto
  obtain z where z: "k = seq_key z" by (metis seq_key_stamp)
  from range_first_Some [OF k] le y(1) have "seq_key x \<le> seq_key z" "seq_key z \<le> seq_key y"
    unfolding z by blast+
  from seq_key_between [OF this y(2)] have zx: "same_group x z" "place_of x \<le> place_of z" "place_of z \<le> place_of y"
    by simp_all
  then have "unat (lamport z - lamport x) = place_of z - place_of x"
    by (simp add: place_of_def unat_sub word_le_nat_alt)
  with zx show ?thesis by (auto simp: next_distance_def k z group_distance_key)
qed

lemma next_distance_pos:
  assumes "next_distance m x = Some d" "fmlookup m (seq_key x) = None"
  shows "0 < unat d"
proof -
  from assms(1) obtain k v where k: "range_first m (seq_key x) = Some (k, v)" "group_distance x k = Some d"
    by (auto simp: next_distance_def bind_eq_Some_conv)
  obtain z where z: "k = seq_key z" by (metis seq_key_stamp)
  from range_first_Some [OF k(1)] z assms(2) have "x \<noteq> z" by auto
  with k(2) z have "same_group x z" "d = lamport z - lamport x" "lamport z \<noteq> lamport x"
    by (auto simp: group_distance_key stamp_eq_iff place_of_def split: if_splits)
  then show ?thesis by (simp add: unat_gt_0)
qed

lemma unseen_from_spec:
  assumes l: "list_invar l" and x: "slots l x = None" and most: "0 < unat most"
  defines "d \<equiv> unseen_from l x most"
  shows "0 < unat d" "unat d \<le> unat most" "\<And>y. covers x d y \<Longrightarrow> slots l y = None"
proof -
  have free: "fmlookup (nodes l) (seq_key x) = None" "\<And>a. \<not> dead_at (dead l) x a"
    using x by (simp_all add: slots_None_iff [OF l])
  have head: "run_at (dead l) x = None"
    using free(2) covers_head [OF list_invarD(3) [OF l], of x] by (cases "run_at (dead l) x") (auto simp: dead_at_def)
  have min: "unat (min a b) = min (unat a) (unat b)" for a b :: u64
    by (simp add: min_def word_le_nat_alt)
  show "0 < unat d"
    using most free(1) head unfolding d_def unseen_from_alt
    by (auto simp: min split: option.split dest: next_distance_pos)
  show "unat d \<le> unat most"
    unfolding d_def unseen_from_alt by (auto simp: min split: option.split)
  have small: "unat d \<le> unat e" if "next_distance (nodes l) x = Some e \<or> next_distance (dead l) x = Some e" for e
    using that unfolding d_def unseen_from_alt by (auto simp: min split: option.split)
  fix y assume y: "covers x d y"
  then have yx: "same_group x y" "place_of x \<le> place_of y" "place_of y - place_of x < unat d"
    by (auto simp: covers_iff)
  show "slots l y = None"
  proof (rule ccontr)
    assume "slots l y \<noteq> None"
    then consider "fmlookup (nodes l) (seq_key y) \<noteq> None" | a where "dead_at (dead l) y a"
      by (auto simp: slots_None_iff [OF l])
    then show False
    proof cases
      case 1
      from next_distance_free [OF this yx(1,2)] small yx(3) show False by fastforce
    next
      case 2
      then obtain h r where h: "run_at (dead l) h = Some r" "covers h (run_len r) y"
        by (auto simp: dead_at_def)
      show False
      proof (cases "place_of x \<le> place_of h")
        case True
        have "same_group x h" using h yx by (auto simp: covers_iff intro: same_group_trans same_group_sym)
        from next_distance_free [OF _ this True, of "dead l"] h small yx(3) show False
          by (fastforce simp: covers_iff)
      next
        case False
        then have "covers h (run_len r) x"
          using h yx by (auto simp: covers_iff intro: same_group_trans same_group_sym)
        with h free(2) show False by (auto simp: dead_at_def)
      qed
    qed
  qed
qed

section \<open>Burying a run\<close>

text \<open>The ids from \<open>i\<close> up to \<open>j\<close> of a run, and what burying does to the slot of one.\<close>

definition stretch :: "stamp \<Rightarrow> nat \<Rightarrow> nat \<Rightarrow> stamp \<Rightarrow> bool" where
  "stretch head i j y \<longleftrightarrow> same_group head y \<and> place_of head + i \<le> place_of y \<and> place_of y < place_of head + j"

definition bury_slot :: "anchor \<Rightarrow> slot option \<Rightarrow> slot option" where
  "bury_slot a s = Some (DeadSlot (case s of None \<Rightarrow> a | Some s \<Rightarrow> slot_anchor s))"

definition buries :: "stamp \<Rightarrow> anchor \<Rightarrow> nat \<Rightarrow> nat \<Rightarrow> seq_list \<Rightarrow> seq_list \<Rightarrow> bool" where
  "buries head a i j l l' \<longleftrightarrow> list_invar l' \<and> same_list l l' \<and>
     (\<forall>y. slots l' y = (if stretch head i j y then bury_slot (chain_anchor head a y) (slots l y) else slots l y))"

lemma buries_trans:
  assumes "buries head a i j l l'" "buries head a j' k l' l''" "min j' k \<le> j" "j \<le> j'" "i \<le> j" "j \<le> k"
  shows "buries head a i k l l''"
proof -
  have "stretch head i k y \<longleftrightarrow> stretch head i j y \<or> stretch head j' k y" "\<not> (stretch head i j y \<and> stretch head j' k y)" for y
    using assms(3-) by (auto simp: stretch_def)
  then show ?thesis
    using assms(1,2) by (auto simp: buries_def same_list_def)
qed

lemma buries_none: "list_invar l \<Longrightarrow> j \<le> i \<Longrightarrow> buries head a i j l l"
  by (auto simp: buries_def same_list_def stretch_def)

lemma stretch_covers:
  "place_of x = place_of head + i \<Longrightarrow> same_group head x \<Longrightarrow> covers x d y \<longleftrightarrow> stretch head i (i + unat d) y"
  by (auto simp: covers_iff stretch_def intro: same_group_trans same_group_sym)

lemma bury_round_dead:
  assumes l: "list_invar l" and x: "same_group head x" "place_of x = place_of head + i"
    and r: "run_at (dead l) h = Some r" "covers h (run_len r) x"
  shows "buries head a i (min j (i + (place_of h + run_size r - place_of x))) l l"
proof -
  have "slots l y = bury_slot b (slots l y)" if "stretch head i (i + (place_of h + run_size r - place_of x)) y" for y b
  proof -
    have "covers h (run_len r) y"
      using that x r(2) by (auto simp: stretch_def covers_iff same_group_def)
    with r(1) obtain c where "dead_at (dead l) y c" by (auto simp: dead_at_def)
    then have "slots l y = Some (DeadSlot c)" by (simp add: slots_Dead_iff [OF l])
    then show ?thesis by (simp add: bury_slot_def)
  qed
  then show ?thesis
    using l by (auto simp: buries_def same_list_def stretch_def)
qed

lemma bury_round_node:
  assumes l: "list_invar l" and x: "same_group head x" "place_of x = place_of head + i"
    and n: "fmlookup (nodes l) (seq_key x) = Some n"
  shows "buries head a i (Suc i) l (add_dead x 1 (ln_anchor n) (l\<lparr>nodes := fmdrop (seq_key x) (nodes l)\<rparr>))"
proof -
  have "stretch head i (Suc i) y \<longleftrightarrow> y = x" for y
    using x by (auto simp: stretch_def stamp_eq_iff intro: same_group_trans same_group_sym)
  with bury_node_puts [OF l n] n show ?thesis
    by (auto simp: buries_def puts_def bury_slot_def slots_def)
qed

lemma add_dead_free:
  assumes l: "list_invar l" and d: "0 < unat d" "place_of x + unat d \<le> 2 ^ 63"
    and free: "\<And>y. covers x d y \<Longrightarrow> slots l y = None"
  shows "list_invar (add_dead x d a l)" "same_list l (add_dead x d a l)"
    "slots (add_dead x d a l) y = (if covers x d y then Some (DeadSlot (chain_anchor x a y)) else slots l y)"
proof -
  have "free_stretch (dead l) x d"
    using d free by (auto simp: free_stretch_def slots_None_iff [OF l])
  note add = add_dead_spec [OF list_invarD(2) [OF l] this, of a]
  have nodes: "nodes (add_dead x d a l) = nodes l" by (subst add(3)) simp
  show inv: "list_invar (add_dead x d a l)"
    using list_invarD [OF l] free
    by (intro list_invarI add(1)) (auto simp: nodes apart_def add(2) with_stretch_def slots_None_iff [OF l] split: if_splits)
  show "same_list l (add_dead x d a l)" by (subst add(3)) (simp add: same_list_def)
  show "slots (add_dead x d a l) y = (if covers x d y then Some (DeadSlot (chain_anchor x a y)) else slots l y)"
  proof (cases "covers x d y")
    case True
    then show ?thesis by (simp add: slots_Dead_iff [OF inv] add(2) with_stretch_def)
  next
    case False
    then show ?thesis
      by (intro slots_eqI [OF inv])
        (auto simp: nodes add(2) with_stretch_def slots_Dead_iff [OF l] slots_None_iff [OF l] slots_Live_iff)
  qed
qed

lemma bury_round_unseen:
  fixes a :: anchor
  assumes l: "list_invar l" and x: "x = run_id head i" "slots l x = None"
    and i: "i < len" "place_of head + unat len \<le> 2 ^ 63"
  defines "d \<equiv> unseen_from l x (len - i)"
  defines "p \<equiv> (if i = 0 then a else Anchor (Some (run_id head (i - 1))) RightSide)"
  shows "0 < unat d" "unat d \<le> unat len - unat i" "buries head a (unat i) (unat i + unat d) l (add_dead x d p l)"
proof -
  have place: "place_of x = place_of head + unat i" "same_group head x"
    using i x by (simp_all add: place_of_run_id word_less_nat_alt)
  have most: "unat (len - i) = unat len - unat i" using i by (simp add: unat_sub word_le_nat_alt word_less_nat_alt)
  have "0 < unat (len - i)" using i by (simp add: most word_less_nat_alt)
  note d = unseen_from_spec [OF l x(2) this, folded d_def]
  show "0 < unat d" "unat d \<le> unat len - unat i" using d most by simp_all
  have bound: "place_of x + unat d \<le> 2 ^ 63"
    using d(2) i place most by (simp add: word_less_nat_alt)
  note add = add_dead_free [OF l d(1) bound d(3), of p]
  have "chain_anchor x p y = chain_anchor head a y" if "covers x d y" for y
  proof (cases "i = 0")
    case True
    with x have "x = head" by (simp add: run_id_def)
    with True show ?thesis by (simp add: p_def)
  next
    case False
    then have "0 < unat i" by (simp add: unat_gt_0)
    moreover have "run_id head (i - 1) = pred_id x" by (simp add: x run_id_def pred_id_def)
    moreover have "y \<noteq> head" using that place \<open>0 < unat i\<close> by (auto simp: covers_iff)
    ultimately show ?thesis using False by (simp add: chain_anchor_def p_def)
  qed
  with add d(3) show "buries head a (unat i) (unat i + unat d) l (add_dead x d p l)"
    by (auto simp: buries_def bury_slot_def stretch_covers [OF place])
qed

lemma bury_from_spec:
  assumes "list_invar l" "place_of head + unat len \<le> 2 ^ 63" "unat len - unat i \<le> fuel"
  shows "\<exists>l'. bury_from fuel i head len a l = Some l' \<and> buries head a (unat i) (unat len) l l'"
  using assms
proof (induction fuel arbitrary: i l)
  case 0
  then show ?case
    by (subst bury_from.simps) (auto simp: word_less_nat_alt intro: buries_none)
next
  case (Suc fuel)
  show ?case
  proof (cases "i < len")
    case False
    with Suc.prems show ?thesis
      by (subst bury_from.simps) (auto simp: word_less_nat_alt intro: buries_none)
  next
    case True
    note l = Suc.prems(1)
    define x where "x = run_id head i"
    have i: "unat i < unat len" using True by (simp add: word_less_nat_alt)
    have place: "place_of x = place_of head + unat i" "same_group head x"
      using i Suc.prems(2) by (simp_all add: x_def place_of_run_id)
    have round: ?thesis
      if step: "bury_from (Suc fuel) i head len a l = bury_from fuel j head len a l'"
        and b: "buries head a (unat i) (min (unat len) (unat j)) l l'" and j: "unat i < unat j" for j l'
    proof -
      have "list_invar l'" using b by (simp add: buries_def)
      moreover have "unat len - unat j \<le> fuel" using Suc.prems(3) j by simp
      ultimately obtain l'' where l'': "bury_from fuel j head len a l' = Some l''"
        "buries head a (unat j) (unat len) l' l''"
        using Suc.IH Suc.prems(2) by blast
      have "buries head a (unat i) (unat len) l l''"
        using buries_trans [OF b l''(2)] i j by simp
      with step l''(1) show ?thesis by simp
    qed
    show ?thesis
    proof (cases "dead_run l x")
      case (Some hr)
      then obtain h r where hr: "dead_run l x = Some (h, r)" by (cases hr) auto
      then have r: "run_at (dead l) h = Some r" "covers h (run_len r) x"
        by (simp_all add: dead_run_iff list_invarD(3) [OF l])
      let ?rest = "run_len r - (lamport x - lamport h)"
      have le: "place_of h \<le> place_of x" "place_of x < place_of h + run_size r"
        using r(2) by (simp_all add: covers_iff)
      have bound: "place_of h + run_size r \<le> 2 ^ 63"
        using runs_apartD(2) [OF list_invarD(3) [OF l] r(1)] .
      have gap: "unat (lamport x - lamport h) = place_of x - place_of h"
        using le by (simp add: place_of_def unat_sub word_le_nat_alt)
      then have rest: "unat ?rest = place_of h + run_size r - place_of x"
        using le by (subst unat_sub) (auto simp: word_le_nat_alt)
      have sum: "unat (i + ?rest) = unat i + unat ?rest"
        using rest bound le place by (intro unat_len_add) simp
      show ?thesis
      proof (rule round)
        show "bury_from (Suc fuel) i head len a l = bury_from fuel (i + ?rest) head len a l"
          using True hr by (subst bury_from.simps) (simp add: x_def)
        show "buries head a (unat i) (min (unat len) (unat (i + ?rest))) l l"
          unfolding sum rest by (rule bury_round_dead [OF l place(2,1) r])
        show "unat i < unat (i + ?rest)" using sum rest le by simp
      qed
    next
      case None
      note nd = this
      show ?thesis
      proof (cases "fmlookup (nodes l) (seq_key x)")
        case (Some n)
        have suc: "unat (i + 1) = Suc (unat i)"
          using i Suc.prems(2) by (simp add: unat_len_add)
        have stop: "min (unat len) (Suc (unat i)) = Suc (unat i)" using i by simp
        show ?thesis
        proof (rule round)
          show "bury_from (Suc fuel) i head len a l = bury_from fuel (i + 1) head len a
              (add_dead x 1 (ln_anchor n) (l\<lparr>nodes := fmdrop (seq_key x) (nodes l)\<rparr>))"
            using True nd Some by (subst bury_from.simps) (simp add: x_def Let_def)
        qed (use bury_round_node [OF l place(2,1) Some] in \<open>simp_all add: suc stop\<close>)
      next
        case None
        have "slots l x = None" using None nd by (simp add: slots_def dead_anchor_of_def)
        note u = bury_round_unseen [OF l x_def this True Suc.prems(2)]
        let ?d = "unseen_from l x (len - i)"
        have sum: "unat (i + ?d) = unat i + unat ?d"
          using u(2) i Suc.prems(2) by (intro unat_len_add) simp
        have stop: "min (unat len) (unat i + unat ?d) = unat i + unat ?d" using u(2) i by simp
        show ?thesis
        proof (rule round)
          show "bury_from (Suc fuel) i head len a l = bury_from fuel (i + ?d) head len a
              (add_dead x ?d (if i = 0 then a else Anchor (Some (run_id head (i - 1))) RightSide) l)"
            using True nd None by (subst bury_from.simps) (simp add: x_def Let_def)
          show "buries head a (unat i) (min (unat len) (unat (i + ?d))) l
              (add_dead x ?d (if i = 0 then a else Anchor (Some (run_id head (i - 1))) RightSide) l)"
            unfolding sum stop by (rule u(3))
          show "unat i < unat (i + ?d)" unfolding sum using u(1) by simp
        qed
      qed
    qed
  qed
qed

lemma bury_spec:
  assumes "list_invar l" "place_of head + unat len \<le> 2 ^ 63"
  shows "\<exists>l'. bury head len a l = Some l' \<and> buries head a 0 (unat len) l l'"
  using bury_from_spec [OF assms, of 0 "unat len" a] by (simp add: bury_def)

section \<open>Merging\<close>

fun merge_live :: "element \<Rightarrow> anchor \<Rightarrow> bool \<Rightarrow> slot option \<Rightarrow> slot option" where
  "merge_live v a m None = Some (LiveSlot v a m)"
| "merge_live v a m (Some (DeadSlot b)) = Some (DeadSlot b)"
| "merge_live v a m (Some (LiveSlot w b k)) =
     (if element_kind_of v = element_kind_of w \<and> put_node_value v = put_node_value w
      then Some (LiveSlot w (min a b) k)
      else if claim_rank v a < claim_rank w b then Some (LiveSlot v a False)
      else Some (LiveSlot w b k))"

fun merge_slot :: "slot option \<Rightarrow> slot option \<Rightarrow> slot option" where
  "merge_slot s None = s"
| "merge_slot s (Some (LiveSlot v a m)) = merge_live v a m s"
| "merge_slot s (Some (DeadSlot b)) = bury_slot b s"

lemma merge_node_puts:
  assumes l: "list_invar l" and n: "ln_id n = x" "place_of x < 2 ^ 63"
  shows "puts l x (merge_live (ln_value n) (ln_anchor n) (moved_away n) (slots l x)) (merge_node (seq_key x) n l)"
proof (cases "slots l x")
  case None
  then show ?thesis using put_node_puts [OF l n] by (simp add: merge_node_def seated_slots n)
next
  case (Some s)
  show ?thesis
  proof (cases s)
    case (DeadSlot b)
    with Some show ?thesis using puts_refl [OF l Some] by (simp add: merge_node_def seated_slots n)
  next
    case (LiveSlot w b k)
    with Some obtain sn where sn: "fmlookup (nodes l) (seq_key x) = Some sn" "ln_value sn = w"
      "ln_anchor sn = b" "moved_away sn = k" by (auto simp: slots_Live_iff)
    have meet: "puts l x (Some (LiveSlot w (ln_anchor n) k))
        (l\<lparr>nodes := fmupd (seq_key x) (sn\<lparr>ln_anchor := ln_anchor n\<rparr>) (nodes l)\<rparr>)"
      using put_node_puts [OF l, of "sn\<lparr>ln_anchor := ln_anchor n\<rparr>" x] node_id [OF l sn(1)] sn n(2) Some LiveSlot
      by simp
    have refl: "puts l x (Some (LiveSlot w b k)) l" using Some LiveSlot l by (simp add: puts_refl)
    have seat: "puts l x (Some (LiveSlot (ln_value n) (ln_anchor n) False)) (seat x (ln_value n) (ln_anchor n) l)"
      using seat_puts [OF l n(2), of "ln_value n" "ln_anchor n"] Some LiveSlot by simp
    let ?r = "claim_rank (ln_value n) (ln_anchor n)" and ?same = "element_kind_of (ln_value n) = element_kind_of w \<and>
      put_node_value (ln_value n) = put_node_value w"
    have merge: "merge_node (seq_key x) n l =
      (if ?same
       then if ln_anchor n < b then l\<lparr>nodes := fmupd (seq_key x) (sn\<lparr>ln_anchor := ln_anchor n\<rparr>) (nodes l)\<rparr> else l
       else if ?r < claim_rank w b then seat x (ln_value n) (ln_anchor n) l else l)"
      by (simp add: merge_node_def seated_slots n Some LiveSlot sn Let_def claim_rank_def)
    show ?thesis
    proof (cases ?same)
      case True
      with merge meet refl show ?thesis
        by (cases "ln_anchor n < b") (simp_all add: Some LiveSlot min_absorb1 min_absorb2 not_less less_imp_le)
    next
      case False
      with merge seat refl show ?thesis by (simp only: Some LiveSlot merge_live.simps if_False split: if_split) simp
    qed
  qed
qed

lemma merge_nodes_slots:
  assumes "list_invar l" "distinct (map fst es)"
    and "\<And>k n. (k, n) \<in> set es \<Longrightarrow> k = seq_key (ln_id n) \<and> place_of (ln_id n) < 2 ^ 63"
  defines "l' \<equiv> fold (\<lambda>(k, n). merge_node k n) es l"
  shows "list_invar l' \<and> same_list l l' \<and>
    (\<forall>x. slots l' x = (case map_of es (seq_key x) of
       None \<Rightarrow> slots l x
     | Some n \<Rightarrow> merge_live (ln_value n) (ln_anchor n) (moved_away n) (slots l x)))"
  using assms(1-3) unfolding l'_def
proof (induction es arbitrary: l)
  case Nil
  then show ?case by (simp add: same_list_def)
next
  case (Cons e es)
  obtain k n where e: "e = (k, n)" by (cases e)
  from Cons.prems(3) [of k n] e have n: "k = seq_key (ln_id n)" "place_of (ln_id n) < 2 ^ 63" by simp_all
  note put = merge_node_puts [OF Cons.prems(1) refl n(2), folded n(1)]
  have new: "map_of es k = None" using Cons.prems(2) e by (simp add: map_of_eq_None_iff)
  have rest_distinct: "distinct (map fst es)" using Cons.prems(2) by simp
  have sub: "k = seq_key (ln_id n) \<and> place_of (ln_id n) < 2 ^ 63" if "(k, n) \<in> set es" for k n
    using Cons.prems(3) [of k n] that by simp
  have IH: "list_invar (fold (\<lambda>(k, n). merge_node k n) es l1) \<and> same_list l1 (fold (\<lambda>(k, n). merge_node k n) es l1) \<and>
    (\<forall>x. slots (fold (\<lambda>(k, n). merge_node k n) es l1) x = (case map_of es (seq_key x) of
       None \<Rightarrow> slots l1 x
     | Some n \<Rightarrow> merge_live (ln_value n) (ln_anchor n) (moved_away n) (slots l1 x)))"
    if "list_invar l1" for l1
    by (rule Cons.IH [OF that rest_distinct sub])
  show ?case
    using IH [OF putsD(1) [OF put]] putsD(2,3) [OF put] new n
    by (auto simp: e same_list_def split: option.split)
qed

lemma bury_slot_twice [simp]: "bury_slot a (bury_slot a s) = bury_slot a s"
  by (simp add: bury_slot_def)

lemma bury_runs_slots:
  assumes "list_invar l" "list_invar other"
    and "\<And>k r. (k, r) \<in> set es \<Longrightarrow> fmlookup (dead other) k = Some r"
  shows "\<exists>l'. fold (\<lambda>(k, run) acc. Option.bind acc (bury (seq_stamp k) (run_len run) (run_anchor run))) es (Some l) = Some l' \<and>
    list_invar l' \<and> same_list l l' \<and>
    (\<forall>x. slots l' x = (if \<exists>(k, r)\<in>set es. covers (seq_stamp k) (run_len r) x
       then bury_slot (the (dead_anchor_of other x)) (slots l x) else slots l x))"
  using assms(1,3)
proof (induction es arbitrary: l)
  case Nil
  then show ?case by (simp add: same_list_def)
next
  case (Cons e es)
  obtain k r where e: "e = (k, r)" by (cases e)
  define h where "h = seq_stamp k"
  have r: "run_at (dead other) h = Some r" using Cons.prems(2) e by (simp add: h_def)
  note ap = list_invarD(3) [OF assms(2)]
  from bury_spec [OF Cons.prems(1) runs_apartD(2) [OF ap r]]
  obtain l1 where l1: "bury h (run_len r) (run_anchor r) l = Some l1"
    "buries h (run_anchor r) 0 (run_size r) l l1" by blast
  have anchor: "chain_anchor h (run_anchor r) x = the (dead_anchor_of other x)" if "covers h (run_len r) x" for x
  proof -
    have "dead_at (dead other) x (chain_anchor h (run_anchor r) x)"
      using that r by (simp add: dead_at_covered [OF ap])
    then show ?thesis by (simp add: dead_anchor_of_invar [OF assms(2), THEN iffD2])
  qed
  have slots1: "slots l1 x = (if covers h (run_len r) x then bury_slot (the (dead_anchor_of other x)) (slots l x) else slots l x)" for x
    using l1(2) anchor [of x] by (auto simp: buries_def stretch_covers [of h h 0])
  have inv1: "list_invar l1" using l1(2) by (simp add: buries_def)
  have sub: "fmlookup (dead other) k = Some r" if "(k, r) \<in> set es" for k r
    using Cons.prems(2) [of k r] that by simp
  from Cons.IH [OF inv1 sub] obtain l' where
    "fold (\<lambda>(k, run) acc. Option.bind acc (bury (seq_stamp k) (run_len run) (run_anchor run))) es (Some l1) = Some l'"
    "list_invar l'" "same_list l1 l'"
    "\<And>x. slots l' x = (if \<exists>(k, r)\<in>set es. covers (seq_stamp k) (run_len r) x
       then bury_slot (the (dead_anchor_of other x)) (slots l1 x) else slots l1 x)"
    by blast
  moreover have "same_list l l1" using l1(2) by (simp add: buries_def)
  ultimately show ?case
    using l1(1) by (intro exI [of _ l']) (auto simp: e h_def [symmetric] same_list_def slots1)
qed

lemma bex_entries: "(\<exists>(k, v)\<in>set (sorted_list_of_fmap m). P k v) \<longleftrightarrow> (\<exists>k v. fmlookup m k = Some v \<and> P k v)"
  by (auto simp: Bex_def)

lemma list_merge_slots:
  assumes l: "list_invar l" and other: "list_invar other"
  shows "\<exists>l'. list_merge l other = Some l' \<and> list_invar l' \<and> same_list l l' \<and>
    (\<forall>x. slots l' x = merge_slot (slots l x) (slots other x))"
proof -
  let ?m = "fm_fold merge_node (nodes other) l"
  have ids: "k = seq_key (ln_id n) \<and> place_of (ln_id n) < 2 ^ 63"
    if "(k, n) \<in> set (sorted_list_of_fmap (nodes other))" for k n
  proof -
    obtain x where x: "k = seq_key x" by (metis seq_key_stamp)
    with that have n: "fmlookup (nodes other) (seq_key x) = Some n" by simp
    with list_invarD(1) [OF other] x show ?thesis by (simp add: node_ids_ok_def)
  qed
  have m: "list_invar ?m \<and> same_list l ?m \<and> (\<forall>x. slots ?m x =
      (case fmlookup (nodes other) (seq_key x) of
         None \<Rightarrow> slots l x
       | Some n \<Rightarrow> merge_live (ln_value n) (ln_anchor n) (moved_away n) (slots l x)))"
    using merge_nodes_slots [OF l distinct_sorted_list_of_fmap ids] by (simp add: fm_fold_def)
  then have inv: "list_invar ?m" by blast
  have runs: "fmlookup (dead other) k = Some r" if "(k, r) \<in> set (sorted_list_of_fmap (dead other))" for k r
    using that by simp
  have merge: "list_merge l other =
      fold (\<lambda>(k, run) acc. Option.bind acc (bury (seq_stamp k) (run_len run) (run_anchor run)))
        (sorted_list_of_fmap (dead other)) (Some ?m)"
    by (simp add: list_merge_def fm_fold_def)
  from bury_runs_slots [OF inv other, where es = "sorted_list_of_fmap (dead other)", OF runs] obtain l' where l':
    "list_merge l other = Some l'" "list_invar l'" "same_list ?m l'"
    "\<And>x. slots l' x = (if \<exists>(k, r)\<in>set (sorted_list_of_fmap (dead other)). covers (seq_stamp k) (run_len r) x
       then bury_slot (the (dead_anchor_of other x)) (slots ?m x) else slots ?m x)"
    unfolding merge by blast
  have covered: "(\<exists>(k, r)\<in>set (sorted_list_of_fmap (dead other)). covers (seq_stamp k) (run_len r) x) \<longleftrightarrow>
      (\<exists>a. slots other x = Some (DeadSlot a))" for x
    unfolding bex_entries slots_Dead_iff [OF other] dead_at_def by (metis seq_key_stamp seq_stamp_key)
  have "slots l' x = merge_slot (slots l x) (slots other x)" for x
  proof (cases "slots other x")
    case None
    then have "fmlookup (nodes other) (seq_key x) = None" by (simp add: slots_None_iff [OF other])
    with None m l'(4) covered [of x] show ?thesis by simp
  next
    case (Some s)
    show ?thesis
    proof (cases s)
      case (LiveSlot v a k)
      with Some obtain n where "fmlookup (nodes other) (seq_key x) = Some n" "ln_value n = v"
        "ln_anchor n = a" "moved_away n = k" by (auto simp: slots_Live_iff)
      with Some LiveSlot m l'(4) covered [of x] show ?thesis by simp
    next
      case (DeadSlot a)
      with Some have d: "dead_at (dead other) x a" by (simp add: slots_Dead_iff [OF other])
      then have "fmlookup (nodes other) (seq_key x) = None" "dead_anchor_of other x = Some a"
        by (simp_all add: dead_not_node [OF other] dead_anchor_of_invar [OF other])
      with Some DeadSlot m l'(4) covered [of x] show ?thesis by simp
    qed
  qed
  moreover have "same_list l l'" using m l'(3) by (simp add: same_list_def)
  ultimately show ?thesis using l' by blast
qed

section \<open>Merging histories\<close>

fun claims_agree :: "seq_op \<Rightarrow> seq_op \<Rightarrow> bool" where
  "claims_agree (Claim x v a) (Claim y w b) = (x = y \<longrightarrow> v = w \<and> a = b)"
| "claims_agree _ _ = True"

definition one_claim :: "seq_op list \<Rightarrow> bool" where
  "one_claim ops \<longleftrightarrow> list_all (\<lambda>p. list_all (claims_agree p) ops) ops"

lemma one_claimD: "one_claim ops \<Longrightarrow> Claim x v a \<in> set ops \<Longrightarrow> Claim x w b \<in> set ops \<Longrightarrow> v = w \<and> a = b"
  by (fastforce simp: one_claim_def list_all_iff)

lemma one_kind_of_one_claim: "one_claim ops \<Longrightarrow> one_kind ops"
proof -
  have "claims_agree p q \<Longrightarrow> kinds_agree p q" for p q
    by (cases "(p, q)" rule: claims_agree.cases) auto
  then show "one_claim ops \<Longrightarrow> one_kind ops"
    by (auto simp: one_claim_def one_kind_def list_all_iff)
qed

lemma causal_append: "causal prior xs \<Longrightarrow> causal [] ys \<Longrightarrow> causal prior (xs @ ys)"
proof (induction prior xs rule: causal.induct)
  case (1 prior)
  have "causal s ys \<Longrightarrow> set s \<subseteq> set s' \<Longrightarrow> causal s' ys" for s s'
    by (induction s ys arbitrary: s' rule: causal.induct) (simp, simp add: subset_insertI2, auto)
  from this [of "[]" prior] 1 show ?case by simp
qed auto

lemma history_append:
  "history xs \<Longrightarrow> history ys \<Longrightarrow> one_claim (xs @ ys) \<Longrightarrow> history (xs @ ys)"
  by (simp add: history_def causal_append one_kind_of_one_claim)

lemma wins_one_claim: "one_claim ops \<Longrightarrow> set xs \<subseteq> set ops \<Longrightarrow> wins (set xs) x v a \<longleftrightarrow> Claim x v a \<in> set xs"
  by (fastforce simp: wins_def dest: one_claimD)

lemma left_at_merge:
  assumes one: "one_claim (xs @ ys)" and "history xs" "history ys"
    and s: "left_at (set xs) x s" and t: "left_at (set ys) x t"
  shows "left_at (set (xs @ ys)) x (merge_slot s t)"
proof -
  have w: "wins (set xs) x v a \<longleftrightarrow> Claim x v a \<in> set xs" "wins (set ys) x v a \<longleftrightarrow> Claim x v a \<in> set ys"
    "wins (set (xs @ ys)) x v a \<longleftrightarrow> Claim x v a \<in> set (xs @ ys)" for v a
    using wins_one_claim [OF one, of xs] wins_one_claim [OF one, of ys] wins_one_claim [OF one, of "xs @ ys"]
    by simp_all
  have dels: "Delete x \<in> set xs \<Longrightarrow> claimed (set xs) x" "Delete x \<in> set ys \<Longrightarrow> claimed (set ys) x"
    using assms(2,3) by (simp_all add: history_causal)
  have cl: "claimed (set (xs @ ys)) x \<longleftrightarrow> claimed (set xs) x \<or> claimed (set ys) x"
    by (auto simp: claimed_def)
  show ?thesis
  proof (cases "claimed (set xs) x")
    case False
    with s have "s = None" by (simp add: left_at_def)
    moreover have "merge_slot None t = t"
      using t by (auto simp: left_at_def bury_slot_def split: if_splits)
    moreover have "Delete x \<notin> set xs" "\<And>v a. Claim x v a \<notin> set xs"
      using False dels by (auto simp: claimed_def)
    ultimately show ?thesis
      using t cl False by (simp add: left_at_def w del: set_append) (auto simp: w split: if_splits)
  next
    case True
    with s obtain v a where v: "Claim x v a \<in> set xs"
      and s': "s = Some (if Delete x \<in> set xs then DeadSlot a else LiveSlot v a False)"
      by (auto simp: left_at_def w)
    have both: "w = v \<and> b = a" if "Claim x w b \<in> set ys" for w b
      using one_claimD [OF one, of x v a w b] v that by auto
    have "merge_slot s t = Some (if Delete x \<in> set (xs @ ys) then DeadSlot a else LiveSlot v a False)"
    proof (cases "claimed (set ys) x")
      case True
      with t obtain w b where "Claim x w b \<in> set ys"
        "t = Some (if Delete x \<in> set ys then DeadSlot b else LiveSlot w b False)"
        by (auto simp: left_at_def w)
      with both s' show ?thesis by (auto simp: bury_slot_def)
    next
      case False
      with t dels have "t = None" "Delete x \<notin> set ys" by (auto simp: left_at_def)
      with s' show ?thesis by simp
    qed
    moreover have "wins (set (xs @ ys)) x v a" using v by (simp add: w del: set_append) simp
    ultimately show ?thesis using True cl by (auto simp: left_at_def simp del: set_append)
  qed
qed

text \<open>Merging always ends, keeps the invariant and merges slot by slot: nothing is lost that
  either side holds, a delete on either side wins, and two live claims go to the claim of lesser
  rank.\<close>

theorem sequence_merge_slotwise:
  assumes "list_invar l" "list_invar other"
  shows "\<exists>l'. list_merge l other = Some l' \<and> list_invar l' \<and>
    (\<forall>x. slots l' x = merge_slot (slots l x) (slots other x))"
  using list_merge_slots [OF assms] by blast

text \<open>Where every id is claimed once, merging two replicas gives the sequence that received both
  histories, whichever of them receives the other.\<close>

theorem sequence_merge_histories:
  assumes "history xs" "history ys" "one_claim (xs @ ys)"
  shows "list_merge (run_ops i xs) (run_ops i ys) = Some (run_ops i (xs @ ys))"
proof -
  note xs = run_ops_left [OF assms(1), of i] and ys = run_ops_left [OF assms(2), of i]
  have h: "history (xs @ ys)" using assms by (rule history_append)
  note zs = run_ops_left [OF h, of i]
  obtain l where l: "list_merge (run_ops i xs) (run_ops i ys) = Some l" "list_invar l"
    "same_list (run_ops i xs) l" "\<And>x. slots l x = merge_slot (slots (run_ops i xs) x) (slots (run_ops i ys) x)"
    using list_merge_slots [of "run_ops i xs" "run_ops i ys"] xs ys by blast
  have "left_at (set (xs @ ys)) x (slots l x)" for x
    unfolding l(4) using left_at_merge [OF assms(3,1,2)] xs ys by blast
  then have "slots l x = slots (run_ops i (xs @ ys)) x" for x
    using left_at_unique [OF history_ops_ok [OF h]] zs by blast
  moreover have "same_list l (run_ops i (xs @ ys))"
    using l(3) xs zs by (simp add: same_list_def)
  ultimately have "l = run_ops i (xs @ ys)"
    using l(2) zs by (intro slots_canonical) auto
  with l(1) show ?thesis by simp
qed

definition sample_left :: "seq_op list" where
  "sample_left = [Claim (sample_id 1) (int_node 10) at_start, Claim (sample_id 2) (int_node 20) (right_of 1),
     Delete (sample_id 2)]"

definition sample_right :: "seq_op list" where
  "sample_right = [Claim (sample_id 1) (int_node 10) at_start, Delete (sample_id 1),
     Claim (sample_id 4) (int_node 40) (right_of 1)]"

lemma sample_sides: "history sample_left" "history sample_right" "one_claim (sample_left @ sample_right)"
  by (auto simp: history_def sample_left_def sample_right_def one_kind_def one_claim_def place_of_def sample_id_def
      int_node_def encodable_int_node [unfolded int_node_def])

theorem sequence_merge_slotwise_witness:
  "\<exists>l'. list_merge (run_ops sample_list sample_left) (run_ops sample_list sample_right) = Some l' \<and> list_invar l' \<and>
    (\<forall>x. slots l' x = merge_slot (slots (run_ops sample_list sample_left) x) (slots (run_ops sample_list sample_right) x))"
  using run_ops_left [OF sample_sides(1)] run_ops_left [OF sample_sides(2)]
  by (intro sequence_merge_slotwise) blast+

theorem sequence_merge_histories_witness:
  "list_merge (run_ops sample_list sample_left) (run_ops sample_list sample_right) =
     Some (run_ops sample_list (sample_left @ sample_right))"
  by (rule sequence_merge_histories [OF sample_sides])

definition buried_near :: "seq_op list" where
  "buried_near = [Claim (sample_id 1) (int_node 10) at_start, Delete (sample_id 1)]"

definition buried_far :: "seq_op list" where
  "buried_far = [Claim (sample_id 1) (int_node 10) (right_of 5), Delete (sample_id 1)]"

text \<open>Two replicas that buried an id after different claims on it keep their own anchor when
  they merge: the merge depends on which side receives.\<close>

theorem merge_keeps_own_anchor:
  "\<exists>l l'. list_merge (run_ops i buried_near) (run_ops i buried_far) = Some l \<and>
     list_merge (run_ops i buried_far) (run_ops i buried_near) = Some l' \<and>
     slots l (sample_id 1) = Some (DeadSlot at_start) \<and>
     slots l' (sample_id 1) = Some (DeadSlot (right_of 5))"
proof -
  have h: "history buried_near" "history buried_far"
    by (auto simp: history_def buried_near_def buried_far_def one_kind_def place_of_def sample_id_def)
  have "slots (run_ops i buried_near) (sample_id 1) = Some (DeadSlot at_start)"
    "slots (run_ops i buried_far) (sample_id 1) = Some (DeadSlot (right_of 5))"
    using h by (simp_all only: run_ops_slots history_def list_new_ok)
      (simp_all add: buried_near_def buried_far_def)
  then show ?thesis
    using list_merge_slots [of "run_ops i buried_near" "run_ops i buried_far"]
      list_merge_slots [of "run_ops i buried_far" "run_ops i buried_near"]
      run_ops_left [OF h(1), of i] run_ops_left [OF h(2), of i]
    by (auto simp: bury_slot_def)
qed

end
