(* ===== verification/Sequence_Order.thy ===== *)
theory Sequence_Order
  imports Sequence_Merge
begin

text \<open>
  \<^verbatim>\<open>list.rs\<close>, the sequence order: the records grouped by the anchor of their first id, with the
  runs cut where another record attaches inside them, the walk over the resulting tree with an
  explicit stack, and the reads and edits by position that rest on it.
\<close>

section \<open>Records of the walk\<close>

datatype seq_span = NodeSpan stamp | DeadSpan stamp u64

fun span_head :: "seq_span \<Rightarrow> stamp" where
  "span_head (NodeSpan x) = x"
| "span_head (DeadSpan h n) = h"

fun span_last :: "seq_span \<Rightarrow> stamp" where
  "span_last (NodeSpan x) = x"
| "span_last (DeadSpan h n) = run_id h (n - 1)"

text \<open>The cut an anchor makes in the run that its parent lies in.\<close>

definition cut_at :: "seq_list \<Rightarrow> anchor \<Rightarrow> (skey \<times> u64) option" where
  "cut_at l a =
     (case parent a of
        None \<Rightarrow> None
      | Some p \<Rightarrow>
          (case dead_run l p of
             None \<Rightarrow> None
           | Some (head, run) \<Rightarrow>
               (let pos = lamport p - lamport head;
                    cut = (case side a of LeftSide \<Rightarrow> pos | RightSide \<Rightarrow> pos + 1)
                in if 0 < cut \<and> cut < run_len run then Some (seq_key head, cut) else None)))"

definition list_anchors :: "seq_list \<Rightarrow> anchor list" where
  "list_anchors l = map ln_anchor (fm_values (nodes l)) @ map run_anchor (fm_values (dead l))"

definition add_cut :: "skey \<times> u64 \<Rightarrow> (skey, u64 list) fmap \<Rightarrow> (skey, u64 list) fmap" where
  "add_cut kc m =
     fmupd (fst kc) (insort_insert (snd kc) (case fmlookup m (fst kc) of None \<Rightarrow> [] | Some cs \<Rightarrow> cs)) m"

definition cuts :: "seq_list \<Rightarrow> (skey, u64 list) fmap" where
  "cuts l = fold add_cut (List.map_filter (cut_at l) (list_anchors l)) fmempty"

definition push_span :: "anchor \<times> seq_span \<Rightarrow> (anchor, seq_span list) fmap \<Rightarrow> (anchor, seq_span list) fmap" where
  "push_span e m =
     fmupd (fst e) ((case fmlookup m (fst e) of None \<Rightarrow> [] | Some ss \<Rightarrow> ss) @ [snd e]) m"

text \<open>The pieces of a run, each with the anchor of its first id.\<close>

fun pieces :: "stamp \<Rightarrow> u64 list \<Rightarrow> u64 \<Rightarrow> anchor \<Rightarrow> (anchor \<times> seq_span) list" where
  "pieces head [] start a = []"
| "pieces head (stop # ends) start a =
     (a, DeadSpan (run_id head start) (stop - start)) #
     pieces head ends stop (Anchor (Some (run_id head (stop - 1))) RightSide)"

definition run_pieces :: "seq_list \<Rightarrow> skey \<times> deadrun \<Rightarrow> (anchor \<times> seq_span) list" where
  "run_pieces l e =
     pieces (seq_stamp (fst e))
       ((case fmlookup (cuts l) (fst e) of None \<Rightarrow> [] | Some cs \<Rightarrow> cs) @ [run_len (snd e)])
       0 (run_anchor (snd e))"

definition anchored_spans :: "seq_list \<Rightarrow> (anchor \<times> seq_span) list" where
  "anchored_spans l =
     map (\<lambda>n. (ln_anchor n, NodeSpan (ln_id n))) (fm_values (nodes l)) @
     concat (map (run_pieces l) (sorted_list_of_fmap (dead l)))"

definition children :: "seq_list \<Rightarrow> (anchor, seq_span list) fmap" where
  "children l = fmmap (sort_key span_head) (fold push_span (anchored_spans l) fmempty)"

section \<open>The walk\<close>

datatype walk_step = Emit seq_span | Expand "seq_span option"

definition bucket :: "(anchor, seq_span list) fmap \<Rightarrow> stamp option \<Rightarrow> side \<Rightarrow> seq_span list" where
  "bucket m p sd = (case fmlookup m (Anchor p sd) of None \<Rightarrow> [] | Some ss \<Rightarrow> ss)"

definition push_expand :: "seq_span list \<Rightarrow> walk_step list \<Rightarrow> walk_step list" where
  "push_expand ss stack = fold (\<lambda>s st. Expand (Some s) # st) (rev ss) stack"

definition expand :: "(anchor, seq_span list) fmap \<Rightarrow> seq_span option \<Rightarrow> walk_step list \<Rightarrow> walk_step list" where
  "expand m p stack =
     (let stack = push_expand (bucket m (map_option span_last p) RightSide) stack;
          stack = (case p of None \<Rightarrow> stack | Some s \<Rightarrow> Emit s # stack)
      in push_expand (bucket m (map_option span_head p) LeftSide) stack)"

fun walk_spans :: "nat \<Rightarrow> (anchor, seq_span list) fmap \<Rightarrow> walk_step list \<Rightarrow> seq_span list \<Rightarrow> seq_span list option" where
  "walk_spans fuel m [] out = Some out"
| "walk_spans 0 m (st # stack) out = None"
| "walk_spans (Suc fuel) m (Emit s # stack) out = walk_spans fuel m stack (out @ [s])"
| "walk_spans (Suc fuel) m (Expand p # stack) out = walk_spans fuel m (expand m p stack) out"

text \<open>Every record is expanded and emitted at most once, and the root is expanded.\<close>

definition walk_fuel :: "seq_list \<Rightarrow> nat" where
  "walk_fuel l = Suc (2 * length (anchored_spans l))"

definition tree_order :: "seq_list \<Rightarrow> seq_span list option" where
  "tree_order l = walk_spans (walk_fuel l) (children l) [Expand None] []"

text \<open>\<open>nodes[&key]\<close> of an id that is a node.\<close>

definition hidden :: "seq_list \<Rightarrow> stamp \<Rightarrow> bool" where
  "hidden l x = (case fmlookup (nodes l) (seq_key x) of None \<Rightarrow> True | Some n \<Rightarrow> moved_away n)"

fun live_span :: "seq_list \<Rightarrow> seq_span \<Rightarrow> stamp option" where
  "live_span l (NodeSpan x) = (if hidden l x then None else Some x)"
| "live_span l (DeadSpan h n) = None"

definition live_order :: "seq_list \<Rightarrow> stamp list option" where
  "live_order l = map_option (List.map_filter (live_span l)) (tree_order l)"

section \<open>Reading by position\<close>

definition node_at :: "nat \<Rightarrow> seq_list \<Rightarrow> stamp option option" where
  "node_at i l = map_option (\<lambda>xs. if i < length xs then Some (xs ! i) else None) (live_order l)"

definition node_ids :: "nat \<Rightarrow> nat \<Rightarrow> seq_list \<Rightarrow> stamp list option" where
  "node_ids i n l = map_option (\<lambda>xs. take n (drop i xs)) (live_order l)"

definition list_get :: "nat \<Rightarrow> seq_list \<Rightarrow> element option option" where
  "list_get i l = map_option (\<lambda>x. Option.bind x (node_value l)) (node_at i l)"

definition list_values :: "seq_list \<Rightarrow> element list option" where
  "list_values l = map_option (List.map_filter (node_value l)) (live_order l)"

fun position :: "'a \<Rightarrow> 'a list \<Rightarrow> nat option" where
  "position x [] = None"
| "position x (y # ys) = (if y = x then Some 0 else map_option Suc (position x ys))"

definition live_index :: "stamp \<Rightarrow> seq_list \<Rightarrow> nat option option" where
  "live_index x l = map_option (position x) (live_order l)"

definition relative_position_at :: "nat \<Rightarrow> side \<Rightarrow> seq_list \<Rightarrow> relative_position option" where
  "relative_position_at i sd l =
     (let i = min i (list_len l)
      in case sd of
           LeftSide \<Rightarrow>
             (if i = 0 then Some PosStart
              else map_option (\<lambda>x. case x of Some x \<Rightarrow> PosAfter x | None \<Rightarrow> PosStart) (node_at (i - 1) l))
         | RightSide \<Rightarrow>
             map_option (\<lambda>x. case x of Some x \<Rightarrow> PosBefore x | None \<Rightarrow> PosEnd) (node_at i l))"

fun rank_from :: "seq_list \<Rightarrow> stamp \<Rightarrow> nat \<Rightarrow> seq_span list \<Rightarrow> (nat \<times> bool) option" where
  "rank_from l x prior [] = None"
| "rank_from l x prior (NodeSpan s # spans) =
     (if s = x then Some (prior, \<not> hidden l s)
      else rank_from l x (if hidden l s then prior else Suc prior) spans)"
| "rank_from l x prior (DeadSpan h n # spans) =
     (if covers h n x then Some (prior, False) else rank_from l x prior spans)"

definition live_rank :: "stamp \<Rightarrow> seq_list \<Rightarrow> (nat \<times> bool) option option" where
  "live_rank x l = map_option (rank_from l x 0) (tree_order l)"

definition resolve_before :: "stamp \<Rightarrow> seq_list \<Rightarrow> nat option" where
  "resolve_before x l =
     map_option (\<lambda>r. case r of Some (prior, _) \<Rightarrow> prior | None \<Rightarrow> list_len l) (live_rank x l)"

definition resolve_after :: "stamp \<Rightarrow> seq_list \<Rightarrow> nat option" where
  "resolve_after x l =
     map_option (\<lambda>r. case r of Some (prior, live) \<Rightarrow> prior + (if live then 1 else 0) | None \<Rightarrow> 0) (live_rank x l)"

fun resolve_position :: "relative_position \<Rightarrow> seq_list \<Rightarrow> nat option" where
  "resolve_position PosStart l = Some 0"
| "resolve_position PosEnd l = Some (list_len l)"
| "resolve_position (PosBefore x) l = resolve_before x l"
| "resolve_position (PosAfter x) l = resolve_after x l"

fun resolve_position_present :: "relative_position \<Rightarrow> seq_list \<Rightarrow> nat option option" where
  "resolve_position_present PosStart l = Some (Some 0)"
| "resolve_position_present PosEnd l = Some (Some (list_len l))"
| "resolve_position_present (PosBefore x) l = map_option (map_option fst) (live_rank x l)"
| "resolve_position_present (PosAfter x) l =
     map_option (map_option (\<lambda>(prior, live). prior + (if live then 1 else 0))) (live_rank x l)"

section \<open>Editing by position\<close>

text \<open>The first index at which \<open>index\<close> live nodes have been passed, or the end.\<close>

fun boundary_from :: "seq_list \<Rightarrow> stamp option \<Rightarrow> nat \<Rightarrow> nat \<Rightarrow> seq_span list \<Rightarrow> nat" where
  "boundary_from l exclude index live [] = 0"
| "boundary_from l exclude index live (s # spans) =
     (if live = index then 0
      else Suc (boundary_from l exclude index
        (case s of
           NodeSpan x \<Rightarrow> (if \<not> hidden l x \<and> Some x \<noteq> exclude then Suc live else live)
         | DeadSpan _ _ \<Rightarrow> live) spans))"

definition gap_excluding ::
  "seq_span list \<Rightarrow> nat \<Rightarrow> stamp option \<Rightarrow> seq_list \<Rightarrow> stamp option \<times> stamp option" where
  "gap_excluding order index exclude l =
     (let boundary = boundary_from l exclude index 0 order
      in (if 0 < boundary then Some (span_last (order ! (boundary - 1))) else None,
          if boundary < length order then Some (span_head (order ! boundary)) else None))"

definition has_right_child :: "stamp \<Rightarrow> seq_list \<Rightarrow> bool" where
  "has_right_child p l \<longleftrightarrow>
     (case dead_run l p of
        None \<Rightarrow> False
      | Some (head, run) \<Rightarrow> p \<noteq> run_id head (run_len run - 1)) \<or>
     list_ex (\<lambda>n. ln_anchor n = Anchor (Some p) RightSide) (fm_values (nodes l)) \<or>
     list_ex (\<lambda>r. run_anchor r = Anchor (Some p) RightSide) (fm_values (dead l))"

fun placement :: "stamp option \<Rightarrow> stamp option \<Rightarrow> seq_list \<Rightarrow> anchor" where
  "placement (Some p) None l = Anchor (Some p) RightSide"
| "placement (Some p) (Some r) l =
     (if \<not> has_right_child p l then Anchor (Some p) RightSide else Anchor (Some r) LeftSide)"
| "placement None (Some r) l = Anchor (Some r) LeftSide"
| "placement None None l = Anchor None RightSide"

definition place_excluding :: "nat \<Rightarrow> stamp option \<Rightarrow> seq_list \<Rightarrow> anchor option" where
  "place_excluding index exclude l =
     map_option (\<lambda>order. case gap_excluding order index exclude l of (left, right) \<Rightarrow> placement left right l)
       (tree_order l)"

definition list_place :: "nat \<Rightarrow> seq_list \<Rightarrow> anchor option" where
  "list_place index l = place_excluding index None l"

definition list_insert :: "nat \<Rightarrow> element \<Rightarrow> stamp \<Rightarrow> seq_list \<Rightarrow> seq_list option" where
  "list_insert index v x l =
     (if list_contains l x then Some l
      else map_option (\<lambda>a. insert_at x v a l) (list_place index l))"

definition list_delete :: "nat \<Rightarrow> seq_list \<Rightarrow> seq_list option" where
  "list_delete index l =
     map_option (\<lambda>x. case x of None \<Rightarrow> l | Some x \<Rightarrow> delete_id x l) (node_at index l)"

end
