(* ===== verification/Sequence_Forest.thy ===== *)
theory Sequence_Forest
  imports Sequence_Order
begin

text \<open>
  The order of a sequence, independent of how it is stored. Every id hangs to the left or to the
  right of another or of the root; the path of an id is the steps down to it. Ids are ordered by
  their paths: left children, the id itself, right children, and children of one side by their
  stamps. The locale \<open>span_forest\<close> states what the walk relies on when ids are stored in spans, and
  shows inside it that the walk visits exactly the ids that have a path, in the order of the paths.
\<close>

section \<open>Paths\<close>

type_synonym path = "(side \<times> stamp) list"

fun path_less :: "path \<Rightarrow> path \<Rightarrow> bool" where
  "path_less [] [] = False"
| "path_less [] ((sd, x) # ps) = (sd = RightSide)"
| "path_less ((sd, x) # ps) [] = (sd = LeftSide)"
| "path_less ((sd, x) # ps) ((sd', y) # qs) =
     (sd < sd' \<or> sd = sd' \<and> (x < y \<or> x = y \<and> path_less ps qs))"

inductive path_to :: "(stamp \<Rightarrow> anchor option) \<Rightarrow> stamp \<Rightarrow> path \<Rightarrow> bool" for anc where
  path_root: "anc x = Some (Anchor None sd) \<Longrightarrow> path_to anc x [(sd, x)]"
| path_step: "anc x = Some (Anchor (Some p) sd) \<Longrightarrow> path_to anc p ps \<Longrightarrow> path_to anc x (ps @ [(sd, x)])"

inductive_cases path_toE: "path_to anc x ps"

lemma path_last: "path_to anc x ps \<Longrightarrow> ps \<noteq> [] \<and> snd (last ps) = x"
  by (auto elim: path_toE)

lemma path_ends: "path_to anc x ps \<Longrightarrow> path_to anc y ps \<Longrightarrow> x = y"
  using path_last by metis

lemma path_unique: "path_to anc x ps \<Longrightarrow> path_to anc x qs \<Longrightarrow> ps = qs"
proof (induction arbitrary: qs rule: path_to.induct)
  case (path_root x sd)
  then show ?case by (auto elim: path_toE)
next
  case (path_step x p sd ps)
  from path_step.prems path_step.hyps(1) obtain qs' where "qs = qs' @ [(sd, x)]" "path_to anc p qs'"
    by (auto elim: path_toE)
  with path_step.IH show ?case by simp
qed

lemma path_snoc:
  "path_to anc x (ps @ [(sd, y)]) \<longleftrightarrow> x = y \<and>
     (if ps = [] then anc x = Some (Anchor None sd)
      else \<exists>p. anc x = Some (Anchor (Some p) sd) \<and> path_to anc p ps)"
proof
  assume "path_to anc x (ps @ [(sd, y)])"
  then show "x = y \<and> (if ps = [] then anc x = Some (Anchor None sd)
      else \<exists>p. anc x = Some (Anchor (Some p) sd) \<and> path_to anc p ps)"
    by (cases rule: path_to.cases) (auto dest: path_last)
next
  assume "x = y \<and> (if ps = [] then anc x = Some (Anchor None sd)
      else \<exists>p. anc x = Some (Anchor (Some p) sd) \<and> path_to anc p ps)"
  then show "path_to anc x (ps @ [(sd, y)])"
    using path_to.intros by (cases "ps = []") auto
qed

lemma path_prefix: "path_to anc x (ps @ (sd, y) # qs) \<Longrightarrow> path_to anc y (ps @ [(sd, y)])"
proof (induction qs arbitrary: x rule: rev_induct)
  case Nil
  then have "x = y" by (simp add: path_snoc)
  with Nil show ?case by simp
next
  case (snoc q qs)
  obtain sd' z where q: "q = (sd', z)" by (cases q)
  have "path_to anc x ((ps @ (sd, y) # qs) @ [(sd', z)])" using snoc.prems q by simp
  then obtain p where "path_to anc p (ps @ (sd, y) # qs)" unfolding path_snoc by auto
  then show ?case by (rule snoc.IH)
qed

lemma path_less_append [simp]: "path_less (ps @ qs) (ps @ rs) \<longleftrightarrow> path_less qs rs"
  by (induction ps) auto

lemma path_less_irrefl [simp]: "\<not> path_less ps ps"
  by (induction ps) auto

lemma path_less_trans: "path_less ps qs \<Longrightarrow> path_less qs rs \<Longrightarrow> path_less ps rs"
proof (induction ps qs arbitrary: rs rule: path_less.induct)
  case (2 sd x ps)
  then show ?case by (cases rs) (auto simp: less_side_def)
next
  case (3 sd x ps)
  then show ?case by (cases rs) (auto simp: less_side_def)
next
  case (4 sd x ps sd' y qs)
  then show ?case by (cases rs) (auto simp: less_side_def)
qed simp

lemma path_less_total: "ps \<noteq> qs \<Longrightarrow> path_less ps qs \<or> path_less qs ps"
proof (induction ps qs rule: path_less.induct)
  case (2 sd x ps)
  then show ?case by (cases sd) auto
next
  case (3 sd x ps)
  then show ?case by (cases sd) auto
qed (auto simp: neq_iff)

definition precedes :: "(stamp \<Rightarrow> anchor option) \<Rightarrow> stamp \<Rightarrow> stamp \<Rightarrow> bool" where
  "precedes anc x y \<longleftrightarrow> (\<exists>ps qs. path_to anc x ps \<and> path_to anc y qs \<and> path_less ps qs)"

definition rooted_at :: "(stamp \<Rightarrow> anchor option) \<Rightarrow> stamp \<Rightarrow> bool" where
  "rooted_at anc x \<longleftrightarrow> (\<exists>ps. path_to anc x ps)"

lemma rooted_anchor: "rooted_at anc x \<Longrightarrow> anc x \<noteq> None"
  unfolding rooted_at_def by (auto elim: path_to.cases)

lemma before_irrefl [simp]: "\<not> precedes anc x x"
  by (auto simp: precedes_def dest: path_unique)

lemma before_trans: "precedes anc x y \<Longrightarrow> precedes anc y z \<Longrightarrow> precedes anc x z"
  unfolding precedes_def by (metis path_less_trans path_unique)

lemma before_total: "rooted_at anc x \<Longrightarrow> rooted_at anc y \<Longrightarrow> x \<noteq> y \<Longrightarrow> precedes anc x y \<or> precedes anc y x"
  unfolding precedes_def rooted_at_def by (metis path_ends path_less_total)

text \<open>The ids below a path.\<close>

definition below :: "(stamp \<Rightarrow> anchor option) \<Rightarrow> path \<Rightarrow> stamp set" where
  "below anc ps = {x. \<exists>qs. path_to anc x (ps @ qs)}"

lemma belowI: "path_to anc x (ps @ qs) \<Longrightarrow> x \<in> below anc ps"
  by (auto simp: below_def)

lemma below_Nil: "below anc [] = {x. rooted_at anc x}"
  by (auto simp: below_def rooted_at_def)

lemma before_below:
  assumes "x \<in> below anc (ps @ [a])" "y \<in> below anc (ps @ [b])" "\<And>qs rs. path_less (a # qs) (b # rs)"
  shows "precedes anc x y"
proof -
  from assms(1,2) obtain qs rs where "path_to anc x (ps @ a # qs)" "path_to anc y (ps @ b # rs)"
    by (auto simp: below_def)
  with assms(3) show ?thesis unfolding precedes_def by (metis path_less_append)
qed

lemma before_left_of: "x \<in> below anc (ps @ [(LeftSide, y)]) \<Longrightarrow> path_to anc z ps \<Longrightarrow> precedes anc x z"
  unfolding precedes_def below_def by (force simp: path_less_append [of ps _ "[]", simplified])

lemma before_right_of: "x \<in> below anc (ps @ (RightSide, y) # qs) \<Longrightarrow> path_to anc z ps \<Longrightarrow> precedes anc z x"
  unfolding precedes_def below_def by (force simp: path_less_append [of ps "[]", simplified])

section \<open>Spans\<close>

definition span_size :: "seq_span \<Rightarrow> nat" where
  "span_size s = (case s of NodeSpan _ \<Rightarrow> 1 | DeadSpan _ n \<Rightarrow> unat n)"

definition span_id :: "seq_span \<Rightarrow> nat \<Rightarrow> stamp" where
  "span_id s k = run_id (span_head s) (word_of_nat k)"

definition span_ids :: "seq_span \<Rightarrow> stamp list" where
  "span_ids s = map (span_id s) [0..<span_size s]"

text \<open>The steps from the first id of a span to a later one.\<close>

definition chain :: "seq_span \<Rightarrow> nat \<Rightarrow> path" where
  "chain s k = map (\<lambda>j. (RightSide, span_id s j)) [1..<Suc k]"

lemma chain_0 [simp]: "chain s 0 = []"
  by (simp add: chain_def)

lemma chain_Suc: "chain s (Suc k) = chain s k @ [(RightSide, span_id s (Suc k))]"
  by (simp add: chain_def)

lemma chain_split: "j < k \<Longrightarrow> \<exists>qs. chain s k = chain s j @ (RightSide, span_id s (Suc j)) # qs"
proof (induction k)
  case (Suc k)
  then show ?case by (cases "j = k") (auto simp: chain_Suc)
qed simp

lemma span_id_0 [simp]: "span_id s 0 = span_head s"
  by (cases "span_head s") (simp add: span_id_def run_id_def)

lemma push_expand_map: "push_expand ss stack = map (\<lambda>s. Expand (Some s)) ss @ stack"
  unfolding push_expand_def by (induction ss) auto

lemma before_left_any:
  assumes "x \<in> below anc (ps @ [(LeftSide, a)])" "path_to anc y (ps @ qs)" "qs = [] \<or> fst (hd qs) = RightSide"
  shows "precedes anc x y"
proof (cases qs)
  case Nil
  with assms show ?thesis by (simp add: before_left_of)
next
  case (Cons q rs)
  with assms(3) obtain b where "q = (RightSide, b)" by (cases q) auto
  with assms Cons show ?thesis
    by (intro before_below [of x anc ps "(LeftSide, a)" y "(RightSide, b)"])
      (auto simp: below_def less_side_def)
qed

lemma chain_hd: "chain s k = [] \<or> fst (hd (chain s k)) = RightSide"
  using chain_split [of 0 k s] by (cases k) auto

lemma before_siblings:
  assumes "x \<in> below anc (ps @ [(sd, a)])" "y \<in> below anc (ps @ [(sd, b)])" "a < b"
  shows "precedes anc x y"
  using assms by (intro before_below [of x anc ps "(sd, a)" y "(sd, b)"]) auto

section \<open>Runs of the stack machine\<close>

text \<open>The steps run in \<open>k\<close> rounds and emit \<open>out\<close>, whatever lies below them on the stack.\<close>

definition walks :: "(anchor, seq_span list) fmap \<Rightarrow> nat \<Rightarrow> walk_step list \<Rightarrow> seq_span list \<Rightarrow> bool" where
  "walks m k steps out \<longleftrightarrow> (\<forall>fuel stack acc.
     walk_spans (k + fuel) m (steps @ stack) acc = walk_spans fuel m stack (acc @ out))"

lemma walks_Nil: "walks m 0 [] []"
  by (simp add: walks_def)

lemma walks_append: "walks m j xs out \<Longrightarrow> walks m k ys out' \<Longrightarrow> walks m (j + k) (xs @ ys) (out @ out')"
  by (simp add: walks_def add.assoc)

lemma walks_Emit: "walks m 1 [Emit s] [s]"
  by (simp add: walks_def)

lemma expand_stack:
  "expand m p stack =
     map (\<lambda>s. Expand (Some s)) (bucket m (map_option span_head p) LeftSide) @
     (case p of None \<Rightarrow> [] | Some s \<Rightarrow> [Emit s]) @
     map (\<lambda>s. Expand (Some s)) (bucket m (map_option span_last p) RightSide) @ stack"
  by (simp add: expand_def push_expand_map split: option.split)

lemma walks_Expand: "walks m k (expand m p []) out \<Longrightarrow> walks m (Suc k) [Expand p] out"
  by (simp add: walks_def expand_stack)

text \<open>The spans hold exactly the given ids, in the order of the paths.\<close>

definition holds_ids :: "(stamp \<Rightarrow> anchor option) \<Rightarrow> stamp set \<Rightarrow> seq_span list \<Rightarrow> bool" where
  "holds_ids anc X out \<longleftrightarrow> sorted_wrt (precedes anc) (concat (map span_ids out)) \<and> set (concat (map span_ids out)) = X"

lemma lists_Nil: "holds_ids anc {} []"
  by (simp add: holds_ids_def)

lemma lists_append:
  assumes "holds_ids anc X out" "holds_ids anc Y out'" "\<And>x y. x \<in> X \<Longrightarrow> y \<in> Y \<Longrightarrow> precedes anc x y"
  shows "holds_ids anc (X \<union> Y) (out @ out')"
  using assms by (simp add: holds_ids_def sorted_wrt_append)

definition visits :: "(stamp \<Rightarrow> anchor option) \<Rightarrow> (anchor, seq_span list) fmap \<Rightarrow> seq_span set \<Rightarrow>
    walk_step list \<Rightarrow> stamp set \<Rightarrow> bool" where
  "visits anc m S steps X \<longleftrightarrow> (\<exists>out. walks m (2 * length out) steps out \<and> holds_ids anc X out \<and> set out \<subseteq> S)"

lemma visits_append:
  assumes "visits anc m S xs X" "visits anc m S ys Y" "\<And>x y. x \<in> X \<Longrightarrow> y \<in> Y \<Longrightarrow> precedes anc x y"
  shows "visits anc m S (xs @ ys) (X \<union> Y)"
proof -
  from assms(1,2) obtain out out' where
    w: "walks m (2 * length out) xs out" "walks m (2 * length out') ys out'"
    and h: "holds_ids anc X out" "holds_ids anc Y out'" "set out \<subseteq> S" "set out' \<subseteq> S"
    unfolding visits_def by blast
  have "walks m (2 * length (out @ out')) (xs @ ys) (out @ out')"
    using walks_append [OF w] by (simp add: algebra_simps)
  with lists_append [OF h(1,2) assms(3)] h(3,4) show ?thesis unfolding visits_def by fastforce
qed

lemma visits_siblings:
  assumes "\<And>s. s \<in> set ss \<Longrightarrow> visits anc m S [Expand (Some s)] (below anc (ps @ [(sd, span_head s)]))"
    and "sorted_wrt (<) (map span_head ss)"
  shows "visits anc m S (map (\<lambda>s. Expand (Some s)) ss) (\<Union>s\<in>set ss. below anc (ps @ [(sd, span_head s)]))"
  using assms
proof (induction ss)
  case Nil
  show ?case using walks_Nil lists_Nil by (force simp: visits_def)
next
  case (Cons s ss)
  have "visits anc m S ([Expand (Some s)] @ map (\<lambda>s. Expand (Some s)) ss)
    (below anc (ps @ [(sd, span_head s)]) \<union> (\<Union>s\<in>set ss. below anc (ps @ [(sd, span_head s)])))"
    using Cons by (intro visits_append) (auto intro: before_siblings)
  then show ?case by simp
qed


section \<open>The walk over a forest of spans\<close>

locale span_forest =
  fixes ok :: "'l \<Rightarrow> bool"
    and anc :: "'l \<Rightarrow> stamp \<Rightarrow> anchor option"
    and tree :: "'l \<Rightarrow> (anchor, seq_span list) fmap"
    and spans :: "'l \<Rightarrow> seq_span set"
  assumes finite_spans: "ok l \<Longrightarrow> finite (spans l)"
    and bucket_iff: "ok l \<Longrightarrow> s \<in> set (bucket (tree l) p sd) \<longleftrightarrow> s \<in> spans l \<and> anc l (span_head s) = Some (Anchor p sd)"
    and bucket_sorted: "ok l \<Longrightarrow> sorted_wrt (<) (map span_head (bucket (tree l) p sd))"
    and span_nonempty: "ok l \<Longrightarrow> s \<in> spans l \<Longrightarrow> 0 < span_size s"
    and span_last_id: "ok l \<Longrightarrow> s \<in> spans l \<Longrightarrow> span_last s = span_id s (span_size s - 1)"
    and span_chain: "ok l \<Longrightarrow> s \<in> spans l \<Longrightarrow> Suc k < span_size s \<Longrightarrow>
      anc l (span_id s (Suc k)) = Some (Anchor (Some (span_id s k)) RightSide)"
    and spans_cover: "ok l \<Longrightarrow> anc l x \<noteq> None \<Longrightarrow> \<exists>s\<in>spans l. \<exists>k. k < span_size s \<and> x = span_id s k"
    and spans_disjoint: "ok l \<Longrightarrow> s \<in> spans l \<Longrightarrow> t \<in> spans l \<Longrightarrow> j < span_size s \<Longrightarrow> k < span_size t \<Longrightarrow>
      span_id s j = span_id t k \<Longrightarrow> s = t \<and> j = k"
    and attach_left: "ok l \<Longrightarrow> s \<in> spans l \<Longrightarrow> k < span_size s \<Longrightarrow>
      anc l y = Some (Anchor (Some (span_id s k)) LeftSide) \<Longrightarrow> k = 0"
    and attach_right: "ok l \<Longrightarrow> s \<in> spans l \<Longrightarrow> Suc k < span_size s \<Longrightarrow>
      anc l y = Some (Anchor (Some (span_id s k)) RightSide) \<Longrightarrow> y = span_id s (Suc k)"
begin

lemma chain_path:
  assumes "ok l" "s \<in> spans l" "path_to (anc l) (span_head s) ps" "k < span_size s"
  shows "path_to (anc l) (span_id s k) (ps @ chain s k)"
  using assms(4)
proof (induction k)
  case 0
  then show ?case using assms(3) by simp
next
  case (Suc k)
  then have "path_to (anc l) (span_id s k) (ps @ chain s k)" by simp
  from path_step [OF span_chain [OF assms(1,2) Suc.prems] this] show ?case by (simp add: chain_Suc)
qed

text \<open>An id is the first of its span or follows its parent in it.\<close>

lemma anchored_cases [consumes 2]:
  assumes "ok l" "anc l y = Some (Anchor p sd)"
  obtains (head) s where "s \<in> set (bucket (tree l) p sd)" "y = span_head s"
  | (chained) s k where "s \<in> spans l" "Suc k < span_size s" "y = span_id s (Suc k)" "p = Some (span_id s k)" "sd = RightSide"
proof -
  from spans_cover [OF assms(1), of y] assms(2) obtain s k where s: "s \<in> spans l" "k < span_size s" "y = span_id s k"
    by auto
  show thesis
  proof (cases k)
    case 0
    with s assms head show thesis by (auto simp: bucket_iff)
  next
    case (Suc j)
    with s assms span_chain [OF assms(1) s(1), of j] chained show thesis by auto
  qed
qed

lemma below_step:
  assumes ok: "ok l" and s: "s \<in> spans l" and ps: "path_to (anc l) (span_head s) ps" and k: "k < span_size s"
    and x: "x \<in> below (anc l) (ps @ chain s k)"
  shows "x = span_id s k \<or>
    (k = 0 \<and> (\<exists>t\<in>set (bucket (tree l) (Some (span_head s)) LeftSide). x \<in> below (anc l) (ps @ [(LeftSide, span_head t)]))) \<or>
    (Suc k < span_size s \<and> x \<in> below (anc l) (ps @ chain s (Suc k))) \<or>
    (Suc k = span_size s \<and> (\<exists>t\<in>set (bucket (tree l) (Some (span_last s)) RightSide).
       x \<in> below (anc l) (ps @ chain s k @ [(RightSide, span_head t)])))"
proof -
  note pk = chain_path [OF ok s ps k]
  from x obtain qs where qs: "path_to (anc l) x ((ps @ chain s k) @ qs)" by (auto simp: below_def)
  show ?thesis
  proof (cases qs)
    case Nil
    with qs pk show ?thesis by (simp add: path_ends)
  next
    case (Cons q qs')
    obtain sd y where q: "q = (sd, y)" by (cases q)
    have xy: "x \<in> below (anc l) (ps @ chain s k @ [(sd, y)])"
      using qs Cons q by (auto simp: below_def)
    have "path_to (anc l) y ((ps @ chain s k) @ [(sd, y)])"
      using qs Cons q by (intro path_prefix) simp
    moreover have "ps @ chain s k \<noteq> []" using path_last [OF pk] by simp
    ultimately obtain p where p: "anc l y = Some (Anchor (Some p) sd)" "path_to (anc l) p (ps @ chain s k)"
      unfolding path_snoc by auto
    from p(2) pk have y: "anc l y = Some (Anchor (Some (span_id s k)) sd)"
      using p(1) path_ends by metis
    show ?thesis
    proof (cases sd)
      case LeftSide
      then have "k = 0" using attach_left [OF ok s k] y by simp
      moreover from y LeftSide obtain t where "t \<in> set (bucket (tree l) (Some (span_id s k)) LeftSide)" "y = span_head t"
        by (auto elim: anchored_cases [OF ok])
      ultimately show ?thesis using xy LeftSide by auto
    next
      case RightSide
      show ?thesis
      proof (cases "Suc k < span_size s")
        case True
        then have "y = span_id s (Suc k)" using attach_right [OF ok s] y RightSide by simp
        with True xy RightSide show ?thesis by (simp add: chain_Suc)
      next
        case False
        with k have n: "Suc k = span_size s" by simp
        then have last: "span_last s = span_id s k" using span_last_id [OF ok s] by (metis diff_Suc_1)
        from ok y [unfolded RightSide] show ?thesis
        proof (cases rule: anchored_cases)
          case (head t)
          with n xy RightSide last show ?thesis by auto
        next
          case (chained t j)
          then have "span_id s k = span_id t j" by simp
          with chained k have "s = t \<and> k = j" by (intro spans_disjoint [OF ok s chained(1) k]) auto
          with chained n show ?thesis by simp
        qed
      qed
    qed
  qed
qed

lemma span_visits:
  assumes ok: "ok l" and s: "s \<in> spans l" and ps: "path_to (anc l) (span_head s) ps"
  shows "visits (anc l) (tree l) (spans l) [Expand (Some s)] (below (anc l) ps)"
  using s ps
proof (induction "card {t \<in> spans l. span_head t \<in> below (anc l) ps}" arbitrary: s ps rule: less_induct)
  case (less ps s)
  let ?n = "span_size s - 1"
  let ?L = "bucket (tree l) (Some (span_head s)) LeftSide" and ?R = "bucket (tree l) (Some (span_last s)) RightSide"
  let ?X = "\<Union>t\<in>set ?L. below (anc l) (ps @ [(LeftSide, span_head t)])"
  let ?Y = "\<Union>t\<in>set ?R. below (anc l) ((ps @ chain s ?n) @ [(RightSide, span_head t)])"
  have pos: "0 < span_size s" using span_nonempty [OF ok less.prems(1)] .
  have path: "path_to (anc l) (span_id s k) (ps @ chain s k)" if "k < span_size s" for k
    using chain_path [OF ok less.prems that] .
  have last: "span_last s = span_id s ?n" using span_last_id [OF ok less.prems(1)] .
  have sub: "visits (anc l) (tree l) (spans l) [Expand (Some t)] (below (anc l) (ps @ qs @ [(sd, span_head t)]))"
    if t: "t \<in> set (bucket (tree l) (Some p) sd)" and p: "path_to (anc l) p (ps @ qs)" for t p sd qs
  proof (rule less.hyps)
    from t have t': "t \<in> spans l" "anc l (span_head t) = Some (Anchor (Some p) sd)"
      by (simp_all add: bucket_iff [OF ok])
    show "t \<in> spans l" using t' by simp
    show "path_to (anc l) (span_head t) (ps @ qs @ [(sd, span_head t)])"
      using path_step [OF t'(2) p] by simp
    have "span_head s \<in> below (anc l) ps" using less.prems(2) by (auto simp: below_def intro: exI [of _ "[]"])
    moreover have "span_head s \<notin> below (anc l) (ps @ qs @ [(sd, span_head t)])"
      using path_unique [OF less.prems(2)] by (auto simp: below_def)
    moreover have "below (anc l) (ps @ qs @ [(sd, span_head t)]) \<subseteq> below (anc l) ps"
      by (auto simp: below_def)
    ultimately show "card {u \<in> spans l. span_head u \<in> below (anc l) (ps @ qs @ [(sd, span_head t)])}
        < card {u \<in> spans l. span_head u \<in> below (anc l) ps}"
      using less.prems(1) finite_spans [OF ok] by (intro psubset_card_mono) auto
  qed
  have left: "visits (anc l) (tree l) (spans l) (map (\<lambda>t. Expand (Some t)) ?L) ?X"
    using sub [of _ "span_head s" LeftSide "[]"] less.prems(2)
    by (intro visits_siblings bucket_sorted ok) simp
  have right: "visits (anc l) (tree l) (spans l) (map (\<lambda>t. Expand (Some t)) ?R) ?Y"
    using sub [of _ "span_last s" RightSide "chain s ?n"] path [of ?n] pos last
    by (intro visits_siblings bucket_sorted ok) simp
  have ids: "holds_ids (anc l) (set (span_ids s)) [s]"
  proof -
    have "precedes (anc l) (span_id s i) (span_id s j)" if "i < j" "j < span_size s" for i j
    proof -
      from chain_split [OF that(1)] obtain qs where
        qs: "chain s j = chain s i @ (RightSide, span_id s (Suc i)) # qs" by blast
      have "span_id s j \<in> below (anc l) ((ps @ chain s i) @ (RightSide, span_id s (Suc i)) # qs)"
        using path [OF that(2)] qs by (auto simp: below_def intro: exI [of _ "[]"])
      then show ?thesis using path [of i] that by (intro before_right_of) auto
    qed
    then show ?thesis by (auto simp: holds_ids_def span_ids_def sorted_wrt_map sorted_wrt_iff_nth_less)
  qed
  have after: "x \<in> below (anc l) ((ps @ chain s i) @ (RightSide, b) # qs) \<Longrightarrow> i < span_size s \<Longrightarrow> precedes (anc l) (span_id s i) x" for x b qs i
    by (rule before_right_of [OF _ path])
  have idY: "precedes (anc l) x y" if "x \<in> set (span_ids s)" "y \<in> ?Y" for x y
  proof -
    from that(1) obtain i where i: "x = span_id s i" "i < span_size s" by (auto simp: span_ids_def)
    from that(2) obtain t where y: "y \<in> below (anc l) ((ps @ chain s ?n) @ [(RightSide, span_head t)])" by auto
    show ?thesis
    proof (cases "i = ?n")
      case True
      with after i y show ?thesis by blast
    next
      case False
      with i have "i < ?n" by simp
      from chain_split [OF this] obtain qs where "chain s ?n = chain s i @ (RightSide, span_id s (Suc i)) # qs" by blast
      with after [of y i "span_id s (Suc i)" "qs @ [(RightSide, span_head t)]"] i y show ?thesis by simp
    qed
  qed
  have Xid: "precedes (anc l) x y" if "x \<in> ?X" "y \<in> set (span_ids s)" for x y
    using that path chain_hd by (fastforce simp: span_ids_def intro: before_left_any)
  have XY: "precedes (anc l) x y" if "x \<in> ?X" "y \<in> ?Y" for x y
    using before_trans [OF Xid idY, of x "span_head s" y] that pos
    by (force simp: span_ids_def simp flip: span_id_0)
  have "below (anc l) (ps @ chain s k) \<subseteq> (if k = 0 then ?X else {}) \<union> set (span_ids s) \<union> ?Y"
    if "k < span_size s" for k
    using that
  proof (induction "span_size s - k" arbitrary: k)
    case (Suc d)
    show ?case
    proof
      fix x assume x: "x \<in> below (anc l) (ps @ chain s k)"
      from below_step [OF ok less.prems Suc.prems x]
      consider "x = span_id s k" | "k = 0" "x \<in> ?X"
        | "Suc k < span_size s" "x \<in> below (anc l) (ps @ chain s (Suc k))"
        | t where "Suc k = span_size s" "t \<in> set ?R" "x \<in> below (anc l) (ps @ chain s k @ [(RightSide, span_head t)])"
        by blast
      then show "x \<in> (if k = 0 then ?X else {}) \<union> set (span_ids s) \<union> ?Y"
      proof cases
        case 1
        with Suc.prems show ?thesis by (auto simp: span_ids_def)
      next
        case 3
        have "d = span_size s - Suc k" using Suc.hyps(2) by simp
        from Suc.hyps(1) [OF this 3(1)] 3(2) show ?thesis by auto
      next
        case 4
        then have "k = ?n" by simp
        with 4 show ?thesis by auto
      qed auto
    qed
  qed simp
  from this [of 0] pos have "below (anc l) ps \<subseteq> ?X \<union> set (span_ids s) \<union> ?Y" by simp
  moreover have "?X \<union> set (span_ids s) \<union> ?Y \<subseteq> below (anc l) ps"
  proof -
    have "set (span_ids s) \<subseteq> below (anc l) ps" by (auto simp: span_ids_def intro: belowI [OF path])
    moreover have "?X \<subseteq> below (anc l) ps" "?Y \<subseteq> below (anc l) ps" by (auto simp: below_def)
    ultimately show ?thesis by blast
  qed
  ultimately have all: "below (anc l) ps = ?X \<union> (set (span_ids s) \<union> ?Y)" by blast
  from left obtain o1 where o1: "walks (tree l) (2 * length o1) (map (\<lambda>t. Expand (Some t)) ?L) o1"
    "holds_ids (anc l) ?X o1" "set o1 \<subseteq> spans l" unfolding visits_def by blast
  from right obtain o2 where o2: "walks (tree l) (2 * length o2) (map (\<lambda>t. Expand (Some t)) ?R) o2"
    "holds_ids (anc l) ?Y o2" "set o2 \<subseteq> spans l" unfolding visits_def by blast
  have "walks (tree l) (2 * length o1 + (1 + 2 * length o2)) (expand (tree l) (Some s) []) (o1 @ [s] @ o2)"
    using walks_append [OF o1(1) walks_append [OF walks_Emit o2(1)]] by (simp add: expand_stack)
  then have "walks (tree l) (2 * length (o1 @ [s] @ o2)) [Expand (Some s)] (o1 @ [s] @ o2)"
    using walks_Expand by fastforce
  moreover have "holds_ids (anc l) (below (anc l) ps) (o1 @ [s] @ o2)"
    unfolding all by (rule lists_append [OF o1(2) lists_append [OF ids o2(2) idY]]) (use Xid XY in blast)+
  ultimately show ?case
    unfolding visits_def using o1(3) o2(3) less.prems(1) by (intro exI [of _ "o1 @ [s] @ o2"]) simp
qed

lemma tree_visits:
  assumes ok: "ok l"
  shows "\<exists>out. walks (tree l) (Suc (2 * length out)) [Expand None] out \<and>
    holds_ids (anc l) {x. rooted_at (anc l) x} out \<and> set out \<subseteq> spans l"
proof -
  let ?steps = "\<lambda>sd. map (\<lambda>t. Expand (Some t)) (bucket (tree l) None sd)"
  let ?X = "\<lambda>sd. \<Union>t\<in>set (bucket (tree l) None sd). below (anc l) ([] @ [(sd, span_head t)])"
  have sub: "visits (anc l) (tree l) (spans l) (?steps sd) (?X sd)" for sd
  proof (rule visits_siblings)
    fix s assume "s \<in> set (bucket (tree l) None sd)"
    then show "visits (anc l) (tree l) (spans l) [Expand (Some s)] (below (anc l) ([] @ [(sd, span_head s)]))"
      by (intro span_visits ok) (auto simp: bucket_iff [OF ok] intro: path_root)
  qed (rule bucket_sorted [OF ok])
  have "visits (anc l) (tree l) (spans l) (?steps LeftSide @ ?steps RightSide) (?X LeftSide \<union> ?X RightSide)"
    by (intro visits_append sub) (auto intro!: before_below [of _ _ "[]"] simp: less_side_def)
  then obtain out where out: "walks (tree l) (2 * length out) (expand (tree l) None []) out"
    "holds_ids (anc l) (?X LeftSide \<union> ?X RightSide) out" "set out \<subseteq> spans l"
    by (auto simp: visits_def expand_stack)
  have "x \<in> ?X LeftSide \<union> ?X RightSide" if "path_to (anc l) x ps" for x ps
  proof -
    from path_last [OF that] obtain sd y qs where ps: "ps = (sd, y) # qs" by (cases ps) auto
    have "path_to (anc l) y [(sd, y)]" using path_prefix [of "anc l" x "[]" sd y qs] that ps by simp
    then have y: "anc l y = Some (Anchor None sd)" using path_snoc [of "anc l" y "[]"] by simp
    obtain t where "t \<in> set (bucket (tree l) None sd)" "y = span_head t"
      using anchored_cases [OF ok y] by blast
    moreover have "x \<in> below (anc l) [(sd, y)]" using that ps by (auto simp: below_def)
    ultimately show ?thesis by (cases sd) auto
  qed
  then have "{x. rooted_at (anc l) x} \<subseteq> ?X LeftSide \<union> ?X RightSide"
    unfolding rooted_at_def by blast
  moreover have "?X LeftSide \<union> ?X RightSide \<subseteq> {x. rooted_at (anc l) x}"
    by (auto simp: rooted_at_def below_def)
  ultimately have "?X LeftSide \<union> ?X RightSide = {x. rooted_at (anc l) x}" by blast
  with out walks_Expand [OF out(1)] show ?thesis by auto
qed

end

end
