(* ===== verification/Sequence_Walk.thy ===== *)
theory Sequence_Walk
  imports Sequence_Forest
begin

text \<open>
  The buckets of \<open>children\<close> are a forest of spans in the sense of \<open>span_forest\<close>: cutting runs at the
  ids that other records attach to leaves pieces inside which nothing attaches. The walk therefore
  ends within its fuel and lists the ids in the order of their paths, tombstones included.
\<close>

section \<open>The cuts of a run\<close>

definition cuts_of :: "(skey, u64 list) fmap \<Rightarrow> skey \<Rightarrow> u64 list" where
  "cuts_of m k = (case fmlookup m k of None \<Rightarrow> [] | Some cs \<Rightarrow> cs)"

lemma cuts_of_add: "cuts_of (add_cut kc m) k = (if k = fst kc then insort_insert (snd kc) (cuts_of m k) else cuts_of m k)"
  by (simp add: cuts_of_def add_cut_def)

lemma insort_insert_strict: "sorted_wrt (<) xs \<Longrightarrow> sorted_wrt (<) (insort_insert (x :: 'a::linorder) xs)"
  by (simp add: strict_sorted_iff sorted_insort_insert distinct_insort_insert)

lemma fold_add_cut:
  assumes "\<And>k. sorted_wrt (<) (cuts_of m k)"
  shows "sorted_wrt (<) (cuts_of (fold add_cut xs m) k) \<and>
    set (cuts_of (fold add_cut xs m) k) = set (cuts_of m k) \<union> {c. (k, c) \<in> set xs}"
  using assms
proof (induction xs arbitrary: m)
  case (Cons x xs)
  have "sorted_wrt (<) (cuts_of (add_cut x m) k)" for k
    using Cons.prems by (simp add: cuts_of_add insort_insert_strict)
  from Cons.IH [OF this] show ?case by (cases x) (auto simp: cuts_of_add set_insort_insert)
qed simp

lemma set_map_filter: "set (List.map_filter f xs) = {y. \<exists>x\<in>set xs. f x = Some y}"
  by (induction xs) (auto simp: map_filter_simps split: option.split)

lemma cuts_spec:
  "sorted_wrt (<) (cuts_of (cuts l) k)"
  "c \<in> set (cuts_of (cuts l) k) \<longleftrightarrow> (\<exists>a\<in>set (list_anchors l). cut_at l a = Some (k, c))"
  using fold_add_cut [of fmempty "List.map_filter (cut_at l) (list_anchors l)" k]
  by (simp_all add: cuts_def cuts_of_def set_map_filter)

text \<open>A piece runs from one cut to the next.\<close>

definition run_ends :: "seq_list \<Rightarrow> stamp \<Rightarrow> deadrun \<Rightarrow> u64 set" where
  "run_ends l h r = insert 0 (insert (run_len r) (set (cuts_of (cuts l) (seq_key h))))"

definition is_piece :: "seq_list \<Rightarrow> stamp \<Rightarrow> deadrun \<Rightarrow> u64 \<Rightarrow> u64 \<Rightarrow> bool" where
  "is_piece l h r c d \<longleftrightarrow> c \<in> run_ends l h r \<and> d \<in> run_ends l h r \<and> c < d \<and>
     (\<forall>e\<in>run_ends l h r. \<not> (c < e \<and> e < d))"

definition piece_anchor :: "stamp \<Rightarrow> deadrun \<Rightarrow> u64 \<Rightarrow> anchor" where
  "piece_anchor h r c = (if c = 0 then run_anchor r else Anchor (Some (run_id h (c - 1))) RightSide)"

lemma pieces_iff:
  assumes "sorted_wrt (<) (start # ends)"
  shows "e \<in> set (pieces h ends start a) \<longleftrightarrow>
    (\<exists>c\<in>set (start # ends). \<exists>d\<in>set ends. c < d \<and> (\<forall>e\<in>set ends. \<not> (c < e \<and> e < d)) \<and>
       e = (if c = start then a else Anchor (Some (run_id h (c - 1))) RightSide, DeadSpan (run_id h c) (d - c)))"
  using assms
proof (induction ends arbitrary: start a)
  case Nil
  then show ?case by simp
next
  case (Cons stop ends)
  let ?b = "Anchor (Some (run_id h (stop - 1))) RightSide"
  have lt: "start < stop" "sorted_wrt (<) (stop # ends)" "\<forall>e\<in>set ends. stop < e" "\<forall>e\<in>set ends. start < e"
    using Cons.prems by auto
  note IH = Cons.IH [OF lt(2), of ?b]
  have first: "c = start \<Longrightarrow> d \<in> set (stop # ends) \<Longrightarrow> \<forall>e\<in>set (stop # ends). \<not> (c < e \<and> e < d) \<Longrightarrow> d = stop" for c d
    using lt by auto
  show ?case
  proof
    assume "e \<in> set (pieces h (stop # ends) start a)"
    then consider "e = (a, DeadSpan (run_id h start) (stop - start))" | "e \<in> set (pieces h ends stop ?b)" by auto
    then show "\<exists>c\<in>set (start # stop # ends). \<exists>d\<in>set (stop # ends). c < d \<and>
       (\<forall>e\<in>set (stop # ends). \<not> (c < e \<and> e < d)) \<and>
       e = (if c = start then a else Anchor (Some (run_id h (c - 1))) RightSide, DeadSpan (run_id h c) (d - c))"
    proof cases
      case 1
      with lt show ?thesis by (intro bexI [of _ start] bexI [of _ stop]) auto
    next
      case 2
      then obtain c d where "c \<in> set (stop # ends)" "d \<in> set ends" "c < d" "\<forall>e\<in>set ends. \<not> (c < e \<and> e < d)"
        "e = (if c = stop then ?b else Anchor (Some (run_id h (c - 1))) RightSide, DeadSpan (run_id h c) (d - c))"
        unfolding IH by blast
      with lt show ?thesis by (intro bexI [of _ c] bexI [of _ d]) auto
    qed
  next
    assume "\<exists>c\<in>set (start # stop # ends). \<exists>d\<in>set (stop # ends). c < d \<and>
       (\<forall>e\<in>set (stop # ends). \<not> (c < e \<and> e < d)) \<and>
       e = (if c = start then a else Anchor (Some (run_id h (c - 1))) RightSide, DeadSpan (run_id h c) (d - c))"
    then obtain c d where cd: "c \<in> set (start # stop # ends)" "d \<in> set (stop # ends)" "c < d"
      "\<forall>e\<in>set (stop # ends). \<not> (c < e \<and> e < d)"
      "e = (if c = start then a else Anchor (Some (run_id h (c - 1))) RightSide, DeadSpan (run_id h c) (d - c))"
      by blast
    show "e \<in> set (pieces h (stop # ends) start a)"
    proof (cases "c = start")
      case True
      have "d = stop" by (rule first [OF True cd(2,4)])
      with True cd(5) show ?thesis by simp
    next
      case False
      have "c \<in> set (stop # ends)" using cd(1) False by simp
      moreover have "d \<in> set ends" using cd(2,3) lt calculation by auto
      moreover have "\<forall>e\<in>set ends. \<not> (c < e \<and> e < d)" using cd(4) by simp
      moreover have "e = (if c = stop then ?b else Anchor (Some (run_id h (c - 1))) RightSide, DeadSpan (run_id h c) (d - c))"
        using cd(5) False by simp
      ultimately have "e \<in> set (pieces h ends stop ?b)" unfolding IH using cd(3) by blast
      then show ?thesis by simp
    qed
  qed
qed

definition cut_place :: "anchor \<Rightarrow> stamp \<Rightarrow> stamp \<Rightarrow> u64" where
  "cut_place a p h = (case side a of LeftSide \<Rightarrow> lamport p - lamport h | RightSide \<Rightarrow> lamport p - lamport h + 1)"

lemma cut_at_iff:
  assumes "runs_apart (dead l)" "run_at (dead l) h = Some r"
  shows "cut_at l a = Some (seq_key h, c) \<longleftrightarrow>
    (\<exists>p. parent a = Some p \<and> covers h (run_len r) p \<and> c = cut_place a p h \<and> 0 < c \<and> c < run_len r)"
proof (cases "parent a")
  case None
  then show ?thesis by (simp add: cut_at_def)
next
  case (Some p)
  show ?thesis
  proof (cases "dead_run l p")
    case None
    then have "\<not> covers h (run_len r) p" using assms by (simp add: dead_run_None)
    with Some None show ?thesis by (simp add: cut_at_def)
  next
    case (Some hr)
    obtain h' r' where hr: "hr = (h', r')" by (cases hr)
    with Some have r': "run_at (dead l) h' = Some r'" "covers h' (run_len r') p"
      by (simp_all add: dead_run_iff assms)
    have "covers h (run_len r) p \<longleftrightarrow> h = h' \<and> r = r'"
      using runs_apart_unique [OF assms(1) assms(2) r'(1) _ r'(2)] r' by blast
    moreover have "h = h' \<Longrightarrow> r = r'" using assms(2) r'(1) by simp
    ultimately show ?thesis using \<open>parent a = Some p\<close> Some hr
      by (auto simp: cut_at_def Let_def cut_place_def)
  qed
qed

lemma cut_iff:
  assumes "runs_apart (dead l)" "run_at (dead l) h = Some r"
  shows "c \<in> set (cuts_of (cuts l) (seq_key h)) \<longleftrightarrow>
    (\<exists>a\<in>set (list_anchors l). \<exists>p. parent a = Some p \<and> covers h (run_len r) p \<and> c = cut_place a p h \<and> 0 < c \<and> c < run_len r)"
  by (simp add: cuts_spec cut_at_iff [OF assms])

lemma run_pieces_iff:
  assumes "list_invar l" "run_at (dead l) h = Some r"
  shows "e \<in> set (run_pieces l (seq_key h, r)) \<longleftrightarrow>
    (\<exists>c d. is_piece l h r c d \<and> e = (piece_anchor h r c, DeadSpan (run_id h c) (d - c)))"
proof -
  let ?cs = "cuts_of (cuts l) (seq_key h)"
  have b: "0 < c \<and> c < run_len r" if "c \<in> set ?cs" for c
    using that cut_iff [OF list_invarD(3) [OF assms(1)] assms(2)] by blast
  have pos: "0 < run_len r"
    using runs_apartD(1) [OF list_invarD(3) [OF assms(1)] assms(2)] by (simp add: word_less_nat_alt)
  with b cuts_spec(1) [of l "seq_key h"] have s: "sorted_wrt (<) (0 # ?cs @ [run_len r])"
    by (auto simp: sorted_wrt_append)
  have ends: "run_ends l h r = set (0 # ?cs @ [run_len r])" by (auto simp: run_ends_def)
  have gap: "(\<forall>e\<in>set (0 # ?cs @ [run_len r]). \<not> (c < e \<and> e < d)) \<longleftrightarrow> (\<forall>e\<in>set (?cs @ [run_len r]). \<not> (c < e \<and> e < d))" for c d :: u64
    by auto
  have "d \<in> set (?cs @ [run_len r])" if "d \<in> set (0 # ?cs @ [run_len r])" "c < d" for c d
    using that by auto
  then show ?thesis
    unfolding run_pieces_def cuts_of_def [symmetric] fst_conv snd_conv seq_stamp_key pieces_iff [OF s] is_piece_def
      piece_anchor_def ends gap by (metis list.set_intros(2))
qed

section \<open>Spans of a sequence\<close>

lemma fm_values_I: "fmlookup m k = Some v \<Longrightarrow> v \<in> set (fm_values m)"
  by (auto simp: in_fm_values)

lemma in_fm_values_stamp: "v \<in> set (fm_values m) \<longleftrightarrow> (\<exists>x. fmlookup m (seq_key x) = Some v)"
  unfolding in_fm_values by (metis seq_key_stamp)

lemma anchored_spans_iff:
  assumes "list_invar l"
  shows "e \<in> set (anchored_spans l) \<longleftrightarrow>
    (\<exists>x n. fmlookup (nodes l) (seq_key x) = Some n \<and> e = (ln_anchor n, NodeSpan x)) \<or>
    (\<exists>h r c d. run_at (dead l) h = Some r \<and> is_piece l h r c d \<and>
       e = (piece_anchor h r c, DeadSpan (run_id h c) (d - c)))" (is "?lhs \<longleftrightarrow> ?nodes \<or> ?runs")
proof -
  have "(\<exists>n\<in>set (fm_values (nodes l)). e = (ln_anchor n, NodeSpan (ln_id n))) \<longleftrightarrow> ?nodes"
    unfolding Bex_def in_fm_values_stamp using node_id [OF assms] by metis
  moreover have "(\<exists>(k, r)\<in>set (sorted_list_of_fmap (dead l)). e \<in> set (run_pieces l (k, r))) \<longleftrightarrow> ?runs"
    unfolding bex_entries using run_pieces_iff [OF assms] by (metis seq_key_stamp)
  ultimately show ?thesis
    by (auto simp: anchored_spans_def case_prod_unfold)
qed

lemma anchor_of_node: "fmlookup (nodes l) (seq_key x) = Some n \<Longrightarrow> anchor_of l x = Some (ln_anchor n)"
  by (simp add: anchor_of_def)

lemma anchor_of_dead:
  "list_invar l \<Longrightarrow> run_at (dead l) h = Some r \<Longrightarrow> covers h (run_len r) x \<Longrightarrow>
     anchor_of l x = Some (chain_anchor h (run_anchor r) x)"
proof -
  assume l: "list_invar l" and r: "run_at (dead l) h = Some r" "covers h (run_len r) x"
  then have d: "dead_at (dead l) x (chain_anchor h (run_anchor r) x)" by (auto simp: dead_at_def)
  then have "dead_anchor_of l x = Some (chain_anchor h (run_anchor r) x)"
    using l by (simp add: dead_anchor_of_invar)
  with dead_not_node [OF l d] show ?thesis by (simp add: anchor_of_def)
qed

lemma anchor_of_cases:
  assumes "list_invar l" "anchor_of l x = Some a"
  obtains (node) n where "fmlookup (nodes l) (seq_key x) = Some n" "a = ln_anchor n"
  | (dead) h r where "run_at (dead l) h = Some r" "covers h (run_len r) x" "a = chain_anchor h (run_anchor r) x"
proof (cases "fmlookup (nodes l) (seq_key x)")
  case (Some n)
  with assms node show ?thesis by (simp add: anchor_of_node)
next
  case None
  with assms have "dead_at (dead l) x a" by (simp add: anchor_of_def dead_anchor_of_invar)
  with dead show ?thesis by (auto simp: dead_at_def)
qed

text \<open>An anchor that is not the link inside a run is one that the cuts look at.\<close>

lemma outer_anchor:
  assumes "list_invar l" "anchor_of l y = Some a"
  obtains (outer) "a \<in> set (list_anchors l)"
  | (inner) h r where "run_at (dead l) h = Some r" "covers h (run_len r) y" "y \<noteq> h" "a = Anchor (Some (pred_id y)) RightSide"
  using assms
proof (cases rule: anchor_of_cases)
  case (node n)
  then have "a \<in> set (list_anchors l)" using fm_values_I by (fastforce simp: list_anchors_def)
  then show ?thesis by (rule outer)
next
  case (dead h r)
  show ?thesis
  proof (cases "y = h")
    case True
    with dead have "a \<in> set (list_anchors l)" using fm_values_I by (fastforce simp: list_anchors_def chain_anchor_def)
    then show ?thesis by (rule outer)
  next
    case False
    with dead inner show ?thesis by (simp add: chain_anchor_def)
  qed
qed

text \<open>The ids of a piece.\<close>

lemma run_ends_le: "list_invar l \<Longrightarrow> run_at (dead l) h = Some r \<Longrightarrow> e \<in> run_ends l h r \<Longrightarrow> e \<le> run_len r"
  using cut_iff [OF list_invarD(3), of l h r e] by (auto simp: run_ends_def)

lemma piece_ids:
  assumes l: "list_invar l" and r: "run_at (dead l) h = Some r" and p: "is_piece l h r c d"
  defines "s \<equiv> DeadSpan (run_id h c) (d - c)"
  shows "span_size s = unat d - unat c" "unat c < unat d" "place_of h + unat d \<le> 2 ^ 63"
    and "k < span_size s \<Longrightarrow> same_group h (span_id s k) \<and> place_of (span_id s k) = place_of h + unat c + k"
    and "k < span_size s \<Longrightarrow> covers h (run_len r) (span_id s k)"
proof -
  show cd: "unat c < unat d" using p by (simp add: is_piece_def word_less_nat_alt)
  have d: "unat d \<le> run_size r" using run_ends_le [OF l r] p by (simp add: is_piece_def word_le_nat_alt)
  show bound: "place_of h + unat d \<le> 2 ^ 63"
    using d runs_apartD(2) [OF list_invarD(3) [OF l] r] by simp
  show size: "span_size s = unat d - unat c"
    using cd by (simp add: s_def span_size_def unat_sub word_le_nat_alt)
  show id: "same_group h (span_id s k) \<and> place_of (span_id s k) = place_of h + unat c + k" if "k < span_size s" for k
  proof -
    have k: "unat (word_of_nat k :: u64) = k" using that size bound by (simp add: unat_of_nat)
    have c: "place_of (run_id h c) = place_of h + unat c" using cd bound by (intro place_of_run_id) simp
    have "place_of (span_id s k) = place_of (run_id h c) + k"
      unfolding span_id_def s_def span_head.simps
      using that size bound k c by (subst place_of_run_id) simp_all
    with c show ?thesis by (simp add: span_id_def s_def)
  qed
  show "covers h (run_len r) (span_id s k)" if "k < span_size s"
    using id [OF that] that size d by (simp add: covers_iff)
qed

lemma piece_anchor_of:
  assumes l: "list_invar l" and r: "run_at (dead l) h = Some r" and p: "is_piece l h r c d"
  shows "anchor_of l (run_id h c) = Some (piece_anchor h r c)"
proof -
  let ?s = "DeadSpan (run_id h c) (d - c)"
  note ids = piece_ids [OF l r p]
  have 0: "0 < span_size ?s" using ids(1,2) by simp
  have x: "span_id ?s 0 = run_id h c" by simp
  have cov: "covers h (run_len r) (run_id h c)" and place: "place_of (run_id h c) = place_of h + unat c"
    using ids(4,5) [OF 0] x by simp_all
  have "chain_anchor h (run_anchor r) (run_id h c) = piece_anchor h r c"
  proof (cases "c = 0")
    case True
    then have "run_id h c = h" by (simp add: run_id_def)
    with True show ?thesis by (simp add: chain_anchor_def piece_anchor_def)
  next
    case False
    then have "run_id h c \<noteq> h" using place by (auto simp: unat_eq_0)
    moreover have "pred_id (run_id h c) = run_id h (c - 1)" by (simp add: pred_id_def run_id_def)
    ultimately show ?thesis using False by (simp add: chain_anchor_def piece_anchor_def)
  qed
  with anchor_of_dead [OF l r cov] show ?thesis by simp
qed

section \<open>The laws of a forest\<close>

definition spans_of :: "seq_list \<Rightarrow> seq_span set" where
  "spans_of l = snd ` set (anchored_spans l)"

lemma span_cases [consumes 2, case_names node piece]:
  assumes "list_invar l" "s \<in> spans_of l"
    and "\<And>x n. fmlookup (nodes l) (seq_key x) = Some n \<Longrightarrow> s = NodeSpan x \<Longrightarrow> P"
    and "\<And>h r c d. run_at (dead l) h = Some r \<Longrightarrow> is_piece l h r c d \<Longrightarrow> s = DeadSpan (run_id h c) (d - c) \<Longrightarrow> P"
  shows P
  using assms(2-) by (auto simp: spans_of_def anchored_spans_iff [OF assms(1)])

lemma anchored_span_anchor:
  assumes "list_invar l" "(a, s) \<in> set (anchored_spans l)"
  shows "anchor_of l (span_head s) = Some a"
  using assms(2) piece_anchor_of [OF assms(1)] by (auto simp: anchored_spans_iff [OF assms(1)] anchor_of_node)

lemma bucket_push:
  "bucket (fold push_span es m) p sd = bucket m p sd @ map snd (filter (\<lambda>e. fst e = Anchor p sd) es)"
proof (induction es arbitrary: m)
  case (Cons e es)
  have "bucket (push_span e m) p sd = bucket m p sd @ (if fst e = Anchor p sd then [snd e] else [])"
    by (simp add: bucket_def push_span_def)
  with Cons show ?case by simp
qed simp

lemma bucket_children:
  "bucket (children l) p sd = sort_key span_head (map snd (filter (\<lambda>e. fst e = Anchor p sd) (anchored_spans l)))"
proof -
  have "bucket (children l) p sd = sort_key span_head (bucket (fold push_span (anchored_spans l) fmempty) p sd)"
    by (simp add: bucket_def children_def split: option.split)
  then show ?thesis by (simp add: bucket_push) (simp add: bucket_def)
qed

lemma bucket_children_iff:
  assumes "list_invar l"
  shows "s \<in> set (bucket (children l) p sd) \<longleftrightarrow> s \<in> spans_of l \<and> anchor_of l (span_head s) = Some (Anchor p sd)"
  using anchored_span_anchor [OF assms] by (force simp: bucket_children spans_of_def)

lemma pieces_heads: "map (\<lambda>e. span_head (snd e)) (pieces h ends start a) = map (run_id h) (butlast (start # ends))"
  by (induction ends arbitrary: start a) auto

lemma run_id_inject [simp]: "run_id h c = run_id h d \<longleftrightarrow> c = d"
  by (auto simp: run_id_def)

lemma in_concat_map: "x \<in> set (concat (map f xs)) \<longleftrightarrow> (\<exists>e\<in>set xs. x \<in> set (f e))"
  by auto

lemma distinct_concat_map:
  assumes "distinct xs" "\<And>x. x \<in> set xs \<Longrightarrow> distinct (f x)"
    and "\<And>x y. x \<in> set xs \<Longrightarrow> y \<in> set xs \<Longrightarrow> x \<noteq> y \<Longrightarrow> set (f x) \<inter> set (f y) = {}"
  shows "distinct (concat (map f xs))"
  using assms
proof (induction xs)
  case (Cons x xs)
  then have "distinct (concat (map f xs))" by simp
  moreover have "set (f x) \<inter> set (f y) = {}" if "y \<in> set xs" for y
    using Cons.prems(1) Cons.prems(3) [of x y] that by auto
  ultimately show ?case using Cons.prems(2) [of x] by auto
qed simp

lemma run_pieces_distinct:
  assumes "list_invar l" "run_at (dead l) h = Some r"
  shows "distinct (map (\<lambda>e. span_head (snd e)) (run_pieces l (seq_key h, r)))"
proof -
  let ?cs = "cuts_of (cuts l) (seq_key h)"
  have "sorted_wrt (<) (0 # ?cs)"
    using cuts_spec(1) cut_iff [OF list_invarD(3) [OF assms(1)] assms(2)] by auto
  then have "distinct (0 # ?cs)" unfolding strict_sorted_iff by simp
  then show ?thesis
    unfolding run_pieces_def cuts_of_def [symmetric] fst_conv snd_conv seq_stamp_key pieces_heads
    by (auto simp: distinct_map inj_on_def butlast_append)
qed

lemma node_span [simp]: "span_size (NodeSpan x) = 1"
  by (simp add: span_size_def)

lemma piece_overlap:
  assumes l: "list_invar l" and r: "run_at (dead l) h = Some r"
    and p: "is_piece l h r c d" "is_piece l h r c' d'"
    and m: "unat c \<le> m" "m < unat d" "unat c' \<le> m" "m < unat d'"
  shows "c = c' \<and> d = d'"
proof -
  have "\<not> c < c'" "\<not> c' < c" "\<not> d < d'" "\<not> d' < d"
    using p m by (auto simp: is_piece_def word_less_nat_alt)
  then show ?thesis by auto
qed

lemma spans_of_disjoint:
  assumes l: "list_invar l" and s: "s \<in> spans_of l" "j < span_size s" and t: "t \<in> spans_of l" "k < span_size t"
    and eq: "span_id s j = span_id t k"
  shows "s = t \<and> j = k"
  using l s(1)
proof (cases rule: span_cases)
  case (node x n)
  note sn = this
  from l t(1) show ?thesis
  proof (cases rule: span_cases)
    case (node y m)
    with sn s(2) t(2) eq show ?thesis by simp
  next
    case (piece h r c d)
    with piece_ids(5) [OF l piece(1,2)] t(2) have "covers h (run_len r) (span_id t k)" by simp
    with sn s(2) eq have "covers h (run_len r) x" by simp
    with piece(1) have "dead_at (dead l) x (chain_anchor h (run_anchor r) x)" by (auto simp: dead_at_def)
    with dead_not_node [OF l this] sn show ?thesis by simp
  qed
next
  case (piece h r c d)
  note sp = this and si = piece_ids [OF l piece(1,2)]
  from l t(1) show ?thesis
  proof (cases rule: span_cases)
    case (node y m)
    then have "span_id s j = y" using t(2) eq by simp
    with si(5) [of j] sp s(2) have "covers h (run_len r) y" by simp
    with sp(1) have "dead_at (dead l) y (chain_anchor h (run_anchor r) y)" by (auto simp: dead_at_def)
    with dead_not_node [OF l this] node show ?thesis by simp
  next
    case (piece h' r' c' d')
    note ti = piece_ids [OF l piece(1,2)]
    from si(5) [of j] ti(5) [of k] sp s(2) t(2) piece(3) eq
    have "covers h (run_len r) (span_id s j)" "covers h' (run_len r') (span_id s j)" by simp_all
    from runs_apart_unique [OF list_invarD(3) [OF l] sp(1) piece(1) this] have h: "h' = h" "r' = r" by simp_all
    have m: "unat c + j = unat c' + k" "unat c + j < unat d" "unat c' + k < unat d'"
      using si(1) si(4) [of j] ti(1) ti(4) [of k] sp s(2) t(2) piece(3) eq h by auto
    have "c = c' \<and> d = d'"
      using sp(2) piece(2) m h by (intro piece_overlap [OF l sp(1), of c d c' d' "unat c + j"]) auto
    with m sp piece show ?thesis by (auto simp: h)
  qed
qed

lemma no_cut_inside:
  assumes l: "list_invar l" and r: "run_at (dead l) h = Some r" and p: "is_piece l h r c d"
    and a: "a \<in> set (list_anchors l)" "parent a = Some q" "covers h (run_len r) q"
    and cut: "unat (cut_place a q h) = m" "unat c < m"
  shows "unat d \<le> m"
proof (rule ccontr)
  assume "\<not> unat d \<le> m"
  then have lt: "cut_place a q h < d" using cut by (simp add: word_less_nat_alt)
  moreover have "d \<le> run_len r" using run_ends_le [OF l r] p by (simp add: is_piece_def)
  ultimately have "cut_place a q h < run_len r" by simp
  moreover have "0 < cut_place a q h" using cut by (simp add: word_less_nat_alt)
  ultimately have "cut_place a q h \<in> run_ends l h r"
    using a cut_iff [OF list_invarD(3) [OF l] r] by (auto simp: run_ends_def)
  with p lt cut show False by (auto simp: is_piece_def word_less_nat_alt)
qed

lemma cut_place_nat:
  assumes "covers h (run_len r) q" "place_of h + run_size r \<le> 2 ^ 63"
  shows "unat (cut_place a q h) = place_of q - place_of h + (case side a of LeftSide \<Rightarrow> 0 | RightSide \<Rightarrow> 1)"
proof -
  have q: "place_of h \<le> place_of q" "place_of q < 2 ^ 63" using assms by (auto simp: covers_iff)
  then have "unat (lamport q - lamport h) = place_of q - place_of h"
    by (simp add: place_of_def unat_sub word_le_nat_alt)
  with q unat_len_add [of "lamport q - lamport h" 1] show ?thesis
    by (auto simp: cut_place_def split: side.split)
qed

lemma spans_of_attach:
  assumes l: "list_invar l" and s: "s \<in> spans_of l" "k < span_size s"
    and y: "anchor_of l y = Some (Anchor (Some (span_id s k)) sd)"
  shows "sd = LeftSide \<Longrightarrow> k = 0" "sd = RightSide \<Longrightarrow> Suc k < span_size s \<Longrightarrow> y = span_id s (Suc k)"
proof -
  let ?a = "Anchor (Some (span_id s k)) sd"
  have "(sd = LeftSide \<longrightarrow> k = 0) \<and> (sd = RightSide \<longrightarrow> Suc k < span_size s \<longrightarrow> y = span_id s (Suc k))"
    using l s(1)
  proof (cases rule: span_cases)
    case (node x n)
    with s(2) show ?thesis by simp
  next
    case (piece h r c d)
    note ids = piece_ids [OF l piece(1,2), folded piece(3)]
    have cov: "covers h (run_len r) (span_id s k)" by (rule ids(5) [OF s(2)])
    have bound: "place_of h + run_size r \<le> 2 ^ 63" by (rule runs_apartD(2) [OF list_invarD(3) [OF l] piece(1)])
    have place: "place_of (span_id s k) = place_of h + unat c + k" using ids(4) [OF s(2)] by simp
    from l y show ?thesis
    proof (cases rule: outer_anchor)
      case outer
      let ?m = "unat c + k + (case sd of LeftSide \<Rightarrow> 0 | RightSide \<Rightarrow> 1)"
      have m: "unat (cut_place ?a (span_id s k) h) = ?m"
        using cut_place_nat [OF cov bound, of ?a] place by simp
      have "unat c < ?m \<Longrightarrow> unat d \<le> ?m"
        using no_cut_inside [OF l piece(1,2) outer _ cov m] by simp
      moreover have "k < unat d - unat c" using ids(1) s(2) by simp
      ultimately show ?thesis using ids(1) by (cases sd; cases k) auto
    next
      case (inner h' r')
      then have sd: "sd = RightSide" and pred: "span_id s k = pred_id y" by simp_all
      have y': "0 < place_of y" "covers h' (run_len r') (pred_id y)"
      proof -
        have "place_of h' < place_of y"
          using inner(2,3) stamp_eq_iff [of h' y] by (auto simp: covers_iff)
        with inner(2) show "0 < place_of y" "covers h' (run_len r') (pred_id y)"
          by (auto simp: covers_iff place_of_pred_id)
      qed
      then have "place_of y = Suc (place_of (span_id s k))" "same_group h y"
        using pred cov by (auto simp: place_of_pred_id covers_iff)
      with place ids(4) [of "Suc k"] show ?thesis
        by (auto simp: sd stamp_eq_iff intro: same_group_trans same_group_sym)
    qed
  qed
  then show "sd = LeftSide \<Longrightarrow> k = 0" "sd = RightSide \<Longrightarrow> Suc k < span_size s \<Longrightarrow> y = span_id s (Suc k)" by simp_all
qed

lemma spans_of_chain:
  assumes l: "list_invar l" and s: "s \<in> spans_of l" "Suc k < span_size s"
  shows "anchor_of l (span_id s (Suc k)) = Some (Anchor (Some (span_id s k)) RightSide)"
  using l s(1)
proof (cases rule: span_cases)
  case (node x n)
  with s(2) show ?thesis by simp
next
  case (piece h r c d)
  note ids = piece_ids [OF l piece(1,2), folded piece(3)]
  let ?y = "span_id s (Suc k)"
  have places: "place_of ?y = place_of h + unat c + Suc k" "place_of (span_id s k) = place_of h + unat c + k"
    "same_group h ?y" "same_group h (span_id s k)"
    using ids(4) [of "Suc k"] ids(4) [of k] s(2) by auto
  then have "?y \<noteq> h" by auto
  moreover have "pred_id ?y = span_id s k"
    using places by (auto simp: stamp_eq_iff place_of_pred_id intro: same_group_trans same_group_sym)
  ultimately show ?thesis
    using anchor_of_dead [OF l piece(1) ids(5) [OF s(2)]] by (simp add: chain_anchor_def)
qed

lemma spans_of_cover:
  assumes l: "list_invar l" and x: "anchor_of l x = Some a"
  shows "\<exists>s\<in>spans_of l. \<exists>k. k < span_size s \<and> x = span_id s k"
  using l x
proof (cases rule: anchor_of_cases)
  case (node n)
  then have "(ln_anchor n, NodeSpan x) \<in> set (anchored_spans l)" by (auto simp: anchored_spans_iff [OF l])
  then have "NodeSpan x \<in> spans_of l" unfolding spans_of_def by force
  moreover have "x = span_id (NodeSpan x) 0" "0 < span_size (NodeSpan x)" by simp_all
  ultimately show ?thesis by blast
next
  case (dead h r)
  let ?E = "run_ends l h r" and ?m = "place_of x - place_of h"
  have m: "place_of h \<le> place_of x" "?m < run_size r" "same_group h x" using dead(2) by (auto simp: covers_iff)
  have fin: "finite ?E" by (simp add: run_ends_def)
  define c where "c = Max {e \<in> ?E. unat e \<le> ?m}"
  define d where "d = Min {e \<in> ?E. ?m < unat e}"
  have "c \<in> {e \<in> ?E. unat e \<le> ?m}"
    unfolding c_def using fin by (intro Max_in) (auto simp: run_ends_def intro: exI [of _ 0])
  then have c: "c \<in> ?E" "unat c \<le> ?m" by simp_all
  have "d \<in> {e \<in> ?E. ?m < unat e}"
    unfolding d_def using fin m by (intro Min_in) (auto simp: run_ends_def)
  then have d: "d \<in> ?E" "?m < unat d" by simp_all
  have "\<not> (c < e \<and> e < d)" if "e \<in> ?E" for e
  proof (cases "unat e \<le> ?m")
    case True
    then have "e \<le> c" unfolding c_def using that fin by (intro Max_ge) auto
    then show ?thesis by (simp add: not_less)
  next
    case False
    then have "d \<le> e" unfolding d_def using that fin by (intro Min_le) auto
    then show ?thesis by (simp add: not_less)
  qed
  with c d have p: "is_piece l h r c d" by (auto simp: is_piece_def word_less_nat_alt)
  let ?s = "DeadSpan (run_id h c) (d - c)"
  note ids = piece_ids [OF l dead(1) p]
  have "?s \<in> spans_of l" using dead(1) p by (force simp: spans_of_def anchored_spans_iff [OF l])
  moreover have "?m - unat c < span_size ?s" using ids(1) c d by simp
  moreover have "x = span_id ?s (?m - unat c)"
    using ids(4) [OF calculation(2)] m c by (auto simp: stamp_eq_iff intro: same_group_trans same_group_sym)
  ultimately show ?thesis by blast
qed

lemma spans_of_size:
  assumes l: "list_invar l" and s: "s \<in> spans_of l"
  shows "0 < span_size s" "span_last s = span_id s (span_size s - 1)"
proof -
  have "0 < span_size s \<and> span_last s = span_id s (span_size s - 1)"
    using l s
  proof (cases rule: span_cases)
    case (node x n)
    then show ?thesis by (metis One_nat_def diff_Suc_1 node_span span_head.simps(1) span_id_0 span_last.simps(1) zero_less_one)
  next
    case (piece h r c d)
    note ids = piece_ids [OF l piece(1,2), folded piece(3)]
    have "0 < unat (d - c)" using ids(1,2) piece(3) by (simp add: span_size_def)
    then have "word_of_nat (unat (d - c) - 1) = d - c - 1"
      by (simp add: of_nat_diff)
    with ids(1,2) piece(3) show ?thesis by (simp add: span_id_def span_size_def)
  qed
  then show "0 < span_size s" "span_last s = span_id s (span_size s - 1)" by simp_all
qed

lemma entry_lookup: "e \<in> set (sorted_list_of_fmap m) \<Longrightarrow> fmlookup m (fst e) = Some (snd e)"
  by (metis in_sorted_list_of_fmap prod.collapse)

lemma run_heads_covered:
  assumes "list_invar l" "e \<in> set (sorted_list_of_fmap (dead l))"
    "x \<in> set (map (\<lambda>e. span_head (snd e)) (run_pieces l e))"
  shows "run_at (dead l) (seq_stamp (fst e)) = Some (snd e) \<and> covers (seq_stamp (fst e)) (run_len (snd e)) x"
proof -
  let ?h = "seq_stamp (fst e)"
  have r: "run_at (dead l) ?h = Some (snd e)" using entry_lookup [OF assms(2)] by simp
  from assms(3) obtain c d where p: "is_piece l ?h (snd e) c d" and x: "x = run_id ?h c"
    using run_pieces_iff [OF assms(1) r] by (auto simp: prod_eq_iff)
  note ids = piece_ids [OF assms(1) r p]
  from ids(1,2) have "0 < span_size (DeadSpan (run_id ?h c) (d - c))" by simp
  from ids(5) [OF this] r x show ?thesis by simp
qed

lemma anchored_heads_distinct:
  assumes l: "list_invar l"
  shows "distinct (map (\<lambda>e. span_head (snd e)) (anchored_spans l))"
proof -
  let ?f = "\<lambda>e. span_head (snd e)"
  have nodes: "map (\<lambda>n. ln_id n) (fm_values (nodes l)) = map (\<lambda>k. seq_stamp k) (map fst (sorted_list_of_fmap (nodes l)))"
  proof -
    have "ln_id n = seq_stamp k" if "(k, n) \<in> set (sorted_list_of_fmap (nodes l))" for k n
      using that node_id [OF l, of "seq_stamp k" n] by simp
    then show ?thesis by (auto simp: fm_values_def simp del: map_fst_sorted_list_of_fmap)
  qed
  have inj: "inj_on seq_stamp A" for A by (metis inj_on_inverseI seq_key_stamp)
  have "distinct (map ln_id (fm_values (nodes l)))"
    unfolding nodes using distinct_sorted_list_of_fmap [of "nodes l"] inj by (simp add: distinct_map)
  moreover have "distinct (concat (map (\<lambda>e. map ?f (run_pieces l e)) (sorted_list_of_fmap (dead l))))"
  proof (rule distinct_concat_map)
    show "distinct (sorted_list_of_fmap (dead l))"
      using distinct_sorted_list_of_fmap [of "dead l"] by (simp only: distinct_map)
    show "distinct (map ?f (run_pieces l e))" if "e \<in> set (sorted_list_of_fmap (dead l))" for e
      using entry_lookup [OF that] run_pieces_distinct [OF l, of "seq_stamp (fst e)" "snd e"] by simp
    show "set (map ?f (run_pieces l e)) \<inter> set (map ?f (run_pieces l e')) = {}"
      if "e \<in> set (sorted_list_of_fmap (dead l))" "e' \<in> set (sorted_list_of_fmap (dead l))" "e \<noteq> e'" for e e'
    proof (rule equals0I)
      fix x assume "x \<in> set (map ?f (run_pieces l e)) \<inter> set (map ?f (run_pieces l e'))"
      then have x: "x \<in> set (map ?f (run_pieces l e))" "x \<in> set (map ?f (run_pieces l e'))" by simp_all
      from run_heads_covered [OF l that(1) x(1)] run_heads_covered [OF l that(2) x(2)]
      have "seq_stamp (fst e) = seq_stamp (fst e') \<and> snd e = snd e'"
        using runs_apart_unique [OF list_invarD(3) [OF l]] by blast
      then have "e = e'" by (metis prod.expand seq_key_stamp)
      with that(3) show False ..
    qed
  qed
  moreover
  have notin: "x \<notin> set (map ln_id (fm_values (nodes l)))"
    if "x \<in> set (map ?f (run_pieces l e))" "e \<in> set (sorted_list_of_fmap (dead l))" for x e
  proof -
    from run_heads_covered [OF l that(2,1)] have "dead_at (dead l) x (chain_anchor (seq_stamp (fst e)) (run_anchor (snd e)) x)"
      unfolding dead_at_def by blast
    from dead_not_node [OF l this] show ?thesis
      using node_id [OF l] by (auto simp: in_fm_values_stamp)
  qed
  have "set (map ln_id (fm_values (nodes l))) \<inter>
      set (concat (map (\<lambda>e. map ?f (run_pieces l e)) (sorted_list_of_fmap (dead l)))) = {}"
  proof (rule equals0I)
    fix x assume "x \<in> set (map ln_id (fm_values (nodes l))) \<inter>
      set (concat (map (\<lambda>e. map ?f (run_pieces l e)) (sorted_list_of_fmap (dead l))))"
    then have x: "x \<in> set (map ln_id (fm_values (nodes l)))"
      and "\<exists>e\<in>set (sorted_list_of_fmap (dead l)). x \<in> set (map ?f (run_pieces l e))"
      by (simp_all only: Int_iff in_concat_map)
    then obtain e where "e \<in> set (sorted_list_of_fmap (dead l))" "x \<in> set (map ?f (run_pieces l e))" by (elim bexE)
    with notin x show False by blast
  qed
  moreover have "map ?f (anchored_spans l) = map ln_id (fm_values (nodes l)) @
      concat (map (\<lambda>e. map ?f (run_pieces l e)) (sorted_list_of_fmap (dead l)))"
    by (simp add: anchored_spans_def map_concat comp_def)
  ultimately show ?thesis by (simp only: distinct_append)
qed

lemma bucket_children_sorted:
  assumes "list_invar l"
  shows "sorted_wrt (<) (map span_head (bucket (children l) p sd))"
proof -
  have "distinct (map (\<lambda>e. span_head (snd e)) (filter (\<lambda>e. fst e = Anchor p sd) (anchored_spans l)))"
    using anchored_heads_distinct [OF assms] by (rule distinct_map_filter)
  then have "distinct (map span_head (bucket (children l) p sd))"
    unfolding bucket_children by (simp add: distinct_map o_def inj_on_def)
  moreover have "sorted (map span_head (bucket (children l) p sd))"
    unfolding bucket_children by (rule sorted_sort_key)
  ultimately show ?thesis by (simp add: strict_sorted_iff)
qed

interpretation seq_tree: span_forest list_invar anchor_of children spans_of
proof
  fix l :: seq_list and s t :: seq_span and x y :: stamp and p sd and j k :: nat
  assume l: "list_invar l"
  show "finite (spans_of l)" by (simp add: spans_of_def)
  show "s \<in> set (bucket (children l) p sd) \<longleftrightarrow> s \<in> spans_of l \<and> anchor_of l (span_head s) = Some (Anchor p sd)"
    using bucket_children_iff [OF l] .
  show "sorted_wrt (<) (map span_head (bucket (children l) p sd))" using bucket_children_sorted [OF l] .
  show "anchor_of l x \<noteq> None \<Longrightarrow> \<exists>s\<in>spans_of l. \<exists>k. k < span_size s \<and> x = span_id s k"
    using spans_of_cover [OF l] by auto
  assume s: "s \<in> spans_of l"
  show "0 < span_size s" "span_last s = span_id s (span_size s - 1)" using spans_of_size [OF l s] .
  show "Suc k < span_size s \<Longrightarrow> anchor_of l (span_id s (Suc k)) = Some (Anchor (Some (span_id s k)) RightSide)"
    using spans_of_chain [OF l s] .
  show "k < span_size s \<Longrightarrow> anchor_of l y = Some (Anchor (Some (span_id s k)) LeftSide) \<Longrightarrow> k = 0"
    using spans_of_attach(1) [OF l s] by blast
  show "Suc k < span_size s \<Longrightarrow> anchor_of l y = Some (Anchor (Some (span_id s k)) RightSide) \<Longrightarrow> y = span_id s (Suc k)"
    using spans_of_attach(2) [OF l s, of k] by simp
  show "t \<in> spans_of l \<Longrightarrow> j < span_size s \<Longrightarrow> k < span_size t \<Longrightarrow> span_id s j = span_id t k \<Longrightarrow> s = t \<and> j = k"
    using spans_of_disjoint [OF l s] by blast
qed

section \<open>The order of a sequence\<close>

text \<open>The ids in sequence order, tombstones included.\<close>

definition seq_ids :: "seq_span list \<Rightarrow> stamp list" where
  "seq_ids out = concat (map span_ids out)"

definition in_order :: "seq_list \<Rightarrow> stamp list \<Rightarrow> bool" where
  "in_order l xs \<longleftrightarrow> sorted_wrt (precedes (anchor_of l)) xs \<and> (\<forall>x. x \<in> set xs \<longleftrightarrow> rooted_at (anchor_of l) x)"

lemma sorted_wrt_before_distinct: "sorted_wrt (precedes anc) xs \<Longrightarrow> distinct xs"
  by (induction xs) auto

lemma tree_order_holds:
  assumes l: "list_invar l"
  shows "\<exists>out. tree_order l = Some out \<and> in_order l (seq_ids out) \<and> set out \<subseteq> spans_of l \<and> distinct out"
proof -
  from seq_tree.tree_visits [OF l] obtain out where
    w: "walks (children l) (Suc (2 * length out)) [Expand None] out"
    and h: "holds_ids (anchor_of l) {x. rooted_at (anchor_of l) x} out" and sub: "set out \<subseteq> spans_of l" by blast
  have "distinct (concat (map span_ids out))"
    using h unfolding holds_ids_def by (blast intro: sorted_wrt_before_distinct)
  moreover have "span_ids s \<noteq> []" if "s \<in> set out" for s
    using spans_of_size(1) [OF l] sub that by (auto simp: span_ids_def)
  ultimately have d: "distinct out"
    by (induction out) (auto simp: Int_def, metis list.set_sel(1))
  have "length out = card (set out)" using d by (simp add: distinct_card)
  also have "\<dots> \<le> card (spans_of l)" using sub by (intro card_mono) (simp_all add: spans_of_def)
  also have "\<dots> \<le> length (anchored_spans l)"
    unfolding spans_of_def by (rule order.trans [OF card_image_le card_length]) simp
  finally obtain more where "walk_fuel l = Suc (2 * length out) + more"
    using le_Suc_ex [of "Suc (2 * length out)" "walk_fuel l"] by (auto simp: walk_fuel_def)
  then have "tree_order l = walk_spans more (children l) [] ([] @ out)"
    using w unfolding walks_def tree_order_def by (metis append_Nil2)
  with h sub d show ?thesis by (simp add: in_order_def holds_ids_def seq_ids_def set_eq_iff)
qed

end
