(* ===== verification/Sequence_Edit.thy ===== *)
theory Sequence_Edit
  imports Sequence_Walk
begin

text \<open>
  Reading and editing a sequence by position. The live items are the live ids in path order; an
  insert at an index puts the new item exactly there, a delete removes exactly the item there, and
  neither changes the order of the other items. Positions captured relative to an item resolve to
  the number of live items before that item.
\<close>

section \<open>Lists in path order\<close>

lemma sorted_before_unique:
  assumes "sorted_wrt (precedes anc) xs" "sorted_wrt (precedes anc) ys" "set xs = set ys"
  shows "xs = ys"
  using assms
proof (induction xs arbitrary: ys)
  case (Cons x xs)
  then obtain y ys' where ys: "ys = y # ys'" by (cases ys) auto
  have "x = y"
  proof (rule ccontr)
    assume "x \<noteq> y"
    with Cons.prems ys have "x \<in> set ys'" "y \<in> set xs" by auto
    with Cons.prems ys have "precedes anc x y" "precedes anc y x" by auto
    from before_trans [OF this] show False by simp
  qed
  moreover have "distinct (x # xs)" "distinct ys" using Cons.prems by (blast intro: sorted_wrt_before_distinct)+
  ultimately have "set xs = set ys'" using Cons.prems(3) ys by auto
  with Cons ys \<open>x = y\<close> show ?case by simp
qed simp

lemma in_order_unique: "in_order l xs \<Longrightarrow> in_order l ys \<Longrightarrow> xs = ys"
  unfolding in_order_def by (rule sorted_before_unique) auto

definition seq_order :: "seq_list \<Rightarrow> stamp list" where
  "seq_order l = (case tree_order l of None \<Rightarrow> [] | Some out \<Rightarrow> seq_ids out)"

lemma seq_order_in_order: "list_invar l \<Longrightarrow> in_order l (seq_order l)"
  using tree_order_holds [of l] by (auto simp: seq_order_def)

lemma seq_order_eqI: "list_invar l \<Longrightarrow> in_order l xs \<Longrightarrow> seq_order l = xs"
  using seq_order_in_order in_order_unique by blast

lemma seq_order_distinct: "list_invar l \<Longrightarrow> distinct (seq_order l)"
  using seq_order_in_order [of l] by (auto simp: in_order_def intro: sorted_wrt_before_distinct)

section \<open>Live items\<close>

definition live_at :: "seq_list \<Rightarrow> stamp \<Rightarrow> bool" where
  "live_at l x \<longleftrightarrow> \<not> hidden l x"

lemma live_at_slots: "live_at l x \<longleftrightarrow> (\<exists>v a. slots l x = Some (LiveSlot v a False))"
  by (auto simp: live_at_def hidden_def slots_def split: option.splits)

lemma span_live:
  assumes l: "list_invar l" and s: "s \<in> spans_of l"
  shows "(case live_span l s of None \<Rightarrow> [] | Some x \<Rightarrow> [x]) = filter (live_at l) (span_ids s)"
  using l s
proof (cases rule: span_cases)
  case (node x n)
  moreover have "span_ids (NodeSpan x) = [x]" using span_id_0 [of "NodeSpan x"] by (simp add: span_ids_def)
  ultimately show ?thesis by (simp add: live_at_def)
next
  case (piece h r c d)
  have "\<not> live_at l y" if "y \<in> set (span_ids s)" for y
  proof -
    from that piece piece_ids(5) [OF l piece(1,2)] have "covers h (run_len r) y" by (auto simp: span_ids_def)
    with piece(1) have "dead_at (dead l) y (chain_anchor h (run_anchor r) y)" unfolding dead_at_def by blast
    from dead_not_node [OF l this] show ?thesis by (simp add: live_at_def hidden_def)
  qed
  then have "filter (live_at l) (span_ids s) = []" by (simp add: filter_empty_conv)
  with piece show ?thesis by simp
qed

lemma spans_live:
  assumes l: "list_invar l" and out: "set out \<subseteq> spans_of l"
  shows "List.map_filter (live_span l) out = filter (live_at l) (seq_ids out)"
  using out
proof (induction out)
  case (Cons s out)
  then have s: "s \<in> spans_of l" by simp
  from span_live [OF l s] Cons show ?case
    by (cases "live_span l s") (simp_all add: seq_ids_def map_filter_simps)
qed (simp add: seq_ids_def map_filter_simps)

lemma live_order_eq:
  assumes "list_invar l"
  shows "live_order l = Some (filter (live_at l) (seq_order l))"
  using tree_order_holds [OF assms] spans_live [OF assms]
  by (auto simp: live_order_def seq_order_def)

section \<open>Gaps\<close>

lemma boundary_live:
  assumes l: "list_invar l" and "set out \<subseteq> spans_of l" "live \<le> index"
  shows "let b = boundary_from l None index live out in b \<le> length out \<and>
    filter (live_at l) (seq_ids (take b out)) = take (index - live) (filter (live_at l) (seq_ids out)) \<and>
    filter (live_at l) (seq_ids (drop b out)) = drop (index - live) (filter (live_at l) (seq_ids out))"
  using assms(2,3)
proof (induction out arbitrary: live)
  case Nil
  then show ?case by (simp add: seq_ids_def)
next
  case (Cons s out)
  let ?live = "case s of NodeSpan x \<Rightarrow> (if \<not> hidden l x \<and> Some x \<noteq> None then Suc live else live) | DeadSpan _ _ \<Rightarrow> live"
  let ?here = "filter (live_at l) (span_ids s)"
  have "s \<in> spans_of l" using Cons.prems(1) by simp
  from span_live [OF l this] have here: "?here = (case live_span l s of None \<Rightarrow> [] | Some x \<Rightarrow> [x])" by (rule sym)
  have n: "?live = live + length ?here" "length ?here \<le> 1"
    unfolding here by (cases s, simp_all)+
  show ?case
  proof (cases "live = index")
    case True
    then show ?thesis by (simp add: seq_ids_def)
  next
    case False
    with Cons.prems n have le: "?live \<le> index" by simp
    have sub: "set out \<subseteq> spans_of l" using Cons.prems(1) by simp
    have "index - live - length ?here = index - ?live" using n by simp
    moreover have "take (index - live) ?here = ?here" "drop (index - live) ?here = []"
      using False n(2) Cons.prems(2) by simp_all
    ultimately show ?thesis
      using Cons.IH [OF sub le] False by (simp add: seq_ids_def Let_def)
  qed
qed

lemma has_right_child_iff:
  assumes l: "list_invar l"
  shows "has_right_child p l \<longleftrightarrow> (\<exists>y. anchor_of l y = Some (Anchor (Some p) RightSide))"
proof
  assume "has_right_child p l"
  then consider (run) h r where "dead_run l p = Some (h, r)" "p \<noteq> run_id h (run_len r - 1)"
    | (node) x n where "fmlookup (nodes l) (seq_key x) = Some n" "ln_anchor n = Anchor (Some p) RightSide"
    | (head) h r where "run_at (dead l) h = Some r" "run_anchor r = Anchor (Some p) RightSide"
    unfolding has_right_child_def list_ex_iff Bex_def in_fm_values_stamp by (auto split: option.splits)
  then show "\<exists>y. anchor_of l y = Some (Anchor (Some p) RightSide)"
  proof cases
    case run
    then have r: "run_at (dead l) h = Some r" "covers h (run_len r) p" by (simp_all add: dead_run_iff list_invarD(3) [OF l])
    note ap = list_invarD(3) [OF l]
    have bound: "place_of h + run_size r \<le> 2 ^ 63" using runs_apartD(2) [OF ap r(1)] .
    let ?y = "run_id p 1"
    have p: "same_group h p" "place_of h \<le> place_of p" "place_of p + 1 < place_of h + run_size r"
      using r(2) run(2) run_end [OF ap r(1), of p] by (auto simp: covers_iff)
    have y: "place_of ?y = place_of p + 1" using p bound by (subst place_of_run_id) simp_all
    then have cov: "covers h (run_len r) ?y" and ne: "?y \<noteq> h" using p by (auto simp: covers_iff)
    have "pred_id ?y = p" using y by (simp add: stamp_eq_iff place_of_pred_id)
    with anchor_of_dead [OF l r(1) cov] ne show ?thesis by (auto simp: chain_anchor_def)
  next
    case node
    then show ?thesis using anchor_of_node by fastforce
  next
    case head
    from anchor_of_dead [OF l head(1) covers_head [OF list_invarD(3) [OF l] head(1)]] head(2)
    show ?thesis by (auto simp: chain_anchor_def)
  qed
next
  assume "\<exists>y. anchor_of l y = Some (Anchor (Some p) RightSide)"
  then obtain y where y: "anchor_of l y = Some (Anchor (Some p) RightSide)" by blast
  from l y show "has_right_child p l"
  proof (cases rule: outer_anchor)
    case outer
    then show ?thesis by (auto simp: has_right_child_def list_anchors_def list_ex_iff)
  next
    case (inner h r)
    note ap = list_invarD(3) [OF l]
    have p: "p = pred_id y" using inner(4) by simp
    have "place_of h < place_of y" using inner(2,3) stamp_eq_iff [of h y] by (auto simp: covers_iff)
    then have cov: "covers h (run_len r) p" and "place_of p + 1 < place_of h + run_size r"
      using inner(2) by (auto simp: p covers_iff place_of_pred_id)
    then have "p \<noteq> run_id h (run_len r - 1)" using run_end [OF ap inner(1), of p] by auto
    moreover have "dead_run l p = Some (h, r)" using cov inner(1) by (simp add: dead_run_iff ap)
    ultimately show ?thesis by (simp add: has_right_child_def)
  qed
qed

section \<open>Inserting at a gap\<close>

lemma path_less_extend_left:
  "path_less ps qs \<Longrightarrow> (\<And>c rs. qs \<noteq> ps @ (RightSide, c) # rs) \<Longrightarrow> path_less (ps @ es) qs"
proof (induction ps qs rule: path_less.induct)
  case (4 sd x ps sd' y qs)
  then show ?case by fastforce
qed auto

lemma path_less_extend_right:
  "path_less ps qs \<Longrightarrow> (\<And>c rs. ps \<noteq> qs @ (LeftSide, c) # rs) \<Longrightarrow> path_less ps (qs @ es)"
proof (induction ps qs rule: path_less.induct)
  case (4 sd x ps sd' y qs)
  then show ?case by fastforce
qed auto

text \<open>An id that hangs right of \<open>p\<close> where \<open>p\<close> has no right child comes between \<open>p\<close> and all that is
  after \<open>p\<close>; one that hangs left of \<open>r\<close> where nothing lies between \<open>p\<close> and \<open>r\<close> and \<open>p\<close> has a right
  child comes between \<open>p\<close> and \<open>r\<close>.\<close>

lemma before_new_right:
  assumes P: "path_to anc p P" and x: "path_to anc x (P @ [(RightSide, x)])"
    and none: "\<And>y. anc y = Some (Anchor (Some p) RightSide) \<Longrightarrow> y = x"
    and z: "precedes anc p z" "z \<noteq> x"  "\<And>y a. anc y = Some a \<Longrightarrow> parent a \<noteq> Some x"
  shows "precedes anc x z"
proof -
  from z(1) P obtain Q where Q: "path_to anc z Q" "path_less P Q"
    unfolding precedes_def using path_unique by metis
  have "Q \<noteq> P @ (RightSide, c) # rs" for c rs
  proof
    assume eq: "Q = P @ (RightSide, c) # rs"
    then have "path_to anc c (P @ [(RightSide, c)])" using Q(1) path_prefix by metis
    then obtain q where "anc c = Some (Anchor (Some q) RightSide)" "path_to anc q P"
      using path_last [OF P] unfolding path_snoc by auto
    then have "c = x" using none P path_ends by metis
    show False
    proof (cases rs)
      case Nil
      with eq \<open>c = x\<close> Q(1) x z(2) path_ends show False by metis
    next
      case (Cons e rs')
      obtain sd y where e: "e = (sd, y)" by (cases e)
      have "path_to anc y ((P @ [(RightSide, x)]) @ [(sd, y)])"
        using Q(1) eq Cons e \<open>c = x\<close> path_prefix [of anc z "P @ [(RightSide, x)]" sd y rs'] by simp
      then obtain q where "anc y = Some (Anchor (Some q) sd)" "path_to anc q (P @ [(RightSide, x)])"
        unfolding path_snoc by auto
      with x path_ends z(3) show False by (metis anchor.sel(1))
    qed
  qed
  from path_less_extend_left [OF Q(2) this] x Q(1) show ?thesis unfolding precedes_def by blast
qed

lemma before_new_left:
  assumes R: "path_to anc r R" and x: "path_to anc x (R @ [(LeftSide, x)])"
    and p: "precedes anc p r" "path_to anc p P"
    and right: "path_to anc c (P @ [(RightSide, c)])" "\<not> (precedes anc p c \<and> precedes anc c r)"
  shows "precedes anc p x"
proof -
  from p R have less: "path_less P R" unfolding precedes_def using path_unique by metis
  have "P \<noteq> R @ (LeftSide, d) # rs" for d rs
  proof
    assume eq: "P = R @ (LeftSide, d) # rs"
    have "precedes anc p c"
      using p(2) right(1) path_less_append [of P "[]" "[(RightSide, c)]"] unfolding precedes_def by fastforce
    moreover have "precedes anc c r"
      using right(1) R eq path_less_append [of R "(LeftSide, d) # rs @ [(RightSide, c)]" "[]"]
      unfolding precedes_def by fastforce
    ultimately show False using right(2) by blast
  qed
  from path_less_extend_right [OF less this] x p(2) show ?thesis unfolding precedes_def by blast
qed

lemma path_mono:
  assumes "\<And>x a. anc x = Some a \<Longrightarrow> anc' x = Some a" "path_to anc x ps"
  shows "path_to anc' x ps"
  using assms(2) by induction (auto intro: path_to.intros assms(1))

lemma before_mono:
  assumes "\<And>x a. anc x = Some a \<Longrightarrow> anc' x = Some a" "precedes anc x y"
  shows "precedes anc' x y"
  using assms(2) path_mono [of anc anc'] assms(1) unfolding precedes_def by blast

lemma before_back:
  assumes "\<And>x a. anc x = Some a \<Longrightarrow> anc' x = Some a" "rooted_at anc x" "rooted_at anc y" "precedes anc' x y"
  shows "precedes anc x y"
proof -
  from assms(2,3) obtain ps qs where p: "path_to anc x ps" "path_to anc y qs" by (auto simp: rooted_at_def)
  then have "path_to anc' x ps" "path_to anc' y qs" using path_mono [where anc = anc and anc' = anc'] assms(1) by blast+
  with assms(4) have "path_less ps qs" unfolding precedes_def using path_unique by metis
  with p show ?thesis unfolding precedes_def by blast
qed

lemma sorted_insert_between:
  assumes "sorted_wrt (precedes anc) (xs @ ys)" "xs \<noteq> [] \<Longrightarrow> precedes anc (last xs) x" "ys \<noteq> [] \<Longrightarrow> precedes anc x (hd ys)"
  shows "sorted_wrt (precedes anc) (xs @ x # ys)"
proof -
  have "precedes anc y x" if y: "y \<in> set xs" for y
  proof -
    have xs: "xs = butlast xs @ [last xs]" using y by (cases xs) auto
    then have "sorted_wrt (precedes anc) (butlast xs @ [last xs])" using assms(1) by (simp add: sorted_wrt_append)
    with y xs have "y = last xs \<or> precedes anc y (last xs)"
      by (metis UnE append_is_Nil_conv list.set_intros(1) set_append set_ConsD sorted_wrt_append list.distinct(1) empty_iff list.set(1))
    with assms(2) before_trans y show ?thesis by (metis empty_iff list.set(1))
  qed
  moreover have "precedes anc x y" if y: "y \<in> set ys" for y
  proof -
    obtain z zs where ys: "ys = z # zs" using y by (cases ys) auto
    have "precedes anc z y" if "y \<in> set zs" using assms(1) ys that by (simp add: sorted_wrt_append)
    with assms(3) before_trans y ys show ?thesis by (metis list.distinct(1) list.sel(1) set_ConsD)
  qed
  ultimately show ?thesis using assms(1) by (auto simp: sorted_wrt_append)
qed

lemma gap_ids:
  fixes i :: nat
  assumes l: "list_invar l" and out: "set out \<subseteq> spans_of l"
  defines "b \<equiv> boundary_from l None i 0 out"
  defines "xs \<equiv> seq_ids (take b out)" and "ys \<equiv> seq_ids (drop b out)"
  shows "gap_excluding out i None l = (if xs = [] then None else Some (last xs), if ys = [] then None else Some (hd ys))"
proof -
  have b: "b \<le> length out" using boundary_live [OF l out, of 0 i] by (simp add: b_def Let_def)
  have ids: "span_ids s \<noteq> []" "last (span_ids s) = span_last s" "hd (span_ids s) = span_head s" if "s \<in> set out" for s
  proof -
    have s: "0 < span_size s" "span_last s = span_id s (span_size s - 1)"
      using spans_of_size [OF l] out that by blast+
    then show "span_ids s \<noteq> []" "last (span_ids s) = span_last s" "hd (span_ids s) = span_head s"
      by (simp_all add: span_ids_def last_map hd_map)
  qed
  have "xs = [] \<longleftrightarrow> b = 0" "b \<noteq> 0 \<Longrightarrow> last xs = span_last (out ! (b - 1))"
  proof -
    have "xs = seq_ids (take (b - 1) out) @ span_ids (out ! (b - 1))" if "b \<noteq> 0"
      using that b take_Suc_conv_app_nth [of "b - 1" out] by (simp add: xs_def seq_ids_def)
    moreover have "out ! (b - 1) \<in> set out" if "b \<noteq> 0" using that b by simp
    ultimately show "xs = [] \<longleftrightarrow> b = 0" "b \<noteq> 0 \<Longrightarrow> last xs = span_last (out ! (b - 1))"
      using ids by (cases "b = 0", auto simp: xs_def seq_ids_def)+
  qed
  moreover have "ys = [] \<longleftrightarrow> b = length out" "b < length out \<Longrightarrow> hd ys = span_head (out ! b)"
  proof -
    have "ys = span_ids (out ! b) @ seq_ids (drop (Suc b) out)" if "b < length out"
      using that by (simp add: ys_def seq_ids_def flip: Cons_nth_drop_Suc)
    moreover have "out ! b \<in> set out" if "b < length out" using that by simp
    ultimately have some: "ys \<noteq> [] \<and> hd ys = span_head (out ! b)" if "b < length out"
      using ids that by simp
    moreover have "ys = []" if "b = length out" using that by (simp add: ys_def seq_ids_def)
    ultimately show "ys = [] \<longleftrightarrow> b = length out" "b < length out \<Longrightarrow> hd ys = span_head (out ! b)"
      using b by (auto simp: le_less)
  qed
  ultimately show ?thesis using b by (simp add: gap_excluding_def Let_def flip: b_def)
qed

text \<open>An id that the sequence does not hold and that no held id hangs on.\<close>

definition fresh_id :: "seq_list \<Rightarrow> stamp \<Rightarrow> bool" where
  "fresh_id l x \<longleftrightarrow> slots l x = None \<and> (\<forall>a\<in>set (list_anchors l). parent a \<noteq> Some x) \<and> place_of x < 2 ^ 63"

lemma fresh_id_anchor:
  assumes l: "list_invar l" and x: "fresh_id l x" and y: "anchor_of l y = Some a"
  shows "parent a \<noteq> Some x"
  using l y
proof (cases rule: outer_anchor)
  case outer
  with x show ?thesis by (simp add: fresh_id_def)
next
  case (inner h r)
  have "place_of h < place_of y" using inner(2,3) stamp_eq_iff [of h y] by (auto simp: covers_iff)
  then have "covers h (run_len r) (pred_id y)" using inner(2) by (auto simp: covers_iff place_of_pred_id)
  with inner(1) have "dead_at (dead l) (pred_id y) (chain_anchor h (run_anchor r) (pred_id y))"
    unfolding dead_at_def by blast
  then have "slots l (pred_id y) \<noteq> None" using slots_Dead_iff [OF l] by blast
  with x inner(4) show ?thesis by (auto simp: fresh_id_def)
qed

lemma placement_between:
  assumes l: "list_invar l" and ord: "in_order l (xs @ ys)" and x: "fresh_id l x"
  defines "left \<equiv> (if xs = [] then None else Some (last xs))" and "right \<equiv> (if ys = [] then None else Some (hd ys))"
  defines "a \<equiv> placement left right l"
  assumes anc': "anc' = (\<lambda>y. if y = x then Some a else anchor_of l y)"
  shows "rooted_at anc' x" "xs \<noteq> [] \<Longrightarrow> precedes anc' (last xs) x" "ys \<noteq> [] \<Longrightarrow> precedes anc' x (hd ys)"
proof -
  let ?anc = "anchor_of l"
  have new: "?anc x = None" using x by (simp add: anchor_of_slots fresh_id_def)
  have ext: "?anc y = Some b \<Longrightarrow> anc' y = Some b" for y b using new by (auto simp: anc')
  have path: "\<exists>ps. path_to ?anc y ps \<and> path_to anc' y ps" if "y \<in> set (xs @ ys)" for y
    using ord that path_mono [of ?anc anc'] ext unfolding in_order_def rooted_at_def by blast
  have sorted: "sorted_wrt (precedes ?anc) (xs @ ys)" using ord by (simp add: in_order_def)
  have mono: "precedes ?anc y z \<Longrightarrow> precedes anc' y z" for y z using before_mono [of ?anc anc'] ext by blast
  have noparent: "anc' y = Some b \<Longrightarrow> parent b \<noteq> Some x" for y b
  proof -
    have "parent a \<noteq> Some x"
    proof -
      have "p \<noteq> x" if "p \<in> set (xs @ ys)" for p
        using path [OF that] new by (auto elim: path_toE)
      then have "left \<noteq> Some x" "right \<noteq> Some x" by (auto simp: left_def right_def)
      then show ?thesis unfolding a_def
        by (cases "(left, right, l)" rule: placement.cases) auto
    qed
    then show "anc' y = Some b \<Longrightarrow> parent b \<noteq> Some x"
      using fresh_id_anchor [OF l x] by (auto simp: anc' split: if_splits)
  qed
  have step: "path_to anc' x (P @ [(sd, x)])" if "a = Anchor (Some p) sd" "path_to anc' p P" for p sd P
    using that by (intro path_step) (simp_all add: anc')
  consider (empty) "xs = []" "ys = []" "a = Anchor None RightSide"
    | (right) p where "xs \<noteq> []" "p = last xs" "a = Anchor (Some p) RightSide"
        "ys \<noteq> [] \<Longrightarrow> \<not> has_right_child p l"
    | (first) r where "xs = []" "ys \<noteq> []" "r = hd ys" "a = Anchor (Some r) LeftSide"
    | (inner) p r where "xs \<noteq> []" "ys \<noteq> []" "p = last xs" "r = hd ys" "has_right_child p l" "a = Anchor (Some r) LeftSide"
    unfolding a_def left_def right_def by (cases "xs = []"; cases "ys = []") (auto split: if_splits)
  then have "rooted_at anc' x \<and> (xs \<noteq> [] \<longrightarrow> precedes anc' (last xs) x) \<and> (ys \<noteq> [] \<longrightarrow> precedes anc' x (hd ys))"
  proof cases
    case empty
    then have "path_to anc' x [(RightSide, x)]" by (intro path_root) (simp add: anc')
    with empty show ?thesis unfolding rooted_at_def by blast
  next
    case right
    then obtain P where P: "path_to ?anc p P" "path_to anc' p P" using path [of p] by auto
    note xp = step [OF right(3) P(2)]
    have "precedes anc' p x"
      using P(2) xp path_less_append [of P "[]" "[(RightSide, x)]"] unfolding precedes_def by fastforce
    moreover have "precedes anc' x (hd ys)" if "ys \<noteq> []"
    proof (rule before_new_right [OF P(2) xp])
      show "y = x" if "anc' y = Some (Anchor (Some p) RightSide)" for y
        using right(4) [OF \<open>ys \<noteq> []\<close>] that by (auto simp: has_right_child_iff [OF l] anc' split: if_splits)
      have "hd ys \<in> set ys" "last xs \<in> set xs" using that right(1) by simp_all
      then show "precedes anc' p (hd ys)" using sorted right(2) by (intro mono) (auto simp: sorted_wrt_append)
      show "hd ys \<noteq> x" using path [of "hd ys"] \<open>hd ys \<in> set ys\<close> new by (auto elim: path_toE)
      show "parent b \<noteq> Some x" if "anc' y = Some b" for y b using noparent that .
    qed
    ultimately show ?thesis using xp right(2) unfolding rooted_at_def by blast
  next
    case first
    then obtain R where R: "path_to anc' r R" using path [of r] by auto
    note xr = step [OF first(4) R]
    have "precedes anc' x r"
      using R xr path_less_append [of R "[(LeftSide, x)]" "[]"] unfolding precedes_def by fastforce
    with first xr show ?thesis unfolding rooted_at_def by blast
  next
    case inner
    then obtain R where R: "path_to ?anc r R" "path_to anc' r R" using path [of r] by auto
    from inner obtain P where P: "path_to ?anc p P" "path_to anc' p P" using path [of p] by auto
    note xr = step [OF inner(6) R(2)]
    have "precedes anc' x r"
      using R(2) xr path_less_append [of R "[(LeftSide, x)]" "[]"] unfolding precedes_def by fastforce
    moreover have "precedes anc' p x"
    proof -
      from inner(5) obtain c where c: "?anc c = Some (Anchor (Some p) RightSide)" by (auto simp: has_right_child_iff [OF l])
      have cp: "path_to ?anc c (P @ [(RightSide, c)])" using c P(1) by (rule path_step)
      then have cmem: "c \<in> set (xs @ ys)" using ord unfolding in_order_def rooted_at_def by blast
      have pr: "precedes ?anc p r" using sorted inner by (auto simp: sorted_wrt_append)
      have "\<not> (precedes ?anc p c \<and> precedes ?anc c r)"
      proof
        assume bc: "precedes ?anc p c \<and> precedes ?anc c r"
        have eq: "xs @ ys = butlast xs @ p # r # tl ys" using inner by simp
        have s: "sorted_wrt (precedes ?anc) (butlast xs @ p # r # tl ys)" using sorted unfolding eq .
        have "c \<in> set (butlast xs) \<or> c = p \<or> c = r \<or> c \<in> set (tl ys)" using cmem unfolding eq by auto
        moreover have "precedes ?anc c p" if "c \<in> set (butlast xs)" using s that by (simp add: sorted_wrt_append)
        moreover have "precedes ?anc r c" if "c \<in> set (tl ys)" using s that by (simp add: sorted_wrt_append)
        ultimately consider "precedes ?anc c p" | "c = p" | "c = r" | "precedes ?anc r c" by blast
        then show False using bc before_trans [of ?anc p c p] before_trans [of ?anc c r c] by cases auto
      qed
      moreover have "rooted_at ?anc c" "rooted_at ?anc p" "rooted_at ?anc r"
        using cp P(1) R(1) unfolding rooted_at_def by blast+
      ultimately have "\<not> (precedes anc' p c \<and> precedes anc' c r)"
        using before_back [where anc = ?anc and anc' = anc', OF ext] by blast
      then show ?thesis
        using before_new_left [OF R(2) xr mono [OF pr] P(2) path_mono [where anc = ?anc and anc' = anc', OF ext cp]] by blast
    qed
    ultimately show ?thesis using xr inner(3,4) unfolding rooted_at_def by blast
  qed
  then show "rooted_at anc' x" "xs \<noteq> [] \<Longrightarrow> precedes anc' (last xs) x" "ys \<noteq> [] \<Longrightarrow> precedes anc' x (hd ys)" by blast+
qed

lemma rooted_extend:
  assumes ext: "\<And>y. anc' y = (if y = x then Some a else anc y)" and new: "anc x = None"
    and leaf: "\<And>y b. anc' y = Some b \<Longrightarrow> parent b \<noteq> Some x" and y: "rooted_at anc' y" "y \<noteq> x"
  shows "rooted_at anc y"
proof -
  from y(1) obtain ps where "path_to anc' y ps" by (auto simp: rooted_at_def)
  then have "y \<noteq> x \<Longrightarrow> path_to anc y ps"
  proof (induction rule: path_to.induct)
    case (path_root y sd)
    then show ?case by (intro path_to.intros) (simp add: ext)
  next
    case (path_step y p sd ps)
    have "p \<noteq> x" using leaf [OF path_step.hyps(1)] by simp
    with path_step show ?case by (intro path_to.intros) (simp_all add: ext)
  qed
  with y(2) show ?thesis by (auto simp: rooted_at_def)
qed

lemma anchor_of_puts: "puts l x s l' \<Longrightarrow> anchor_of l' y = (if y = x then map_option slot_anchor s else anchor_of l y)"
  by (simp add: anchor_of_slots putsD(3))

lemma insert_between:
  assumes l: "list_invar l" and ord: "in_order l (xs @ ys)" and x: "fresh_id l x"
    and a: "a = placement (if xs = [] then None else Some (last xs)) (if ys = [] then None else Some (hd ys)) l"
    and l': "puts l x (Some (LiveSlot v a False)) l'"
  shows "in_order l' (xs @ x # ys)"
proof -
  have anc': "anchor_of l' = (\<lambda>y. if y = x then Some a else anchor_of l y)"
    using anchor_of_puts [OF l'] by auto
  have new: "anchor_of l x = None" using x by (simp add: anchor_of_slots fresh_id_def)
  have ext: "anchor_of l y = Some b \<Longrightarrow> anchor_of l' y = Some b" for y b using new by (auto simp: anc')
  note place = placement_between [OF l ord x, of "anchor_of l'", folded a, OF anc']
  have sorted: "sorted_wrt (precedes (anchor_of l)) (xs @ ys)" using ord by (simp add: in_order_def)
  then have "sorted_wrt (precedes (anchor_of l')) (xs @ ys)"
    by (rule sorted_wrt_mono_rel [rotated]) (rule before_mono [where anc = "anchor_of l", OF ext])
  then have "sorted_wrt (precedes (anchor_of l')) (xs @ x # ys)"
    by (rule sorted_insert_between) (rule place(2,3); assumption)+
  moreover have "y \<in> set (xs @ x # ys) \<longleftrightarrow> rooted_at (anchor_of l') y" for y
  proof
    assume "y \<in> set (xs @ x # ys)"
    then consider "y = x" | "rooted_at (anchor_of l) y" using ord by (auto simp: in_order_def)
    then show "rooted_at (anchor_of l') y"
      using place(1) path_mono [where anc = "anchor_of l" and anc' = "anchor_of l'", OF ext]
      unfolding rooted_at_def by cases blast+
  next
    assume y: "rooted_at (anchor_of l') y"
    have leaf: "parent b \<noteq> Some x" if "anchor_of l' z = Some b" for z b
    proof (cases "z = x")
      case True
      have "p \<noteq> x" if "p \<in> set (xs @ ys)" for p
        using ord that new rooted_anchor unfolding in_order_def by metis
      then have "xs \<noteq> [] \<Longrightarrow> last xs \<noteq> x" "ys \<noteq> [] \<Longrightarrow> hd ys \<noteq> x" by simp_all
      then have "parent a \<noteq> Some x" unfolding a by (cases "xs = []"; cases "ys = []") auto
      with that True show ?thesis by (simp add: anc')
    next
      case False
      with that fresh_id_anchor [OF l x] show ?thesis by (simp add: anc')
    qed
    show "y \<in> set (xs @ x # ys)"
    proof (cases "y = x")
      case False
      have "rooted_at (anchor_of l) y"
        using rooted_extend [where anc' = "anchor_of l'" and anc = "anchor_of l" and x = x and a = a, OF _ new leaf y False]
        by (simp add: anc')
      with ord show ?thesis by (simp add: in_order_def)
    qed simp
  qed
  ultimately show ?thesis by (simp add: in_order_def)
qed

lemma list_contains_slots: "list_invar l \<Longrightarrow> list_contains l x \<longleftrightarrow> slots l x \<noteq> None"
  by (auto simp: list_contains_def slots_None_iff dead_run_None list_invarD dead_at_def)

lemma list_insert_effect:
  assumes l: "list_invar l" and x: "fresh_id l x"
  shows "\<exists>l' a. list_insert i v x l = Some l' \<and> puts l x (Some (LiveSlot v a False)) l' \<and>
    (\<exists>xs ys. seq_order l = xs @ ys \<and> seq_order l' = xs @ x # ys \<and>
       filter (live_at l) xs = take i (filter (live_at l) (seq_order l)) \<and>
       filter (live_at l) ys = drop i (filter (live_at l) (seq_order l)))"
proof -
  from tree_order_holds [OF l] obtain out where out: "tree_order l = Some out" "in_order l (seq_ids out)" "set out \<subseteq> spans_of l"
    by blast
  define b where "b = boundary_from l None i 0 out"
  define xs where "xs = seq_ids (take b out)"
  define ys where "ys = seq_ids (drop b out)"
  have split: "seq_ids out = xs @ ys"
    unfolding xs_def ys_def seq_ids_def by (metis append_take_drop_id concat_append map_append)
  define a where "a = placement (if xs = [] then None else Some (last xs)) (if ys = [] then None else Some (hd ys)) l"
  have place: "list_place i l = Some a"
    using gap_ids [OF l out(3), of i] out(1)
    by (simp add: list_place_def place_excluding_def a_def xs_def ys_def b_def)
  have none: "slots l x = None" and bound: "place_of x < 2 ^ 63" using x by (simp_all add: fresh_id_def)
  let ?l = "insert_at x v a l"
  have ins: "puts l x (Some (LiveSlot v a False)) ?l" using insert_at_puts [OF l bound, of v a] none by simp
  have "in_order ?l (xs @ x # ys)"
    by (rule insert_between [OF l _ x a_def ins]) (use out split in simp)
  then have order: "seq_order ?l = xs @ x # ys" by (rule seq_order_eqI [OF putsD(1) [OF ins]])
  have "seq_order l = xs @ ys" using out split by (simp add: seq_order_def)
  moreover have "list_insert i v x l = Some ?l"
    using place none by (simp add: list_insert_def list_contains_slots [OF l])
  ultimately show ?thesis
    using ins order boundary_live [OF l out(3), of 0 i] split
    by (intro exI [of _ ?l] exI [of _ a] exI [of _ xs] exI [of _ ys] conjI)
      (simp_all add: Let_def b_def [symmetric] xs_def [symmetric] ys_def [symmetric])
qed

lemma live_at_puts: "puts l x s l' \<Longrightarrow> live_at l' y = (if y = x then (\<exists>v a. s = Some (LiveSlot v a False)) else live_at l y)"
  by (simp add: live_at_slots putsD(3))

lemma not_in_order: "list_invar l \<Longrightarrow> slots l x = None \<Longrightarrow> x \<notin> set (seq_order l)"
  using seq_order_in_order [of l] rooted_anchor [of "anchor_of l" x] by (auto simp: in_order_def anchor_of_slots)

text \<open>An insert of a fresh id at an index puts it at that index of the live items, or at the end
  if there are fewer, and leaves the other items and their order alone.\<close>

theorem insert_at_index:
  assumes "list_invar l" "fresh_id l x" "live_order l = Some xs"
  shows "\<exists>l'. list_insert i v x l = Some l' \<and> live_order l' = Some (take i xs @ x # drop i xs) \<and>
    node_value l' x = Some v \<and> (\<forall>y. y \<noteq> x \<longrightarrow> slots l' y = slots l y)"
proof -
  from list_insert_effect [OF assms(1,2)] obtain l' a as bs where ins: "list_insert i v x l = Some l'"
    and p: "puts l x (Some (LiveSlot v a False)) l'" and order: "seq_order l = as @ bs" "seq_order l' = as @ x # bs"
    and live: "filter (live_at l) as = take i (filter (live_at l) (seq_order l))"
      "filter (live_at l) bs = drop i (filter (live_at l) (seq_order l))" by blast
  have xs: "xs = filter (live_at l) (seq_order l)" using assms(3) live_order_eq [OF assms(1)] by simp
  have "x \<notin> set (as @ bs)" using not_in_order [OF assms(1)] assms(2) order(1) by (simp add: fresh_id_def)
  then have "filter (live_at l') as = filter (live_at l) as" "filter (live_at l') bs = filter (live_at l) bs"
    by (intro filter_cong refl; auto simp: live_at_puts [OF p])+
  then have "live_order l' = Some (take i xs @ x # drop i xs)"
    using live xs by (simp add: live_order_eq [OF putsD(1) [OF p]] order(2) live_at_puts [OF p])
  moreover have "node_value l' x = Some v"
    using putsD(3) [OF p, of x] by (auto simp: slots_Live_iff node_value_def)
  ultimately show ?thesis using ins putsD(3) [OF p] by auto
qed

section \<open>Deleting by position\<close>

lemma seq_order_same_anchors:
  assumes "list_invar l" "list_invar l'" "\<And>y. anchor_of l' y = anchor_of l y"
  shows "seq_order l' = seq_order l"
proof (rule seq_order_eqI [OF assms(2)])
  have "anchor_of l' = anchor_of l" using assms(3) by (rule ext)
  with seq_order_in_order [OF assms(1)] show "in_order l' (seq_order l)" by (simp add: in_order_def)
qed

lemma filter_neq: "x \<notin> set ys \<Longrightarrow> filter (\<lambda>y. y \<noteq> x) ys = ys"
  by (induction ys) auto

lemma distinct_filter_nth:
  assumes "distinct xs" "i < length xs"
  shows "filter (\<lambda>y. y \<noteq> xs ! i) xs = take i xs @ drop (Suc i) xs"
proof -
  have xs: "xs = take i xs @ xs ! i # drop (Suc i) xs" using assms(2) by (rule id_take_nth_drop)
  then have "distinct (take i xs @ xs ! i # drop (Suc i) xs)" using assms(1) by simp
  then have "filter (\<lambda>y. y \<noteq> xs ! i) (take i xs @ xs ! i # drop (Suc i) xs) = take i xs @ drop (Suc i) xs"
    by (simp add: filter_neq)
  then show ?thesis using xs by simp
qed

text \<open>A delete at an index tombstones the item there, leaves the other items and their order
  alone, and does nothing past the end.\<close>

theorem delete_at_index:
  assumes "list_invar l" "live_order l = Some xs"
  shows "\<exists>l'. list_delete i l = Some l' \<and> live_order l' = Some (take i xs @ drop (Suc i) xs) \<and>
    (if i < length xs then is_tombstoned l' (xs ! i) else l' = l) \<and>
    (\<forall>y. i < length xs \<and> y = xs ! i \<or> slots l' y = slots l y)"
proof (cases "i < length xs")
  case False
  then show ?thesis using assms by (simp add: list_delete_def node_at_def)
next
  case True
  let ?x = "xs ! i" and ?l = "delete_id (xs ! i) l"
  have xs: "xs = filter (live_at l) (seq_order l)" using assms(2) live_order_eq [OF assms(1)] by simp
  have "\<forall>y\<in>set xs. live_at l y" unfolding xs by simp
  then have "live_at l ?x" using True by simp
  then obtain v a where s: "slots l ?x = Some (LiveSlot v a False)" by (auto simp: live_at_slots)
  have p: "puts l ?x (Some (DeadSlot a)) ?l" using delete_id_puts [OF assms(1), of ?x] s by simp
  note inv = putsD(1) [OF p]
  have "anchor_of ?l y = anchor_of l y" for y
    using anchor_of_puts [OF p, of y] s by (simp add: anchor_of_slots)
  then have order: "seq_order ?l = seq_order l" using seq_order_same_anchors [OF assms(1) inv] by blast
  have "live_order ?l = Some (filter (live_at ?l) (seq_order l))"
    by (simp add: live_order_eq [OF inv] order)
  also have "filter (live_at ?l) (seq_order l) = filter (\<lambda>y. y \<noteq> ?x) xs"
    unfolding xs filter_filter by (intro filter_cong refl) (auto simp: live_at_puts [OF p] xs [symmetric])
  also have "\<dots> = take i xs @ drop (Suc i) xs"
  proof (rule distinct_filter_nth [OF _ True])
    have "distinct (seq_order l)"
      using seq_order_in_order [OF assms(1)] by (auto simp: in_order_def intro: sorted_wrt_before_distinct)
    then show "distinct xs" unfolding xs by simp
  qed
  finally have live: "live_order ?l = Some (take i xs @ drop (Suc i) xs)" .
  have "dead_at (dead ?l) ?x a" using putsD(3) [OF p, of ?x] by (simp add: slots_Dead_iff [OF inv])
  then have "is_tombstoned ?l ?x"
    by (auto simp: is_tombstoned_def dead_run_None list_invarD(3) [OF inv] dead_at_def)
  moreover have "list_delete i l = Some ?l" using assms(2) True by (simp add: list_delete_def node_at_def)
  ultimately show ?thesis using live True putsD(3) [OF p] by auto
qed

section \<open>The order is stable\<close>

text \<open>The walk always ends within its fuel and lists exactly the ids that hang on the root, live
  or deleted, in the order of their paths: left children, the id, right children, children of one
  side by stamp. Storing deleted ids as runs does not show.\<close>

theorem walk_lists_path_order:
  assumes "list_invar l"
  shows "\<exists>out. tree_order l = Some out \<and> sorted_wrt (precedes (anchor_of l)) (seq_ids out) \<and>
    (\<forall>x. x \<in> set (seq_ids out) \<longleftrightarrow> rooted_at (anchor_of l) x)"
  using tree_order_holds [OF assms] by (auto simp: in_order_def)

lemma seq_order_mono:
  assumes l: "list_invar l" and l': "list_invar l'"
    and ext: "\<And>x a. anchor_of l x = Some a \<Longrightarrow> anchor_of l' x = Some a"
  shows "filter (\<lambda>x. x \<in> set (seq_order l)) (seq_order l') = seq_order l"
proof (rule sorted_before_unique)
  note o1 = seq_order_in_order [OF l] and o2 = seq_order_in_order [OF l']
  show "sorted_wrt (precedes (anchor_of l')) (filter (\<lambda>x. x \<in> set (seq_order l)) (seq_order l'))"
    using o2 by (simp add: in_order_def sorted_wrt_filter)
  show "sorted_wrt (precedes (anchor_of l')) (seq_order l)"
    using o1 unfolding in_order_def
    by (auto elim!: sorted_wrt_mono_rel [rotated] intro: before_mono [where anc = "anchor_of l", OF ext])
  have "set (seq_order l) \<subseteq> set (seq_order l')"
    using o1 o2 path_mono [where anc = "anchor_of l" and anc' = "anchor_of l'", OF ext]
    unfolding in_order_def rooted_at_def by blast
  then show "set (filter (\<lambda>x. x \<in> set (seq_order l)) (seq_order l')) = set (seq_order l)" by auto
qed

lemma history_anchor_mono:
  assumes h: "history xs" "history (xs @ ys)" and one: "one_claim (xs @ ys)"
    and a: "anchor_of (run_ops i xs) x = Some a"
  shows "anchor_of (run_ops i (xs @ ys)) x = Some a"
proof -
  have l: "left_at (set xs) x (slots (run_ops i xs) x)"
    "left_at (set (xs @ ys)) x (slots (run_ops i (xs @ ys)) x)"
    using run_ops_left [OF h(1), of i] run_ops_left [OF h(2), of i] by blast+
  from a obtain s where s: "slots (run_ops i xs) x = Some s" "a = slot_anchor s"
    by (auto simp: anchor_of_slots)
  with l(1) obtain v where v: "Claim x v a \<in> set xs"
    by (auto simp: left_at_def wins_def split: if_splits)
  then have "claimed (set (xs @ ys)) x" by (auto simp: claimed_def)
  with l(2) obtain w b where w: "wins (set (xs @ ys)) x w b" "slots (run_ops i (xs @ ys)) x =
      Some (if Delete x \<in> set (xs @ ys) then DeadSlot b else LiveSlot w b False)"
    by (auto simp: left_at_def)
  have "Claim x w b \<in> set (xs @ ys)" using w(1) by (simp add: wins_def)
  with one_claimD [OF one, of x w b v a] v have "b = a" by simp
  with w(2) show ?thesis by (simp add: anchor_of_slots)
qed


section \<open>Positions\<close>

definition live_before :: "seq_list \<Rightarrow> stamp \<Rightarrow> nat" where
  "live_before l x = length (filter (live_at l) (takeWhile (\<lambda>y. y \<noteq> x) (seq_order l)))"

lemma span_id_covers:
  assumes l: "list_invar l" and s: "DeadSpan h n \<in> spans_of l"
  shows "covers h n x \<longleftrightarrow> x \<in> set (span_ids (DeadSpan h n))"
  using l s
proof (cases rule: span_cases)
  case (piece h' r c d)
  note ids = piece_ids [OF l piece(1,2), folded piece(3)]
  have n: "unat n = span_size (DeadSpan h n)" by (simp add: span_size_def)
  have h: "h = run_id h' c" "n = d - c" using piece(3) by simp_all
  have "0 < span_size (DeadSpan h n)" using ids(1,2) by simp
  from ids(4) [OF this] have p: "same_group h' h" "place_of h = place_of h' + unat c" by simp_all
  show ?thesis
  proof
    assume x: "covers h n x"
    let ?k = "place_of x - place_of h"
    have "?k < span_size (DeadSpan h n)" using x n by (auto simp: covers_iff)
    moreover have "x = span_id (DeadSpan h n) ?k"
      using ids(4) [OF calculation] x p by (auto simp: covers_iff stamp_eq_iff same_group_def)
    ultimately show "x \<in> set (span_ids (DeadSpan h n))" by (auto simp: span_ids_def)
  next
    assume "x \<in> set (span_ids (DeadSpan h n))"
    then obtain k where "k < span_size (DeadSpan h n)" "x = span_id (DeadSpan h n) k" by (auto simp: span_ids_def)
    with ids(4) [of k] p n show "covers h n x"
      by (auto simp: covers_iff intro: same_group_trans same_group_sym)
  qed
qed simp

lemma rank_from_spec:
  assumes l: "list_invar l" and "set out \<subseteq> spans_of l" "distinct (seq_ids out)"
  shows "rank_from l x k out =
    (if x \<in> set (seq_ids out)
     then Some (k + length (filter (live_at l) (takeWhile (\<lambda>y. y \<noteq> x) (seq_ids out))), live_at l x)
     else None)"
  using assms(2,3)
proof (induction out arbitrary: k)
  case Nil
  then show ?case by (simp add: seq_ids_def)
next
  case (Cons s out)
  have s: "s \<in> spans_of l" using Cons.prems(1) by simp
  have rest: "set out \<subseteq> spans_of l" "distinct (seq_ids out)" using Cons.prems by (simp_all add: seq_ids_def)
  note IH = Cons.IH [OF rest]
  have ids: "seq_ids (s # out) = span_ids s @ seq_ids out" by (simp add: seq_ids_def)
  show ?case
  proof (cases s)
    case (NodeSpan y)
    then have one: "span_ids s = [y]" using span_id_0 [of s] by (simp add: span_ids_def)
    have hid: "hidden l z = (\<not> live_at l z)" for z by (simp add: live_at_def)
    show ?thesis
      unfolding ids one unfolding NodeSpan rank_from.simps IH hid by (cases "y = x"; cases "live_at l y") simp_all
  next
    case (DeadSpan h n)
    have "filter (live_at l) (span_ids s) = []" using span_live [OF l s] DeadSpan by simp
    then have none: "\<not> live_at l y" if "y \<in> set (span_ids s)" for y
      using that by (auto simp: filter_empty_conv)
    then have f: "filter (live_at l) (takeWhile P (span_ids s)) = []" "filter (live_at l) (span_ids s) = []" for P
      by (auto simp: filter_empty_conv dest: set_takeWhileD)
    show ?thesis
    proof (cases "x \<in> set (span_ids s)")
      case True
      then have "covers h n x" using span_id_covers [OF l] s DeadSpan by simp
      moreover have "takeWhile (\<lambda>y. y \<noteq> x) (seq_ids (s # out)) = takeWhile (\<lambda>y. y \<noteq> x) (span_ids s)"
        using True by (simp add: ids takeWhile_append1)
      ultimately show ?thesis using True DeadSpan none f(1) ids by simp
    next
      case False
      then have "\<not> covers h n x" using span_id_covers [OF l] s DeadSpan by simp
      moreover have "takeWhile (\<lambda>y. y \<noteq> x) (seq_ids (s # out)) = span_ids s @ takeWhile (\<lambda>y. y \<noteq> x) (seq_ids out)"
        unfolding ids using False by (intro takeWhile_append2) auto
      ultimately show ?thesis using False DeadSpan f(2) ids IH by simp
    qed
  qed
qed

lemma live_rank_spec:
  assumes l: "list_invar l"
  shows "live_rank x l = Some (if x \<in> set (seq_order l) then Some (live_before l x, live_at l x) else None)"
proof -
  from tree_order_holds [OF l] obtain out where out: "tree_order l = Some out" "in_order l (seq_ids out)" "set out \<subseteq> spans_of l"
    by blast
  have "distinct (seq_ids out)" using out(2) by (auto simp: in_order_def intro: sorted_wrt_before_distinct)
  from rank_from_spec [OF l out(3) this, of x 0] out(1) show ?thesis
    by (simp add: live_rank_def live_before_def seq_order_def)
qed

text \<open>All ids hang on the root: no claim came without the ids it hangs on.\<close>

definition all_rooted :: "seq_list \<Rightarrow> bool" where
  "all_rooted l \<longleftrightarrow> (\<forall>x. anchor_of l x \<noteq> None \<longrightarrow> x \<in> set (seq_order l))"

lemma list_len_live:
  assumes l: "list_invar l" and all: "all_rooted l" and xs: "live_order l = Some xs"
  shows "list_len l = length xs"
proof -
  let ?ns = "filter (\<lambda>n. \<not> moved_away n) (fm_values (nodes l))"
  have xs': "xs = filter (live_at l) (seq_order l)" using xs live_order_eq [OF l] by simp
  have d: "distinct (map ln_id (fm_values (nodes l)))"
    using anchored_heads_distinct [OF l] by (simp add: anchored_spans_def comp_def)
  then have "distinct (map ln_id ?ns)" by (rule distinct_map_filter)
  moreover have "set (map ln_id ?ns) = set xs"
  proof -
    have "x \<in> set (map ln_id ?ns) \<longleftrightarrow> live_at l x" for x
    proof
      assume "x \<in> set (map ln_id ?ns)"
      then obtain n where n: "n \<in> set (fm_values (nodes l))" "\<not> moved_away n" "x = ln_id n" by auto
      then obtain y where y: "fmlookup (nodes l) (seq_key y) = Some n" by (auto simp: in_fm_values_stamp)
      with node_id [OF l y] n show "live_at l x" by (simp add: live_at_def hidden_def)
    next
      assume "live_at l x"
      then obtain n where n: "fmlookup (nodes l) (seq_key x) = Some n" "\<not> moved_away n"
        by (auto simp: live_at_def hidden_def split: option.splits)
      then have "n \<in> set ?ns" using fm_values_I by simp
      moreover have "x = ln_id n" using node_id [OF l n(1)] by simp
      ultimately show "x \<in> set (map ln_id ?ns)" by simp
    qed
    moreover have "x \<in> set xs \<longleftrightarrow> live_at l x" for x
      using all unfolding xs' all_rooted_def
      by (auto simp: live_at_slots anchor_of_slots)
    ultimately show ?thesis by blast
  qed
  moreover have "distinct xs"
    unfolding xs' using seq_order_distinct [OF l] by simp
  ultimately have "length (map ln_id ?ns) = length xs" by (metis distinct_card)
  then show ?thesis by (simp add: list_len_def)
qed

lemma takeWhile_neq_nth:
  "distinct xs \<Longrightarrow> i < length xs \<Longrightarrow> takeWhile (\<lambda>y. y \<noteq> xs ! i) xs = take i xs"
proof (induction xs arbitrary: i)
  case (Cons x xs)
  then show ?case by (cases i) auto
qed simp

lemma filter_takeWhile_neq:
  "P x \<Longrightarrow> filter P (takeWhile (\<lambda>y. y \<noteq> x) xs) = takeWhile (\<lambda>y. y \<noteq> x) (filter P xs)"
proof (induction xs)
  case (Cons y ys)
  then show ?case by (cases "y = x"; cases "P y") simp_all
qed simp

lemma live_before_nth:
  assumes l: "list_invar l" and i: "i < length (filter (live_at l) (seq_order l))"
  defines "x \<equiv> filter (live_at l) (seq_order l) ! i"
  shows "x \<in> set (seq_order l)" "live_at l x" "live_before l x = i"
proof -
  have "x \<in> set (filter (live_at l) (seq_order l))" unfolding x_def using i by (rule nth_mem)
  then show "x \<in> set (seq_order l)" and live: "live_at l x" by simp_all
  have "distinct (filter (live_at l) (seq_order l))" using seq_order_distinct [OF l] by simp
  from takeWhile_neq_nth [OF this i]
  have "takeWhile (\<lambda>y. y \<noteq> x) (filter (live_at l) (seq_order l)) = take i (filter (live_at l) (seq_order l))"
    unfolding x_def .
  moreover have "length (take i (filter (live_at l) (seq_order l))) = i"
    unfolding length_take by (rule min_absorb2 [OF less_imp_le [OF i]])
  ultimately show "live_before l x = i"
    unfolding live_before_def filter_takeWhile_neq [of "live_at l", OF live] by (simp only:)
qed


section \<open>Concrete edits\<close>

definition one_claim_ops :: "seq_op list" where
  "one_claim_ops = [Claim (sample_id 1) (int_node 10) at_start]"

definition one_item :: seq_list where
  "one_item = run_ops sample_list one_claim_ops"

lemma one_claim_history: "history one_claim_ops"
  by (simp add: history_def one_claim_ops_def one_kind_def place_of_def sample_id_def)

lemma one_item_ok: "list_invar one_item"
  using run_ops_left [OF one_claim_history] by (simp add: one_item_def)

lemma one_item_slots: "slots one_item x = (if x = sample_id 1 then Some (LiveSlot (int_node 10) at_start False) else None)"
  using run_ops_slots [of one_claim_ops "list_new sample_list" x] one_claim_history
  by (simp add: one_item_def history_def list_new_ok one_claim_ops_def)

lemma one_item_live: "live_order one_item = Some [sample_id 1]"
  by code_simp

lemma one_item_anchors: "list_anchors one_item = [at_start]"
  by code_simp

lemma sample_id_inject: "m < 2 ^ 64 \<Longrightarrow> n < 2 ^ 64 \<Longrightarrow> sample_id m = sample_id n \<longleftrightarrow> m = n"
  by (simp add: sample_id_def word_of_nat_eq_iff take_bit_nat_eq_self)

lemma one_item_fresh: "fresh_id one_item (sample_id 2)"
  by (simp add: fresh_id_def one_item_slots one_item_anchors sample_id_inject at_start_def)
    (simp add: sample_id_def place_of_def)

lemma one_item_rooted: "all_rooted one_item"
proof -
  have "sample_id 1 \<in> set (filter (live_at one_item) (seq_order one_item))"
    using one_item_live live_order_eq [OF one_item_ok] by simp
  then show ?thesis by (auto simp: all_rooted_def anchor_of_slots one_item_slots)
qed

theorem walk_lists_path_order_witness:
  "\<exists>out. tree_order one_item = Some out \<and> sorted_wrt (precedes (anchor_of one_item)) (seq_ids out) \<and>
    (\<forall>x. x \<in> set (seq_ids out) \<longleftrightarrow> rooted_at (anchor_of one_item) x)"
  by (rule walk_lists_path_order [OF one_item_ok])

theorem insert_at_index_witness:
  "\<exists>l'. list_insert 1 (int_node 20) (sample_id 2) one_item = Some l' \<and>
    live_order l' = Some [sample_id 1, sample_id 2] \<and> node_value l' (sample_id 2) = Some (int_node 20)"
  using insert_at_index [OF one_item_ok one_item_fresh one_item_live, of 1 "int_node 20"] by auto

theorem delete_at_index_witness:
  "\<exists>l'. list_delete 0 one_item = Some l' \<and> live_order l' = Some [] \<and> is_tombstoned l' (sample_id 1)"
  using delete_at_index [OF one_item_ok one_item_live, of 0] by auto



end
