(* ===== verification/Maps.thy ===== *)
theory Maps
  imports Sequence Register
begin

text \<open>
  \<^verbatim>\<open>map.rs\<close>: the last-writer-wins map. A slot is a value or a tombstone under a stamp, and it
  retains the highest container create its key has seen, whether or not that create holds the
  slot.

  A composite in a slot is a shared handle: its kind, its id and the address of the shared cell
  (\<open>Rc::ptr_eq\<close> compares addresses). The store records which cells are displaced and the next
  fresh address, and lists the calls the map makes on the contents of its cells, in order: what a
  cell holds is state of its own component. Equality of two maps is equality of their slots.
\<close>

section \<open>Values and handles\<close>

datatype handle = Handle (h_kind: element_kind) (h_id: elementid) (h_ptr: nat)

datatype held = Inline scalar | Shared handle

fun held_kind :: "held \<Rightarrow> element_kind" where
  "held_kind (Inline _) = KScalar"
| "held_kind (Shared h) = h_kind h"

definition held_is_container :: "held \<Rightarrow> bool" where
  "held_is_container v = kind_is_container (held_kind v)"

text \<open>\<open>None\<close> where the source panics.\<close>

fun held_id :: "held \<Rightarrow> elementid option" where
  "held_id (Inline _) = None"
| "held_id (Shared h) = Some (h_id h)"

fun same_handle :: "held \<Rightarrow> held \<Rightarrow> bool" where
  "same_handle (Shared a) (Shared b) \<longleftrightarrow> h_kind a = h_kind b \<and> h_ptr a = h_ptr b"
| "same_handle _ _ \<longleftrightarrow> False"

fun same_composite_kind :: "held \<Rightarrow> held \<Rightarrow> bool" where
  "same_composite_kind (Shared a) (Shared b) \<longleftrightarrow> h_kind a = h_kind b"
| "same_composite_kind _ _ \<longleftrightarrow> False"

datatype content_call =
    MakeRegister nat register
  | MakeEmpty nat element_kind elementid
  | MergeInto handle handle
  | CloneInto nat handle

record store =
  next_ptr :: nat
  displaced_ptrs :: "nat fset"
  calls :: "content_call list"

fun displace :: "held \<Rightarrow> store \<Rightarrow> store" where
  "displace (Inline _) st = st"
| "displace (Shared h) st = st\<lparr>displaced_ptrs := finsert (h_ptr h) (displaced_ptrs st)\<rparr>"

fun reinstate :: "held \<Rightarrow> store \<Rightarrow> store" where
  "reinstate (Inline _) st = st"
| "reinstate (Shared h) st = st\<lparr>displaced_ptrs := displaced_ptrs st |-| {|h_ptr h|}\<rparr>"

fun is_displaced :: "held \<Rightarrow> store \<Rightarrow> bool" where
  "is_displaced (Inline _) st = False"
| "is_displaced (Shared h) st = (h_ptr h |\<in>| displaced_ptrs st)"

fun deep_clone :: "held \<Rightarrow> store \<Rightarrow> held \<times> store" where
  "deep_clone (Inline s) st = (Inline s, st)"
| "deep_clone (Shared h) st =
     (Shared (Handle (h_kind h) (h_id h) (next_ptr st)),
      st\<lparr>next_ptr := Suc (next_ptr st), calls := calls st @ [CloneInto (next_ptr st) h]\<rparr>)"

fun merge_held :: "held \<Rightarrow> held \<Rightarrow> store \<Rightarrow> store" where
  "merge_held (Shared d) (Shared s) st = st\<lparr>calls := calls st @ [MergeInto d s]\<rparr>"
| "merge_held _ _ st = st"

section \<open>Slots\<close>

record create =
  create_stamp :: stamp
  create_kind :: element_kind

record entry =
  e_stamp :: stamp
  e_value :: "held option"
  e_tombstone :: bool
  e_container :: "create option"

record lww_map =
  map_id :: elementid
  slots :: "(bytes, entry) fmap"
  map_displaced :: bool

definition create_rank :: "create \<Rightarrow> stamp \<times> u8" where
  "create_rank c = (create_stamp c, kind_tag (create_kind c))"

fun higher :: "create option \<Rightarrow> create option \<Rightarrow> create option" where
  "higher (Some a) (Some b) = Some (if create_rank a < create_rank b then b else a)"
| "higher a None = a"
| "higher None b = b"

definition create_of :: "held \<Rightarrow> stamp \<Rightarrow> create option" where
  "create_of v s =
     (if held_is_container v then Some \<lparr>create_stamp = s, create_kind = held_kind v\<rparr> else None)"

definition map_new :: "elementid \<Rightarrow> lww_map" where
  "map_new i = \<lparr>map_id = i, slots = fmempty, map_displaced = False\<rparr>"

definition slot_at :: "lww_map \<Rightarrow> bytes \<Rightarrow> entry option" where
  "slot_at m k = fmlookup (slots m) k"

definition live_slot :: "lww_map \<Rightarrow> bytes \<Rightarrow> entry option" where
  "live_slot m k =
     (case slot_at m k of None \<Rightarrow> None | Some e \<Rightarrow> if e_tombstone e then None else Some e)"

definition put_entry :: "bytes \<Rightarrow> entry \<Rightarrow> lww_map \<Rightarrow> lww_map" where
  "put_entry k e m = m\<lparr>slots := fmupd k e (slots m)\<rparr>"

definition slot_keys :: "lww_map \<Rightarrow> bytes list" where
  "slot_keys m = map fst (sorted_list_of_fmap (slots m))"

definition slot_is_live_container :: "lww_map \<Rightarrow> bytes \<Rightarrow> bool" where
  "slot_is_live_container m k =
     (case slot_at m k of None \<Rightarrow> False
      | Some e \<Rightarrow> (case e_value e of None \<Rightarrow> False | Some v \<Rightarrow> held_is_container v))"

definition slot_is_tombstone :: "lww_map \<Rightarrow> bytes \<Rightarrow> bool" where
  "slot_is_tombstone m k = (case slot_at m k of None \<Rightarrow> False | Some e \<Rightarrow> e_tombstone e)"

definition slot_deleted_container :: "lww_map \<Rightarrow> bytes \<Rightarrow> (stamp \<times> element_kind) option" where
  "slot_deleted_container m k =
     (case slot_at m k of None \<Rightarrow> None
      | Some e \<Rightarrow>
          if e_tombstone e then map_option (\<lambda>c. (create_stamp c, create_kind c)) (e_container e)
          else None)"

definition take_slot ::
    "bytes \<Rightarrow> lww_map \<Rightarrow> (stamp \<times> held option \<times> bool) option \<times> lww_map" where
  "take_slot k m =
     (map_option (\<lambda>e. (e_stamp e, e_value e, e_tombstone e)) (slot_at m k),
      m\<lparr>slots := fmdrop k (slots m)\<rparr>)"

section \<open>Reads\<close>

definition live_values :: "lww_map \<Rightarrow> held list" where
  "live_values m =
     List.map_filter (\<lambda>e. if e_tombstone e then None else e_value e) (fm_values (slots m))"

definition map_size :: "lww_map \<Rightarrow> nat" where
  "map_size m = length (filter (\<lambda>e. \<not> e_tombstone e) (fm_values (slots m)))"

definition map_keys :: "lww_map \<Rightarrow> bytes list" where
  "map_keys m = map fst (filter (\<lambda>(k, e). \<not> e_tombstone e) (sorted_list_of_fmap (slots m)))"

definition map_entries :: "lww_map \<Rightarrow> (bytes \<times> held) list" where
  "map_entries m =
     List.map_filter
       (\<lambda>(k, e). if e_tombstone e then None else map_option (Pair k) (e_value e))
       (sorted_list_of_fmap (slots m))"

definition map_get :: "lww_map \<Rightarrow> bytes \<Rightarrow> held option" where
  "map_get m k = (case live_slot m k of None \<Rightarrow> None | Some e \<Rightarrow> e_value e)"

definition slot_wins :: "lww_map \<Rightarrow> bytes \<Rightarrow> stamp \<Rightarrow> bool" where
  "slot_wins m k s = (case slot_at m k of None \<Rightarrow> True | Some e \<Rightarrow> e_stamp e < s)"

definition retained :: "lww_map \<Rightarrow> bytes \<Rightarrow> create option" where
  "retained m k = (case slot_at m k of None \<Rightarrow> None | Some e \<Rightarrow> e_container e)"

section \<open>Writes\<close>

definition evict :: "lww_map \<Rightarrow> bytes \<Rightarrow> store \<Rightarrow> store" where
  "evict m k st =
     (case slot_at m k of None \<Rightarrow> st
      | Some e \<Rightarrow>
          if e_tombstone e then st
          else (case e_value e of None \<Rightarrow> st | Some old \<Rightarrow> displace old st))"

definition reinstalls :: "entry \<Rightarrow> held \<Rightarrow> bool" where
  "reinstalls e v \<longleftrightarrow> \<not> e_tombstone e \<and>
     (case e_value e of None \<Rightarrow> False | Some old \<Rightarrow> same_handle old v)"

definition map_set :: "bytes \<Rightarrow> held \<Rightarrow> stamp \<Rightarrow> lww_map \<times> store \<Rightarrow> lww_map \<times> store" where
  "map_set k v s = (\<lambda>(m, st).
     let container = higher (retained m k) (create_of v s);
         installed = \<lparr>e_stamp = s, e_value = Some v, e_tombstone = False, e_container = container\<rparr>
     in case slot_at m k of
          Some e \<Rightarrow>
            if \<not> e_stamp e < s then (put_entry k (e\<lparr>e_container := container\<rparr>) m, st)
            else if reinstalls e v then
              (put_entry k (e\<lparr>e_stamp := s, e_container := container\<rparr>) m, st)
            else (put_entry k installed m, evict m k st)
        | None \<Rightarrow> (put_entry k installed m, evict m k st))"

definition map_delete :: "bytes \<Rightarrow> stamp \<Rightarrow> lww_map \<times> store \<Rightarrow> lww_map \<times> store" where
  "map_delete k s = (\<lambda>(m, st).
     if \<not> slot_wins m k s then (m, st)
     else (put_entry k
             \<lparr>e_stamp = s, e_value = None, e_tombstone = True, e_container = retained m k\<rparr> m,
           evict m k st))"

definition put_slot_lww ::
    "bytes \<Rightarrow> stamp \<Rightarrow> held option \<Rightarrow> bool \<Rightarrow> lww_map \<times> store \<Rightarrow> lww_map \<times> store" where
  "put_slot_lww k s v tomb = (\<lambda>(m, st).
     let container = higher (retained m k) (case v of None \<Rightarrow> None | Some v \<Rightarrow> create_of v s);
         landed = \<lparr>e_stamp = s, e_value = v, e_tombstone = tomb, e_container = container\<rparr>
     in case slot_at m k of
          None \<Rightarrow> (put_entry k landed m, st)
        | Some e \<Rightarrow>
            if \<not> e_stamp e < s then (put_entry k (e\<lparr>e_container := container\<rparr>) m, st)
            else (put_entry k landed m,
                  case v of
                    Some new \<Rightarrow> if reinstalls e new then st else evict m k st
                  | None \<Rightarrow> evict m k st))"

definition recurses :: "entry \<Rightarrow> entry \<Rightarrow> bool" where
  "recurses de se \<longleftrightarrow> \<not> e_tombstone de \<and> \<not> e_tombstone se \<and>
     (case (e_value de, e_value se) of
        (Some dv, Some sv) \<Rightarrow> same_composite_kind dv sv \<and> held_id dv = held_id sv
      | _ \<Rightarrow> False)"

definition install_clone ::
    "bytes \<Rightarrow> entry \<Rightarrow> create option \<Rightarrow> lww_map \<times> store \<Rightarrow> lww_map \<times> store" where
  "install_clone k se container = (\<lambda>(m, st).
     case e_value se of
       None \<Rightarrow> (put_entry k (se\<lparr>e_container := container\<rparr>) m, evict m k st)
     | Some v \<Rightarrow>
         (case deep_clone v (evict m k st) of
            (v', st') \<Rightarrow>
              (put_entry k (se\<lparr>e_value := Some v', e_container := container\<rparr>) m, st')))"

definition map_merge_slot :: "bytes \<Rightarrow> entry \<Rightarrow> lww_map \<times> store \<Rightarrow> lww_map \<times> store" where
  "map_merge_slot k se = (\<lambda>(m, st).
     let container = higher (retained m k) (e_container se)
     in case slot_at m k of
          None \<Rightarrow> install_clone k se container (m, st)
        | Some de \<Rightarrow>
            if recurses de se then
              (put_entry k (de\<lparr>e_stamp := (if e_stamp de < e_stamp se then e_stamp se else e_stamp de),
                               e_container := container\<rparr>) m,
               case (e_value de, e_value se) of
                 (Some dv, Some sv) \<Rightarrow> merge_held dv sv st
               | _ \<Rightarrow> st)
            else if \<not> e_stamp de < e_stamp se then
              (put_entry k (de\<lparr>e_container := container\<rparr>) m, st)
            else install_clone k se container (m, st))"

definition map_merge :: "lww_map \<Rightarrow> lww_map \<times> store \<Rightarrow> lww_map \<times> store" where
  "map_merge src ms = fm_fold map_merge_slot (slots src) ms"

section \<open>Get or create\<close>

text \<open>A fresh cell: its address and the call that fills it.\<close>

definition new_cell :: "(nat \<Rightarrow> content_call) \<Rightarrow> element_kind \<Rightarrow> elementid \<Rightarrow> store \<Rightarrow> held \<times> store" where
  "new_cell call knd i st =
     (Shared (Handle knd i (next_ptr st)),
      st\<lparr>next_ptr := Suc (next_ptr st), calls := calls st @ [call (next_ptr st)]\<rparr>)"

definition install_fresh ::
    "v5 \<Rightarrow> (elementid \<Rightarrow> nat \<Rightarrow> content_call) \<Rightarrow> element_kind \<Rightarrow> bytes \<Rightarrow> stamp \<Rightarrow>
       lww_map \<times> store \<Rightarrow> held \<times> lww_map \<times> store" where
  "install_fresh new_v5 call knd k s = (\<lambda>(m, st).
     let i = derive new_v5 (map_id m) k knd
     in case new_cell (call i) knd i st of
          (fresh, st') \<Rightarrow>
            let won = slot_wins m k s
            in case map_set k fresh s (m, st') of
                 (m', st'') \<Rightarrow> (fresh, m', if won then st'' else displace fresh st''))"

definition live_of_kind :: "lww_map \<Rightarrow> bytes \<Rightarrow> element_kind \<Rightarrow> held option" where
  "live_of_kind m k knd =
     (case map_get m k of
        Some (Shared h) \<Rightarrow> if h_kind h = knd then Some (Shared h) else None
      | _ \<Rightarrow> None)"

definition map_counter ::
    "v5 \<Rightarrow> bytes \<Rightarrow> stamp \<Rightarrow> lww_map \<times> store \<Rightarrow> held \<times> lww_map \<times> store" where
  "map_counter new_v5 k s ms =
     (case live_of_kind (fst ms) k KCounter of
        Some c \<Rightarrow> (c, ms)
      | None \<Rightarrow> install_fresh new_v5 (\<lambda>i p. MakeEmpty p KCounter i) KCounter k s ms)"

definition map_register ::
    "v5 \<Rightarrow> bytes \<Rightarrow> scalar \<Rightarrow> stamp \<Rightarrow> lww_map \<times> store \<Rightarrow> held \<times> lww_map \<times> store" where
  "map_register new_v5 k seed s ms =
     (case live_of_kind (fst ms) k KRegister of
        Some r \<Rightarrow> (r, ms)
      | None \<Rightarrow> install_fresh new_v5 (\<lambda>i p. MakeRegister p (register_new i seed s)) KRegister k s ms)"

text \<open>A container already live at the key is set again, so that its create is ranked.\<close>

definition get_container ::
    "v5 \<Rightarrow> element_kind \<Rightarrow> bytes \<Rightarrow> stamp \<Rightarrow> lww_map \<times> store \<Rightarrow> held \<times> lww_map \<times> store" where
  "get_container new_v5 knd k s ms =
     (case live_of_kind (fst ms) k knd of
        Some c \<Rightarrow> (c, map_set k c s ms)
      | None \<Rightarrow> install_fresh new_v5 (\<lambda>i p. MakeEmpty p knd i) knd k s ms)"

definition map_map :: "v5 \<Rightarrow> bytes \<Rightarrow> stamp \<Rightarrow> lww_map \<times> store \<Rightarrow> held \<times> lww_map \<times> store" where
  "map_map new_v5 = get_container new_v5 KMap"

definition map_list :: "v5 \<Rightarrow> bytes \<Rightarrow> stamp \<Rightarrow> lww_map \<times> store \<Rightarrow> held \<times> lww_map \<times> store" where
  "map_list new_v5 = get_container new_v5 KList"

definition map_text :: "v5 \<Rightarrow> bytes \<Rightarrow> stamp \<Rightarrow> lww_map \<times> store \<Rightarrow> held \<times> lww_map \<times> store" where
  "map_text new_v5 = get_container new_v5 KText"

definition clone_entry :: "bytes \<Rightarrow> entry \<Rightarrow> lww_map \<times> store \<Rightarrow> lww_map \<times> store" where
  "clone_entry k e = (\<lambda>(m, st).
     case e_value e of
       None \<Rightarrow> (put_entry k e m, st)
     | Some v \<Rightarrow> (case deep_clone v st of (v', st') \<Rightarrow> (put_entry k (e\<lparr>e_value := Some v'\<rparr>) m, st')))"

definition map_deep_clone :: "lww_map \<Rightarrow> store \<Rightarrow> lww_map \<times> store" where
  "map_deep_clone m st = fm_fold clone_entry (slots m) (map_new (map_id m), st)"

definition map_clear :: "lww_map \<Rightarrow> lww_map" where
  "map_clear m = m\<lparr>slots := fmempty\<rparr>"

definition map_displace :: "lww_map \<Rightarrow> lww_map" where
  "map_displace m = m\<lparr>map_displaced := True\<rparr>"

definition map_reinstate :: "lww_map \<Rightarrow> lww_map" where
  "map_reinstate m = m\<lparr>map_displaced := False\<rparr>"

end
