(* ===== verification/Maps_History.thy ===== *)
theory Maps_History
  imports Maps
begin

text \<open>
  Histories of a map: a slot holds the write of the greatest stamp its key has seen and retains
  the highest create, so replicas agree whatever the order of delivery, and a merge gives the map
  of both histories. A write is named by its key and stamp.
\<close>

datatype map_op = PutAt bytes held stamp | DropAt bytes stamp

fun map_apply :: "map_op \<Rightarrow> lww_map \<times> store \<Rightarrow> lww_map \<times> store" where
  "map_apply (PutAt k v s) = map_set k v s"
| "map_apply (DropAt k s) = map_delete k s"

fun mop_key :: "map_op \<Rightarrow> bytes" where
  "mop_key (PutAt k _ _) = k"
| "mop_key (DropAt k _) = k"

fun mop_stamp :: "map_op \<Rightarrow> stamp" where
  "mop_stamp (PutAt _ _ s) = s"
| "mop_stamp (DropAt _ s) = s"

fun mop_value :: "map_op \<Rightarrow> held option" where
  "mop_value (PutAt _ v _) = Some v"
| "mop_value (DropAt _ _) = None"

fun mop_create :: "map_op \<Rightarrow> create option" where
  "mop_create (PutAt _ v s) = create_of v s"
| "mop_create (DropAt _ _) = None"

definition entry_of :: "stamp \<Rightarrow> held option \<Rightarrow> create option \<Rightarrow> entry" where
  "entry_of s v c = \<lparr>e_stamp = s, e_value = v, e_tombstone = (v = None), e_container = c\<rparr>"

text \<open>What a history leaves at a key.\<close>

definition ops_at :: "bytes \<Rightarrow> map_op list \<Rightarrow> map_op list" where
  "ops_at k ops = filter (\<lambda>p. mop_key p = k) ops"

definition newest_stamp :: "map_op list \<Rightarrow> stamp" where
  "newest_stamp ops = Max (mop_stamp ` set ops)"

definition newest_value :: "map_op list \<Rightarrow> held option" where
  "newest_value ops =
     (case find (\<lambda>p. mop_stamp p = newest_stamp ops) ops of None \<Rightarrow> None | Some p \<Rightarrow> mop_value p)"

definition highest_create :: "map_op list \<Rightarrow> create option" where
  "highest_create ops = fold (\<lambda>p c. higher c (mop_create p)) ops None"

definition slot_of_history :: "map_op list \<Rightarrow> bytes \<Rightarrow> entry option" where
  "slot_of_history ops k =
     (let here = ops_at k ops
      in if here = [] then None
         else Some (entry_of (newest_stamp here) (newest_value here) (highest_create here)))"

text \<open>A key and a stamp name one write, and an address names one cell.\<close>

definition one_write :: "map_op list \<Rightarrow> bool" where
  "one_write ops \<longleftrightarrow>
     list_all (\<lambda>p. list_all (\<lambda>q. mop_key p = mop_key q \<and> mop_stamp p = mop_stamp q \<longrightarrow> p = q) ops) ops"

definition one_cell :: "map_op list \<Rightarrow> bool" where
  "one_cell ops \<longleftrightarrow>
     list_all (\<lambda>p. list_all (\<lambda>q. case (mop_value p, mop_value q) of
       (Some v, Some w) \<Rightarrow> same_handle v w \<longrightarrow> v = w | _ \<Rightarrow> True) ops) ops"

section \<open>The rank of creates\<close>

lemma create_rank_inject [simp]: "create_rank a = create_rank b \<longleftrightarrow> a = b"
  by (auto simp: create_rank_def kind_tag_inject)

lemma higher_alt:
  "higher a b = (if map_option create_rank a < map_option create_rank b then b else a)"
  by (cases "(a, b)" rule: higher.cases) auto

lemma higher_None [simp]: "higher None b = b" "higher a None = a"
  by (cases b; simp) (cases a; simp)

interpretation creates: merge_semilattice higher "\<lambda>_. True"
proof
  have inj: "map_option create_rank a = map_option create_rank b \<longleftrightarrow> a = b" for a b
    by (cases a; cases b) auto
  show "higher a b = higher b a" for a b
    using inj [of a b] by (auto simp: higher_alt)
  show "higher (higher a b) c = higher a (higher b c)" for a b c
    by (auto simp: higher_alt)
qed (simp_all add: higher_alt)

lemma highest_create_Nil [simp]: "highest_create [] = None"
  by (simp add: highest_create_def)

lemma highest_create_snoc [simp]:
  "highest_create (ops @ [p]) = higher (highest_create ops) (mop_create p)"
  by (simp add: highest_create_def)

lemma highest_create_append:
  "highest_create (xs @ ys) = higher (highest_create xs) (highest_create ys)"
  by (induction ys rule: rev_induct) (simp_all flip: append_assoc add: creates.merge_assoc)

lemma highest_create_fold: "highest_create ops = fold (\<lambda>x s. higher s x) (map mop_create ops) None"
  by (simp add: highest_create_def fold_map comp_def)

lemma highest_create_cong: "set xs = set ys \<Longrightarrow> highest_create xs = highest_create ys"
  unfolding highest_create_fold by (rule creates.merges.fold_same_set) (auto simp: list_all_iff)

section \<open>One write at a slot\<close>

definition slot_step :: "map_op \<Rightarrow> entry option \<Rightarrow> entry option" where
  "slot_step p e = Some (case e of
     None \<Rightarrow> entry_of (mop_stamp p) (mop_value p) (mop_create p)
   | Some e \<Rightarrow>
       (let c = higher (e_container e) (mop_create p)
        in if e_stamp e < mop_stamp p then entry_of (mop_stamp p) (mop_value p) c
           else e\<lparr>e_container := c\<rparr>))"

definition cell_ok :: "map_op \<Rightarrow> entry option \<Rightarrow> bool" where
  "cell_ok p e \<longleftrightarrow> (\<forall>x v w. e = Some x \<longrightarrow> e_value x = Some w \<longrightarrow> mop_value p = Some v \<longrightarrow>
     same_handle w v \<longrightarrow> w = v)"

lemma slot_at_put_entry [simp]:
  "slot_at (put_entry k e m) j = (if j = k then Some e else slot_at m j)"
  by (simp add: slot_at_def put_entry_def)

lemma slot_at_new [simp]: "slot_at (map_new i) k = None"
  by (simp add: slot_at_def map_new_def)

lemma slot_at_apply:
  assumes "cell_ok p (slot_at m (mop_key p))"
  shows "slot_at (fst (map_apply p (m, st))) k =
    (if k = mop_key p then slot_step p (slot_at m k) else slot_at m k)"
proof (cases p)
  case (PutAt j v s)
  then show ?thesis
    using assms
    by (cases "slot_at m j")
      (auto simp: map_set_def Let_def slot_step_def entry_of_def retained_def reinstalls_def
        cell_ok_def split: option.splits)
next
  case (DropAt j s)
  then show ?thesis
    by (cases "slot_at m j")
      (auto simp: map_delete_def slot_step_def entry_of_def retained_def slot_wins_def Let_def)
qed

lemma map_id_apply [simp]:
  "map_id (fst (map_apply p ms)) = map_id (fst ms)"
  "map_displaced (fst (map_apply p ms)) = map_displaced (fst ms)"
  by (cases p; cases ms; simp add: map_set_def map_delete_def put_entry_def Let_def split: option.split)+

section \<open>Histories\<close>

lemma ops_at_append [simp]: "ops_at k (xs @ ys) = ops_at k xs @ ops_at k ys"
  by (simp add: ops_at_def)

lemma in_ops_at: "p \<in> set (ops_at k ops) \<longleftrightarrow> p \<in> set ops \<and> mop_key p = k"
  by (auto simp: ops_at_def)

lemma one_writeD:
  "one_write ops \<Longrightarrow> p \<in> set ops \<Longrightarrow> q \<in> set ops \<Longrightarrow> mop_key p = mop_key q \<Longrightarrow>
    mop_stamp p = mop_stamp q \<Longrightarrow> p = q"
  by (auto simp: one_write_def list_all_iff)

lemma one_write_mono: "one_write ys \<Longrightarrow> set xs \<subseteq> set ys \<Longrightarrow> one_write xs"
  by (auto simp: one_write_def list_all_iff)

lemma one_cell_mono: "one_cell ys \<Longrightarrow> set xs \<subseteq> set ys \<Longrightarrow> one_cell xs"
  by (auto simp: one_cell_def list_all_iff)

lemma newest_stamp_in: "ops \<noteq> [] \<Longrightarrow> \<exists>p \<in> set ops. mop_stamp p = newest_stamp ops"
  unfolding newest_stamp_def using Max_in [of "mop_stamp ` set ops"] by (fastforce simp: image_iff)

lemma newest_value_eq:
  assumes "one_write ops" "p \<in> set (ops_at k ops)" "mop_stamp p = newest_stamp (ops_at k ops)"
  shows "newest_value (ops_at k ops) = mop_value p"
proof (cases "find (\<lambda>p. mop_stamp p = newest_stamp (ops_at k ops)) (ops_at k ops)")
  case None
  with assms show ?thesis by (auto simp: find_None_iff)
next
  case (Some q)
  then have "q \<in> set (ops_at k ops)" "mop_stamp q = newest_stamp (ops_at k ops)"
    by (auto simp: find_Some_iff)
  with assms have "q = p" by (auto simp: in_ops_at intro!: one_writeD [of ops])
  with Some show ?thesis by (simp add: newest_value_def)
qed

lemma newest_stamp_snoc:
  "newest_stamp (ops @ [p]) = (if ops = [] then mop_stamp p else max (newest_stamp ops) (mop_stamp p))"
  by (simp add: newest_stamp_def insert_commute max.commute)

lemma slot_of_history_Nil [simp]: "slot_of_history [] k = None"
  by (simp add: slot_of_history_def ops_at_def)

lemma slot_of_history_other:
  "mop_key p \<noteq> k \<Longrightarrow> slot_of_history (ops @ [p]) k = slot_of_history ops k"
  by (simp add: slot_of_history_def ops_at_def)

lemma slot_of_history_snoc:
  assumes w: "one_write (ops @ [p])"
  shows "slot_of_history (ops @ [p]) (mop_key p) = slot_step p (slot_of_history ops (mop_key p))"
proof -
  let ?here = "ops_at (mop_key p) ops"
  have at: "ops_at (mop_key p) (ops @ [p]) = ?here @ [p]"
    by (simp add: ops_at_def)
  have w': "one_write ops" by (rule one_write_mono [OF w]) auto
  show ?thesis
  proof (cases "?here = []")
    case True
    have "newest_value [p] = mop_value p" by (simp add: newest_value_def newest_stamp_def)
    with True at show ?thesis
      by (simp add: slot_of_history_def slot_step_def newest_stamp_def highest_create_def)
  next
    case False
    then obtain q where q: "q \<in> set ?here" "mop_stamp q = newest_stamp ?here"
      using newest_stamp_in by blast
    have old: "newest_value ?here = mop_value q" by (rule newest_value_eq [OF w' q])
    have top: "newest_stamp (?here @ [p]) = max (newest_stamp ?here) (mop_stamp p)"
      using False by (simp add: newest_stamp_snoc)
    have new: "newest_value (?here @ [p]) =
        (if newest_stamp ?here < mop_stamp p then mop_value p else newest_value ?here)"
    proof (cases "newest_stamp ?here < mop_stamp p")
      case True
      then show ?thesis
        using newest_value_eq [OF w, of p "mop_key p"] top unfolding at
        by (simp add: max_def in_ops_at less_imp_le)
    next
      case False
      then show ?thesis
        using newest_value_eq [OF w, of q "mop_key p"] q top old unfolding at
        by (auto simp: max_def not_less)
    qed
    show ?thesis
      using False new top unfolding slot_of_history_def at
      by (auto simp: slot_step_def Let_def entry_of_def max_def)
  qed
qed

lemma slot_of_history_value:
  assumes "one_write ops" "slot_of_history ops k = Some e"
  shows "\<exists>p \<in> set ops. mop_key p = k \<and> mop_stamp p = e_stamp e \<and> mop_value p = e_value e"
proof -
  from assms(2) have ne: "ops_at k ops \<noteq> []"
    and e: "e = entry_of (newest_stamp (ops_at k ops)) (newest_value (ops_at k ops))
      (highest_create (ops_at k ops))"
    by (auto simp: slot_of_history_def Let_def split: if_splits)
  obtain p where p: "p \<in> set (ops_at k ops)" "mop_stamp p = newest_stamp (ops_at k ops)"
    using newest_stamp_in [OF ne] by blast
  with newest_value_eq [OF assms(1) p] e show ?thesis
    by (intro bexI [of _ p]) (auto simp: in_ops_at entry_of_def)
qed

lemma fold_map_apply_slot:
  assumes "one_write ops" "one_cell ops"
  shows "slot_at (fst (fold map_apply ops (map_new i, st))) k = slot_of_history ops k"
  using assms
proof (induction ops arbitrary: k rule: rev_induct)
  case Nil
  then show ?case by simp
next
  case (snoc p ops)
  let ?ms = "fold map_apply ops (map_new i, st)"
  have w: "one_write ops" by (rule one_write_mono [OF snoc.prems(1)]) auto
  have IH: "slot_at (fst ?ms) k = slot_of_history ops k" for k
    using one_cell_mono [OF snoc.prems(2), of ops] by (intro snoc.IH [OF w]) auto
  have ok: "cell_ok p (slot_at (fst ?ms) (mop_key p))"
    using snoc.prems(2) slot_of_history_value [OF w]
    unfolding IH cell_ok_def one_cell_def list_all_iff by fastforce
  have "fold map_apply (ops @ [p]) (map_new i, st) = map_apply p (fst ?ms, snd ?ms)"
    by simp
  then show ?case
    using slot_at_apply [OF ok, of "snd ?ms" k] IH slot_of_history_snoc [OF snoc.prems(1)]
      slot_of_history_other [of p k ops] by auto
qed

lemma map_eqI:
  "map_id m = map_id n \<Longrightarrow> map_displaced m = map_displaced n \<Longrightarrow>
    (\<And>k. slot_at m k = slot_at n k) \<Longrightarrow> m = (n :: lww_map)"
  by (cases m; cases n) (auto simp: slot_at_def intro: fmap_ext)

lemma slot_of_history_cong:
  assumes "set xs = set ys" "one_write xs"
  shows "slot_of_history xs k = slot_of_history ys k"
proof -
  have at: "set (ops_at k xs) = set (ops_at k ys)" using assms(1) by (auto simp: ops_at_def)
  then have empty: "ops_at k xs = [] \<longleftrightarrow> ops_at k ys = []" by (metis set_empty)
  have top: "newest_stamp (ops_at k xs) = newest_stamp (ops_at k ys)"
    by (simp add: newest_stamp_def at)
  have w: "one_write ys" by (rule one_write_mono [OF assms(2)]) (simp add: assms(1))
  show ?thesis
  proof (cases "ops_at k xs = []")
    case True
    with empty show ?thesis by (simp add: slot_of_history_def)
  next
    case False
    then obtain p where p: "p \<in> set (ops_at k xs)" "mop_stamp p = newest_stamp (ops_at k xs)"
      using newest_stamp_in by blast
    then have "newest_value (ops_at k xs) = newest_value (ops_at k ys)"
      using newest_value_eq [OF assms(2) p] newest_value_eq [OF w, of p k] at top by simp
    with False empty top highest_create_cong [OF at] show ?thesis
      by (simp add: slot_of_history_def Let_def)
  qed
qed

section \<open>Merging, up to addresses\<close>

text \<open>Two replicas hold the same logical composite in cells of their own: what they agree on is
  the slot without the address.\<close>

fun bare_held :: "held \<Rightarrow> held" where
  "bare_held (Inline s) = Inline s"
| "bare_held (Shared h) = Shared (Handle (h_kind h) (h_id h) 0)"

definition bare_entry :: "entry \<Rightarrow> entry" where
  "bare_entry e = e\<lparr>e_value := map_option bare_held (e_value e)\<rparr>"

fun bare_op :: "map_op \<Rightarrow> map_op" where
  "bare_op (PutAt k v s) = PutAt k (bare_held v) s"
| "bare_op (DropAt k s) = DropAt k s"

definition bare_slot :: "lww_map \<Rightarrow> bytes \<Rightarrow> entry option" where
  "bare_slot m k = map_option bare_entry (slot_at m k)"

definition join_slot :: "entry option \<Rightarrow> entry option \<Rightarrow> entry option" where
  "join_slot a b =
     (case (a, b) of
        (Some d, Some s) \<Rightarrow>
          Some ((if e_stamp d < e_stamp s then s else d)
            \<lparr>e_container := higher (e_container d) (e_container s)\<rparr>)
      | (None, b) \<Rightarrow> b
      | (a, None) \<Rightarrow> a)"

lemma bare_op_simps [simp]:
  "mop_key (bare_op p) = mop_key p" "mop_stamp (bare_op p) = mop_stamp p"
  "mop_value (bare_op p) = map_option bare_held (mop_value p)"
  by (cases p; simp)+

lemma held_kind_bare [simp]: "held_kind (bare_held v) = held_kind v"
  by (cases v) simp_all

lemma mop_create_bare [simp]: "mop_create (bare_op p) = mop_create p"
  by (cases p) (simp_all add: create_of_def held_is_container_def)

lemma bare_entry_simps [simp]:
  "e_stamp (bare_entry e) = e_stamp e" "e_tombstone (bare_entry e) = e_tombstone e"
  "e_container (bare_entry e) = e_container e"
  "e_value (bare_entry e) = map_option bare_held (e_value e)"
  by (simp_all add: bare_entry_def)

lemma bare_deep_clone: "deep_clone v st = (v', st') \<Longrightarrow> bare_held v' = bare_held v"
  by (cases v) auto

lemma bare_recursing:
  assumes "recurses de se" "e_value de = Some dv" "e_value se = Some sv"
  shows "bare_held dv = bare_held sv" "\<not> e_tombstone de" "\<not> e_tombstone se"
  using assms by (cases dv; cases sv; auto simp: recurses_def)+

lemma recurses_values: "recurses de se \<Longrightarrow> \<exists>dv sv. e_value de = Some dv \<and> e_value se = Some sv"
  by (auto simp: recurses_def split: option.splits)

lemma slot_at_install_clone:
  "map_option bare_entry (slot_at (fst (install_clone k se c (m, st))) j) =
    (if j = k then Some (bare_entry se\<lparr>e_container := c\<rparr>) else bare_slot m j)"
  by (auto simp: install_clone_def bare_slot_def bare_entry_def bare_deep_clone
      split: option.split prod.split)

lemma bare_slot_merge_slot:
  "bare_slot (fst (map_merge_slot k se (m, st))) j =
    (if j = k then join_slot (bare_slot m k) (Some (bare_entry se)) else bare_slot m j)"
proof (cases "slot_at m k")
  case None
  then show ?thesis
    using slot_at_install_clone [of k se "e_container se" m st j]
    by (simp add: map_merge_slot_def bare_slot_def retained_def join_slot_def)
next
  case (Some de)
  let ?c = "higher (e_container de) (e_container se)"
  show ?thesis
  proof (cases "recurses de se")
    case True
    then obtain dv sv where v: "e_value de = Some dv" "e_value se = Some sv"
      using recurses_values by blast
    note bare = bare_recursing [OF True v]
    show ?thesis
      using Some True v bare
      by (simp add: map_merge_slot_def bare_slot_def retained_def join_slot_def bare_entry_def)
  next
    case False
    show ?thesis
    proof (cases "e_stamp de < e_stamp se")
      case True
      with Some False show ?thesis
        using slot_at_install_clone [of k se ?c m st j]
        by (simp add: map_merge_slot_def bare_slot_def retained_def join_slot_def Let_def)
    next
      case stale: False
      with Some False show ?thesis
        by (simp add: map_merge_slot_def bare_slot_def retained_def join_slot_def bare_entry_def Let_def)
    qed
  qed
qed

lemma bare_slot_merge_fold:
  "distinct (map fst xs) \<Longrightarrow>
    bare_slot (fst (fold (\<lambda>(k, v). map_merge_slot k v) xs ms)) k =
      join_slot (bare_slot (fst ms) k) (map_option bare_entry (map_of xs k))"
proof (induction xs arbitrary: ms)
  case Nil
  then show ?case by (simp add: join_slot_def split: option.split)
next
  case (Cons x xs)
  obtain j e where x: "x = (j, e)" by (cases x)
  then have "map_of xs j = None" using Cons.prems by (simp add: map_of_eq_None_iff)
  then show ?case
    using Cons x bare_slot_merge_slot [of j e "fst ms" "snd ms" k]
    by (auto simp: join_slot_def split: option.split)
qed

lemma bare_slot_merge:
  "bare_slot (fst (map_merge src ms)) k = join_slot (bare_slot (fst ms) k) (bare_slot src k)"
  using bare_slot_merge_fold [OF distinct_sorted_list_of_fmap, of "slots src" ms k]
  unfolding map_merge_def fm_fold_def by (simp add: bare_slot_def slot_at_def)

lemma newest_stamp_append:
  "xs \<noteq> [] \<Longrightarrow> ys \<noteq> [] \<Longrightarrow>
    newest_stamp (xs @ ys) = max (newest_stamp xs) (newest_stamp ys)"
  by (simp add: newest_stamp_def image_Un Max_Un)

lemma slot_of_history_append:
  assumes w: "one_write (xs @ ys)"
  shows "slot_of_history (xs @ ys) k = join_slot (slot_of_history xs k) (slot_of_history ys k)"
proof -
  let ?xs = "ops_at k xs" and ?ys = "ops_at k ys"
  have wx: "one_write xs" and wy: "one_write ys"
    by (rule one_write_mono [OF w]; auto)+
  consider "?xs = []" | "?ys = []" | "?xs \<noteq> []" "?ys \<noteq> []" by blast
  then show ?thesis
  proof cases
    case 3
    obtain p where p: "p \<in> set ?xs" "mop_stamp p = newest_stamp ?xs"
      using newest_stamp_in [OF 3(1)] by blast
    obtain q where q: "q \<in> set ?ys" "mop_stamp q = newest_stamp ?ys"
      using newest_stamp_in [OF 3(2)] by blast
    note top = newest_stamp_append [OF 3]
    have "newest_value (?xs @ ?ys) =
        (if newest_stamp ?xs < newest_stamp ?ys then newest_value ?ys else newest_value ?xs)"
    proof (cases "newest_stamp ?xs < newest_stamp ?ys")
      case True
      then show ?thesis
        using newest_value_eq [OF w, of q k] newest_value_eq [OF wy q] q top
        by (simp add: max_def less_imp_le in_ops_at)
    next
      case False
      then show ?thesis
        using newest_value_eq [OF w, of p k] newest_value_eq [OF wx p] p top
        by (auto simp: max_def not_less in_ops_at)
    qed
    with 3 top show ?thesis
      by (auto simp: slot_of_history_def Let_def join_slot_def entry_of_def highest_create_append max_def)
  qed (simp_all add: slot_of_history_def join_slot_def split: option.split)
qed

lemma ops_at_bare: "ops_at k (map bare_op ops) = map bare_op (ops_at k ops)"
  by (simp add: ops_at_def filter_map comp_def)

lemma newest_stamp_bare: "newest_stamp (map bare_op ops) = newest_stamp ops"
  by (simp add: newest_stamp_def image_image)

lemma newest_value_bare:
  "newest_value (map bare_op ops) = map_option bare_held (newest_value ops)"
proof -
  have "find P (map f xs) = map_option f (find (P \<circ> f) xs)" for P and f :: "map_op \<Rightarrow> map_op" and xs
    by (induction xs) auto
  then show ?thesis
    by (simp add: newest_value_def newest_stamp_bare comp_def split: option.split)
qed

lemma slot_of_history_bare:
  "slot_of_history (map bare_op ops) k = map_option bare_entry (slot_of_history ops k)"
  by (simp add: slot_of_history_def Let_def ops_at_bare newest_stamp_bare newest_value_bare
      highest_create_fold bare_entry_def entry_of_def comp_def)

section \<open>Properties\<close>

definition no_cells :: store where
  "no_cells = \<lparr>next_ptr = 0, displaced_ptrs = {||}, calls = []\<rparr>"

definition replica :: "elementid \<Rightarrow> store \<Rightarrow> map_op list \<Rightarrow> lww_map" where
  "replica i st ops = fst (fold map_apply ops (map_new i, st))"

definition sample_sets :: "map_op list" where
  "sample_sets =
     [PutAt [107] (Shared (Handle KMap (ElementId 5) 0)) (Stamp 1 (ClientId 1) 0),
      DropAt [107] (Stamp 3 (ClientId 2) 0),
      PutAt [107] (Inline (SInt 7)) (Stamp 2 (ClientId 1) 0)]"

definition sample_delete :: "map_op list" where
  "sample_delete = [DropAt [107] (Stamp 3 (ClientId 2) 0)]"

text \<open>A slot of a map is decided by the set of writes its key has seen: it holds the value, or
  the tombstone, of the write with the greatest stamp, and it retains the highest container create
  even where that create lost the slot or was deleted. A key no write named has no slot.\<close>
theorem map_holds_latest:
  assumes "one_write ops" and "one_cell ops"
  shows "slot_at (fst (fold map_apply ops (map_new i, st))) k = slot_of_history ops k"
  using assms by (rule fold_map_apply_slot)

lemma map_holds_latest_witness:
  "slot_at (fst (fold map_apply sample_sets (map_new (ElementId 1), no_cells))) [107] =
    Some \<lparr>e_stamp = Stamp 3 (ClientId 2) 0, e_value = None, e_tombstone = True,
      e_container = Some \<lparr>create_stamp = Stamp 1 (ClientId 1) 0, create_kind = KMap\<rparr>\<rparr>"
proof -
  have "one_write sample_sets" "one_cell sample_sets" by code_simp+
  then have "slot_at (fst (fold map_apply sample_sets (map_new (ElementId 1), no_cells))) [107] =
      slot_of_history sample_sets [107]"
    by (rule map_holds_latest)
  also have "\<dots> = Some \<lparr>e_stamp = Stamp 3 (ClientId 2) 0, e_value = None, e_tombstone = True,
      e_container = Some \<lparr>create_stamp = Stamp 1 (ClientId 1) 0, create_kind = KMap\<rparr>\<rparr>"
    by code_simp
  finally show ?thesis .
qed

text \<open>C31. Maps converge: replicas that received the same set of sets and deletes, in any order and
  with any repetition, hold the same slots, retained creates included.\<close>
theorem map_converges:
  assumes "set xs = set ys" and "one_write xs" and "one_cell xs"
  shows "fst (fold map_apply xs (map_new i, st)) = fst (fold map_apply ys (map_new i, st'))"
proof (rule map_eqI)
  have w: "one_write ys" "one_cell ys"
    using assms by (auto intro: one_write_mono one_cell_mono)
  show "slot_at (fst (fold map_apply xs (map_new i, st))) k =
      slot_at (fst (fold map_apply ys (map_new i, st'))) k" for k
    using fold_map_apply_slot [OF assms(2,3)] fold_map_apply_slot [OF w]
      slot_of_history_cong [OF assms(1,2)] by simp
  have "map_id (fst (fold map_apply ops (map_new i, st))) = i \<and>
      \<not> map_displaced (fst (fold map_apply ops (map_new i, st)))" for ops st
    by (induction ops rule: rev_induct) (simp_all add: map_new_def)
  then show "map_id (fst (fold map_apply xs (map_new i, st))) =
        map_id (fst (fold map_apply ys (map_new i, st')))"
    and "map_displaced (fst (fold map_apply xs (map_new i, st))) =
        map_displaced (fst (fold map_apply ys (map_new i, st')))"
    by simp_all
qed

lemma map_converges_witness:
  "fst (fold map_apply sample_sets (map_new (ElementId 1), no_cells)) =
    fst (fold map_apply (rev sample_sets @ sample_delete) (map_new (ElementId 1), no_cells))"
proof (rule map_converges)
  show "one_write sample_sets" "one_cell sample_sets" by code_simp+
qed (auto simp: sample_sets_def sample_delete_def)

text \<open>C29. Merging two replicas gives the map of both histories: each slot holds what the history
  of one replica followed by that of the other would leave there, whichever of the two receives
  the merge. Two replicas hold a composite in cells of their own, so the slots are compared
  without the addresses.\<close>
theorem map_merge_histories:
  assumes "one_write xs" and "one_cell xs" and "one_write ys" and "one_cell ys"
    and "one_write (map bare_op (xs @ ys))"
  shows "bare_slot (fst (map_merge (replica i st' ys) (replica i st xs, st))) k =
    slot_of_history (map bare_op (xs @ ys)) k"
  using slot_of_history_append [of "map bare_op xs" "map bare_op ys"] assms
  unfolding bare_slot_merge
  by (simp add: bare_slot_def replica_def fold_map_apply_slot slot_of_history_bare)

lemma map_merge_histories_witness:
  "bare_slot (fst (map_merge (replica (ElementId 1) no_cells sample_delete)
      (replica (ElementId 1) no_cells (take 1 sample_sets), no_cells))) [107] =
    slot_of_history (map bare_op (take 1 sample_sets @ sample_delete)) [107]"
  by (rule map_merge_histories) code_simp+

end
