(* ===== verification/Maps_Codec.thy ===== *)
theory Maps_Codec
  imports Maps_History
begin

text \<open>
  The state codec of \<^verbatim>\<open>map.rs\<close>. A leaf is written inline and a composite by kind and id; decoding
  yields references, which \<open>Document::decode_state\<close> resolves against its registries before it
  installs the slots. A retained create is spelled out only where the slot does not imply it.
\<close>

definition put_ref :: "u8 \<Rightarrow> elementid \<Rightarrow> encoder" where
  "put_ref tag i = put_all [put_u8 tag, put_element_id i]"

text \<open>What a register cell holds is read through \<open>regs\<close>, its \<open>borrow\<close>.\<close>

fun put_slot_value :: "(nat \<Rightarrow> register) \<Rightarrow> held \<Rightarrow> encoder" where
  "put_slot_value regs (Inline s) = put_all [put_u8 0, put_scalar s]"
| "put_slot_value regs (Shared h) =
     (case h_kind h of
        KScalar \<Rightarrow> None
      | KRegister \<Rightarrow> put_all [put_u8 1, register_encode_state (regs (h_ptr h))]
      | KCounter \<Rightarrow> put_ref 2 (h_id h)
      | KMap \<Rightarrow> put_ref 3 (h_id h)
      | KList \<Rightarrow> put_ref 4 (h_id h)
      | KText \<Rightarrow> put_ref 5 (h_id h)
      | KXmlElement \<Rightarrow> put_ref 6 (h_id h)
      | KXmlFragment \<Rightarrow> put_ref 7 (h_id h))"

definition spelled_create :: "entry \<Rightarrow> create option" where
  "spelled_create e =
     (case e_value e of
        Some v \<Rightarrow>
          if e_tombstone e then e_container e
          else (case e_container e of
                  None \<Rightarrow> None
                | Some c \<Rightarrow> if create_of v (e_stamp e) \<noteq> Some c then Some c else None)
      | None \<Rightarrow> e_container e)"

definition put_create :: "create \<Rightarrow> encoder" where
  "put_create c = put_all [put_stamp (create_stamp c), put_u8 (kind_tag (create_kind c))]"

definition put_live :: "(nat \<Rightarrow> register) \<Rightarrow> entry \<Rightarrow> encoder" where
  "put_live regs e = (case e_value e of None \<Rightarrow> None | Some v \<Rightarrow> put_slot_value regs v)"

definition put_slot :: "(nat \<Rightarrow> register) \<Rightarrow> bytes \<times> entry \<Rightarrow> encoder" where
  "put_slot regs = (\<lambda>(k, e). put_all [put_bytes k, put_stamp (e_stamp e),
     case (e_tombstone e, spelled_create e) of
       (False, None) \<Rightarrow> put_all [put_u8 0, put_live regs e]
     | (False, Some c) \<Rightarrow> put_all [put_u8 3, put_create c, put_live regs e]
     | (True, None) \<Rightarrow> put_u8 1
     | (True, Some c) \<Rightarrow> put_all [put_u8 2, put_create c]])"

definition map_encode_state :: "(nat \<Rightarrow> register) \<Rightarrow> lww_map \<Rightarrow> encoder" where
  "map_encode_state regs m =
     (let es = sorted_list_of_fmap (slots m)
      in put_all [put_element_id (map_id m), put_len (length es), put_all (map (put_slot regs) es)])"

datatype slot_value = SlotScalar scalar | SlotRegister register | SlotRef element_kind elementid

record decoded_slot =
  ds_key :: bytes
  ds_stamp :: stamp
  ds_tombstone :: bool
  ds_value :: "slot_value option"
  ds_container :: "(stamp \<times> element_kind) option"

record decoded_map =
  dm_id :: elementid
  dm_slots :: "decoded_slot list"

definition cur_container_kind :: "element_kind decoder" where
  "cur_container_kind = and_then cur_u8 (\<lambda>tag.
     case from_tag tag of
       Some k \<Rightarrow> if kind_is_container k then ret k else fail (BadTag ''retained container kind'' tag)
     | None \<Rightarrow> fail (BadTag ''retained container kind'' tag))"

definition cur_create :: "(stamp \<times> element_kind) decoder" where
  "cur_create = and_then cur_stamp (\<lambda>s. and_then (noting (client s) (lamport s)) (\<lambda>_.
     and_then cur_container_kind (\<lambda>k. ret (s, k))))"

definition cur_presence :: "(bool \<times> (stamp \<times> element_kind) option) decoder" where
  "cur_presence = and_then cur_u8 (\<lambda>tag.
     if tag = 0 then ret (False, None)
     else if tag = 1 then ret (True, None)
     else if tag = 2 \<or> tag = 3 then and_then cur_create (\<lambda>c. ret (tag = 2, Some c))
     else fail (BadTag ''map slot tombstone'' tag))"

definition cur_slot_value :: "slot_value decoder" where
  "cur_slot_value = and_then cur_u8 (\<lambda>tag.
     if tag = 0 then and_then cur_scalar (\<lambda>s. ret (SlotScalar s))
     else if tag = 1 then and_then register_decode_state_from (\<lambda>r. ret (SlotRegister r))
     else if tag = 2 then and_then cur_element_id (\<lambda>i. ret (SlotRef KCounter i))
     else if tag = 3 then and_then cur_element_id (\<lambda>i. ret (SlotRef KMap i))
     else if tag = 4 then and_then cur_element_id (\<lambda>i. ret (SlotRef KList i))
     else if tag = 5 then and_then cur_element_id (\<lambda>i. ret (SlotRef KText i))
     else if tag = 6 then and_then cur_element_id (\<lambda>i. ret (SlotRef KXmlElement i))
     else if tag = 7 then and_then cur_element_id (\<lambda>i. ret (SlotRef KXmlFragment i))
     else fail (BadTag ''map slot value'' tag))"

definition cur_slot :: "decoded_slot decoder" where
  "cur_slot = and_then cur_bytes (\<lambda>k. and_then cur_stamp (\<lambda>s.
     and_then (noting (client s) (lamport s)) (\<lambda>_. and_then cur_presence (\<lambda>(tomb, c).
       and_then (if tomb then ret None else and_then cur_slot_value (\<lambda>v. ret (Some v))) (\<lambda>v.
         ret \<lparr>ds_key = k, ds_stamp = s, ds_tombstone = tomb, ds_value = v, ds_container = c\<rparr>)))))"

definition map_decode_state_from :: "decoded_map decoder" where
  "map_decode_state_from = and_then cur_element_id (\<lambda>i. and_then cur_u32 (\<lambda>n.
     and_then (cur_repeat (unat n) cur_slot) (\<lambda>ss. ret \<lparr>dm_id = i, dm_slots = ss\<rparr>)))"

section \<open>Installing decoded slots\<close>

definition insert_decoded ::
    "bytes \<Rightarrow> stamp \<Rightarrow> held option \<Rightarrow> bool \<Rightarrow> (stamp \<times> element_kind) option \<Rightarrow> lww_map \<Rightarrow>
       bool \<times> lww_map" where
  "insert_decoded k s v tomb c m =
     (let container = higher
            (map_option (\<lambda>(s, knd). \<lparr>create_stamp = s, create_kind = knd\<rparr>) c)
            (case v of None \<Rightarrow> None | Some v \<Rightarrow> if tomb then None else create_of v s)
      in (slot_at m k \<noteq> None,
          put_entry k \<lparr>e_stamp = s, e_value = v, e_tombstone = tomb, e_container = container\<rparr> m))"

text \<open>The registries of the document: the address of the cell of a kind and an id.\<close>

type_synonym registries = "element_kind \<Rightarrow> elementid \<Rightarrow> nat option"

definition resolve_ref :: "registries \<Rightarrow> element_kind \<Rightarrow> elementid \<Rightarrow> decode_error + held" where
  "resolve_ref reg knd i =
     (case (if knd = KScalar \<or> knd = KRegister then None else reg knd i) of
        None \<Rightarrow> Inl (BadTag ''document: dangling reference'' 0)
      | Some p \<Rightarrow> Inr (Shared (Handle knd i p)))"

fun resolve_slot_value :: "registries \<Rightarrow> slot_value \<Rightarrow> store \<Rightarrow> decode_error + held \<times> store" where
  "resolve_slot_value reg (SlotScalar s) st = Inr (Inline s, st)"
| "resolve_slot_value reg (SlotRegister r) st =
     Inr (new_cell (\<lambda>p. MakeRegister p r) KRegister (reg_id r) st)"
| "resolve_slot_value reg (SlotRef knd i) st =
     (case resolve_ref reg knd i of Inl e \<Rightarrow> Inl e | Inr v \<Rightarrow> Inr (v, st))"

fun install_slots ::
    "registries \<Rightarrow> decoded_slot list \<Rightarrow> lww_map \<times> store \<Rightarrow> decode_error + lww_map \<times> store" where
  "install_slots reg [] ms = Inr ms"
| "install_slots reg (d # ds) (m, st) =
     (case (case ds_value d of
              None \<Rightarrow> Inr (None, st)
            | Some v \<Rightarrow>
                (case resolve_slot_value reg v st of
                   Inl e \<Rightarrow> Inl e | Inr (h, st') \<Rightarrow> Inr (Some h, st'))) of
        Inl e \<Rightarrow> Inl e
      | Inr (v, st') \<Rightarrow>
          (case insert_decoded (ds_key d) (ds_stamp d) v (ds_tombstone d) (ds_container d) m of
             (displaced, m') \<Rightarrow>
               if displaced then Inl (BadTag ''document: duplicate map slot'' 0)
               else install_slots reg ds (m', st')))"

section \<open>Reading back\<close>

text \<open>What the encoder relies on: a slot is a tombstone exactly if it has no value, the create it
  retains is a container's and ranks at least as high as the create it shows, and a handle names a
  composite; a register's cell carries the register of the handle's id.\<close>

fun held_ok :: "(nat \<Rightarrow> register) \<Rightarrow> held \<Rightarrow> bool" where
  "held_ok regs (Inline s) \<longleftrightarrow> scalar_typed s"
| "held_ok regs (Shared h) \<longleftrightarrow> h_kind h \<noteq> KScalar \<and>
     (h_kind h = KRegister \<longrightarrow> scalar_typed (reg_value (regs (h_ptr h))) \<and> reg_id (regs (h_ptr h)) = h_id h)"

definition entry_ok :: "(nat \<Rightarrow> register) \<Rightarrow> entry \<Rightarrow> bool" where
  "entry_ok regs e \<longleftrightarrow> (e_tombstone e \<longleftrightarrow> e_value e = None) \<and> pred_option (held_ok regs) (e_value e) \<and>
     pred_option (\<lambda>c. kind_is_container (create_kind c)) (e_container e) \<and>
     pred_option (\<lambda>v. higher (e_container e) (create_of v (e_stamp e)) = e_container e) (e_value e)"

definition map_ok :: "(nat \<Rightarrow> register) \<Rightarrow> lww_map \<Rightarrow> bool" where
  "map_ok regs m \<longleftrightarrow> (\<forall>e \<in> set (fm_values (slots m)). entry_ok regs e)"

fun slot_value_of :: "(nat \<Rightarrow> register) \<Rightarrow> held \<Rightarrow> slot_value" where
  "slot_value_of regs (Inline s) = SlotScalar s"
| "slot_value_of regs (Shared h) =
     (if h_kind h = KRegister then SlotRegister (register_deep_clone (regs (h_ptr h)))
      else SlotRef (h_kind h) (h_id h))"

definition slot_of :: "(nat \<Rightarrow> register) \<Rightarrow> bytes \<times> entry \<Rightarrow> decoded_slot" where
  "slot_of regs = (\<lambda>(k, e). \<lparr>ds_key = k, ds_stamp = e_stamp e, ds_tombstone = e_tombstone e,
     ds_value = map_option (slot_value_of regs) (e_value e),
     ds_container = map_option (\<lambda>c. (create_stamp c, create_kind c)) (spelled_create e)\<rparr>)"

lemma codes_register_state:
  assumes "scalar_typed (reg_value r)"
  shows "codes (register_encode_state r) register_decode_state_from (register_deep_clone r)"
proof -
  have "register_encode_state r = register_encode_state (register_deep_clone r)"
    by (simp add: register_encode_state_def register_deep_clone_def)
  with assms show ?thesis
    using codes_register [of "register_deep_clone r"]
    by (simp add: register_typed_def register_deep_clone_def)
qed

lemma codes_slot_value:
  assumes "held_ok regs v"
  shows "codes (put_slot_value regs v) cur_slot_value (slot_value_of regs v)"
proof (cases v)
  case (Inline s)
  with assms show ?thesis
    by (auto simp: cur_slot_value_def intro!: codes_tagged codes_intro)
next
  case (Shared h)
  with assms show ?thesis
    by (cases "h_kind h")
      (auto simp: cur_slot_value_def put_ref_def intro!: codes_tagged codes_register_state codes_intro)
qed

lemma codes_container_kind:
  "kind_is_container k \<Longrightarrow> codes (put_u8 (kind_tag k)) cur_container_kind k"
  unfolding cur_container_kind_def by (rule codes_tag) simp

lemma codes_noting:
  "codes (put_all ps) d x \<Longrightarrow> codes (put_all ps) (and_then (noting cl l) (\<lambda>_. d)) x"
  using reads_and_then [OF reads_noting, of "\<lambda>_. d"] by (fastforce simp: codes_def)

lemma codes_create:
  assumes "kind_is_container (create_kind c)"
  shows "codes (put_create c) cur_create (create_stamp c, create_kind c)"
  unfolding put_create_def cur_create_def
  by (intro codes_Cons [OF codes_stamp] codes_noting codes_Cons [OF codes_container_kind]
      codes_Nil' assms refl)

lemma codes_presence:
  fixes c :: "create option"
  assumes "pred_option (\<lambda>c. kind_is_container (create_kind c)) c"
    and "codes (put_all qs) (f (tomb, map_option (\<lambda>c. (create_stamp c, create_kind c)) c)) y"
  shows "codes (case (tomb, c) of
       (False, None) \<Rightarrow> put_all (put_u8 0 # qs)
     | (False, Some c) \<Rightarrow> put_all (put_u8 3 # put_create c # qs)
     | (True, None) \<Rightarrow> put_all (put_u8 1 # qs)
     | (True, Some c) \<Rightarrow> put_all (put_u8 2 # put_create c # qs)) (and_then cur_presence f) y"
proof (cases c)
  case None
  with assms(2) show ?thesis
    by (cases tomb) (auto simp: cur_presence_def and_then_assoc intro!: codes_tagged)
next
  case (Some d)
  with assms have "codes (put_all (put_create d # qs))
      (and_then cur_create (\<lambda>c. f (tomb, Some c))) y"
    by (intro codes_Cons [OF codes_create]) simp_all
  with Some show ?thesis
    by (cases tomb) (auto simp: cur_presence_def and_then_assoc intro!: codes_tagged)
qed

lemma put_slot_pair: "put_slot regs (k, e) = put_all [put_bytes k, put_stamp (e_stamp e),
     case (e_tombstone e, spelled_create e) of
       (False, None) \<Rightarrow> put_all [put_u8 0, put_live regs e]
     | (False, Some c) \<Rightarrow> put_all [put_u8 3, put_create c, put_live regs e]
     | (True, None) \<Rightarrow> put_u8 1
     | (True, Some c) \<Rightarrow> put_all [put_u8 2, put_create c]]"
  by (simp only: put_slot_def prod.case)

lemma codes_slot:
  assumes "entry_ok regs e"
  shows "codes (put_slot regs (k, e)) cur_slot (slot_of regs (k, e))"
proof -
  let ?c = "spelled_create e"
  let ?rest = "\<lambda>(tomb, c). and_then (if tomb then ret None else and_then cur_slot_value (\<lambda>v. ret (Some v)))
    (\<lambda>v. ret \<lparr>ds_key = k, ds_stamp = e_stamp e, ds_tombstone = tomb, ds_value = v, ds_container = c\<rparr>)"
  let ?qs = "case e_value e of None \<Rightarrow> [] | Some v \<Rightarrow> [put_slot_value regs v]"
  from assms have tomb: "e_tombstone e \<longleftrightarrow> e_value e = None"
    and kind: "pred_option (\<lambda>c. kind_is_container (create_kind c)) ?c"
    by (auto simp: entry_ok_def spelled_create_def pred_option_def split: option.splits if_splits)
  have body: "codes (put_all ?qs)
      (?rest (e_tombstone e, map_option (\<lambda>c. (create_stamp c, create_kind c)) ?c)) (slot_of regs (k, e))"
  proof (cases "e_value e")
    case None
    with tomb show ?thesis by (simp add: slot_of_def codes_Nil)
  next
    case (Some v)
    with tomb assms have "\<not> e_tombstone e" "held_ok regs v" by (simp_all add: entry_ok_def)
    with Some show ?thesis
      by (auto simp: slot_of_def and_then_assoc intro!: codes_single codes_then [OF codes_slot_value])
  qed
  have put: "(case (e_tombstone e, ?c) of
       (False, None) \<Rightarrow> put_all [put_u8 0, put_live regs e]
     | (False, Some c) \<Rightarrow> put_all [put_u8 3, put_create c, put_live regs e]
     | (True, None) \<Rightarrow> put_u8 1
     | (True, Some c) \<Rightarrow> put_all [put_u8 2, put_create c]) =
     (case (e_tombstone e, ?c) of
       (False, None) \<Rightarrow> put_all (put_u8 0 # ?qs)
     | (False, Some c) \<Rightarrow> put_all (put_u8 3 # put_create c # ?qs)
     | (True, None) \<Rightarrow> put_all (put_u8 1 # ?qs)
     | (True, Some c) \<Rightarrow> put_all (put_u8 2 # put_create c # ?qs))"
    using tomb by (auto simp: put_live_def put_u8_def put_all.simps split: option.split)
  show ?thesis
    unfolding put_slot_pair cur_slot_def put
    by (intro codes_Cons [OF codes_bytes] codes_Cons [OF codes_stamp] codes_noting codes_single
        codes_presence [where f = ?rest, OF kind body])
qed

lemma codes_map_state:
  assumes "map_ok regs m"
  shows "codes (map_encode_state regs m) map_decode_state_from
    \<lparr>dm_id = map_id m, dm_slots = map (slot_of regs) (sorted_list_of_fmap (slots m))\<rparr>"
proof -
  let ?es = "sorted_list_of_fmap (slots m)"
  have "codes (put_all (map (put_slot regs) ?es)) (cur_repeat (length ?es) cur_slot)
      (map (slot_of regs) ?es)"
    using assms by (intro codes_repeat_map) (auto simp: map_ok_def in_fm_values intro!: codes_slot)
  then show ?thesis
    unfolding map_encode_state_def Let_def map_decode_state_from_def
    by (intro codes_Cons [OF codes_element_id] codes_len_then
        codes_Cons [where x = "map (slot_of regs) ?es"] codes_Nil')
      simp_all
qed

section \<open>Installing what was decoded\<close>

text \<open>The registries know every composite a live slot refers to.\<close>

definition registered :: "registries \<Rightarrow> held \<Rightarrow> bool" where
  "registered reg v = (case v of Inline _ \<Rightarrow> True
     | Shared h \<Rightarrow> h_kind h = KRegister \<or> reg (h_kind h) (h_id h) \<noteq> None)"

definition map_registered :: "registries \<Rightarrow> lww_map \<Rightarrow> bool" where
  "map_registered reg m \<longleftrightarrow> (\<forall>e \<in> set (fm_values (slots m)). pred_option (registered reg) (e_value e))"

text \<open>The value of a slot and what a register in it holds.\<close>

definition reads_as :: "(nat \<Rightarrow> register) \<Rightarrow> store \<Rightarrow> held \<Rightarrow> held \<Rightarrow> bool" where
  "reads_as regs st v w \<longleftrightarrow> bare_held v = bare_held w \<and>
     (case (v, w) of (Shared h, Shared g) \<Rightarrow>
        h_kind h = KRegister \<longrightarrow>
          MakeRegister (h_ptr g) (register_deep_clone (regs (h_ptr h))) \<in> set (calls st)
      | _ \<Rightarrow> True)"

definition entry_reads_as :: "(nat \<Rightarrow> register) \<Rightarrow> store \<Rightarrow> entry \<Rightarrow> entry \<Rightarrow> bool" where
  "entry_reads_as regs st e f \<longleftrightarrow> e_stamp e = e_stamp f \<and> e_tombstone e = e_tombstone f \<and>
     e_container e = e_container f \<and> rel_option (reads_as regs st) (e_value e) (e_value f)"

lemma resolve_slot_value_of:
  assumes "held_ok regs v" "registered reg v"
  shows "\<exists>w st'. resolve_slot_value reg (slot_value_of regs v) st = Inr (w, st') \<and>
    reads_as regs st' v w \<and> set (calls st) \<subseteq> set (calls st') \<and>
    held_kind w = held_kind v"
proof (cases v)
  case (Inline s)
  then show ?thesis by (simp add: reads_as_def)
next
  case (Shared h)
  with assms show ?thesis
    by (cases "h_kind h = KRegister")
      (auto simp: registered_def reads_as_def new_cell_def resolve_ref_def register_deep_clone_def)
qed

lemma create_surjective [simp]:
  "\<lparr>create_stamp = create_stamp c, create_kind = create_kind c\<rparr> = (c :: create)"
  by simp

lemma respelled:
  assumes "entry_ok regs e" "e_value e = Some v" "held_kind w = held_kind v"
  shows "higher (map_option (\<lambda>(s, knd). \<lparr>create_stamp = s, create_kind = knd\<rparr>)
      (map_option (\<lambda>c. (create_stamp c, create_kind c)) (spelled_create e)))
      (create_of w (e_stamp e)) = e_container e"
proof -
  have "create_of w (e_stamp e) = create_of v (e_stamp e)"
    using assms(3) by (simp add: create_of_def held_is_container_def)
  moreover have "higher (e_container e) (create_of v (e_stamp e)) = e_container e"
    "\<not> e_tombstone e"
    using assms(1,2) by (simp_all add: entry_ok_def)
  moreover from this(1) have "e_container e = None \<Longrightarrow> create_of v (e_stamp e) = None" by simp
  ultimately show ?thesis
    using assms(2) by (auto simp: spelled_create_def split: option.splits)
qed

lemma entry_reads_as_mono:
  "entry_reads_as regs st e f \<Longrightarrow> set (calls st) \<subseteq> set (calls st') \<Longrightarrow> entry_reads_as regs st' e f"
  by (auto simp: entry_reads_as_def elim!: option.rel_mono_strong)
    (auto simp: reads_as_def split: held.splits)

lemma install_slot:
  assumes "entry_ok regs e" "pred_option (registered reg) (e_value e)" "slot_at m k = None"
  shows "\<exists>f st'. install_slots reg (slot_of regs (k, e) # ds) (m, st) =
      install_slots reg ds (put_entry k f m, st') \<and>
    entry_reads_as regs st' e f \<and> set (calls st) \<subseteq> set (calls st')"
proof (cases "e_value e")
  case None
  with assms have "e_tombstone e" by (simp add: entry_ok_def)
  let ?f = "\<lparr>e_stamp = e_stamp e, e_value = None, e_tombstone = True, e_container = e_container e\<rparr>"
  have "install_slots reg (slot_of regs (k, e) # ds) (m, st) =
      install_slots reg ds (put_entry k ?f m, st)"
    using None assms(3) \<open>e_tombstone e\<close>
    by (simp add: slot_of_def insert_decoded_def Let_def spelled_create_def option.map_comp comp_def option.map_ident)
  with None \<open>e_tombstone e\<close> show ?thesis
    by (intro exI [of _ ?f] exI [of _ st]) (simp add: entry_reads_as_def)
next
  case (Some v)
  with assms have ok: "held_ok regs v" "registered reg v" "\<not> e_tombstone e"
    by (simp_all add: entry_ok_def)
  obtain w st' where w: "resolve_slot_value reg (slot_value_of regs v) st = Inr (w, st')"
    "reads_as regs st' v w" "set (calls st) \<subseteq> set (calls st')" "held_kind w = held_kind v"
    using resolve_slot_value_of [OF ok(1,2)] by blast
  let ?f = "\<lparr>e_stamp = e_stamp e, e_value = Some w, e_tombstone = False, e_container = e_container e\<rparr>"
  have "install_slots reg (slot_of regs (k, e) # ds) (m, st) =
      install_slots reg ds (put_entry k ?f m, st')"
    using Some assms(3) ok(3) w(1) respelled [OF assms(1) Some w(4)]
    by (simp add: slot_of_def insert_decoded_def Let_def)
  with Some ok(3) w(2,3) show ?thesis
    by (intro exI [of _ ?f] exI [of _ st']) (simp add: entry_reads_as_def)
qed

lemma install_all:
  assumes "distinct (map fst es)"
    and "\<And>k e. (k, e) \<in> set es \<Longrightarrow> entry_ok regs e \<and> pred_option (registered reg) (e_value e) \<and> slot_at m k = None"
  shows "\<exists>m' st'. install_slots reg (map (slot_of regs) es) (m, st) = Inr (m', st') \<and>
    map_id m' = map_id m \<and> set (calls st) \<subseteq> set (calls st') \<and>
    (\<forall>k. case map_of es k of None \<Rightarrow> slot_at m' k = slot_at m k
       | Some e \<Rightarrow> \<exists>f. slot_at m' k = Some f \<and> entry_reads_as regs st' e f)"
  using assms
proof (induction es arbitrary: m st)
  case Nil
  then show ?case by simp
next
  case (Cons x es)
  obtain k e where x: "x = (k, e)" by (cases x)
  with Cons.prems have ok: "entry_ok regs e" "pred_option (registered reg) (e_value e)" "slot_at m k = None"
    and new: "map_of es k = None"
    by (auto simp: map_of_eq_None_iff)
  obtain f st1 where one: "install_slots reg (slot_of regs (k, e) # map (slot_of regs) es) (m, st) =
      install_slots reg (map (slot_of regs) es) (put_entry k f m, st1)"
    "entry_reads_as regs st1 e f" "set (calls st) \<subseteq> set (calls st1)"
    using install_slot [OF ok] by blast
  have "\<exists>m' st'. install_slots reg (map (slot_of regs) es) (put_entry k f m, st1) = Inr (m', st') \<and>
    map_id m' = map_id (put_entry k f m) \<and> set (calls st1) \<subseteq> set (calls st') \<and>
    (\<forall>j. case map_of es j of None \<Rightarrow> slot_at m' j = slot_at (put_entry k f m) j
       | Some e \<Rightarrow> \<exists>f. slot_at m' j = Some f \<and> entry_reads_as regs st' e f)"
    using Cons.prems x by (intro Cons.IH) (auto simp: image_iff)
  then obtain m' st' where rest: "install_slots reg (map (slot_of regs) es) (put_entry k f m, st1) = Inr (m', st')"
    "map_id m' = map_id (put_entry k f m)" "set (calls st1) \<subseteq> set (calls st')"
    "\<And>j. case map_of es j of None \<Rightarrow> slot_at m' j = slot_at (put_entry k f m) j
       | Some e \<Rightarrow> \<exists>f. slot_at m' j = Some f \<and> entry_reads_as regs st' e f"
    by blast
  have "case map_of (x # es) j of None \<Rightarrow> slot_at m' j = slot_at m j
       | Some e \<Rightarrow> \<exists>f. slot_at m' j = Some f \<and> entry_reads_as regs st' e f" for j
    using rest(4) [of j] new entry_reads_as_mono [OF one(2) rest(3)] x
    by (cases "map_of es j") auto
  with one rest x show ?case
    by (intro exI [of _ m'] exI [of _ st']) (auto simp: put_entry_def)
qed

section \<open>Maps of histories\<close>

definition op_ok :: "(nat \<Rightarrow> register) \<Rightarrow> map_op \<Rightarrow> bool" where
  "op_ok regs p = pred_option (held_ok regs) (mop_value p)"

lemma mop_create_container: "pred_option (\<lambda>c. kind_is_container (create_kind c)) (mop_create p)"
  by (cases p) (auto simp: create_of_def held_is_container_def)

lemma highest_create_container:
  "pred_option (\<lambda>c. kind_is_container (create_kind c)) (highest_create ops)"
proof (induction ops rule: rev_induct)
  case (snoc p ops)
  with mop_create_container [of p] show ?case by (simp add: higher_alt)
qed simp

lemma highest_create_absorbs:
  "p \<in> set ops \<Longrightarrow> higher (highest_create ops) (mop_create p) = highest_create ops"
  using creates.merges.step_absorbed [of "mop_create p" "map mop_create ops" None]
  by (simp add: highest_create_fold list_all_iff)

lemma slot_of_history_ok:
  assumes "one_write ops" "list_all (op_ok regs) ops" "slot_of_history ops k = Some e"
  shows "entry_ok regs e"
proof -
  obtain p where p: "p \<in> set ops" "mop_key p = k" "mop_stamp p = e_stamp e" "mop_value p = e_value e"
    using slot_of_history_value [OF assms(1,3)] by blast
  have e: "e = entry_of (e_stamp e) (e_value e) (highest_create (ops_at k ops))"
    using assms(3) by (auto simp: slot_of_history_def entry_of_def Let_def split: if_splits)
  then have tomb: "e_tombstone e \<longleftrightarrow> e_value e = None"
    and container: "e_container e = highest_create (ops_at k ops)"
    by (metis entry.select_convs(3) entry_of_def) (metis e entry.select_convs(4) entry_of_def)
  have "create_of v (e_stamp e) = mop_create p" if "e_value e = Some v" for v
    by (cases p) (use p that in simp_all)
  with p have "pred_option (\<lambda>v. higher (e_container e) (create_of v (e_stamp e)) = e_container e) (e_value e)"
    using highest_create_absorbs [of p "ops_at k ops"] container
    by (cases "e_value e") (simp_all add: in_ops_at)
  moreover have "pred_option (held_ok regs) (e_value e)"
    using p assms(2) by (auto simp: list_all_iff op_ok_def)
  ultimately show ?thesis
    using tomb container highest_create_container by (simp add: entry_ok_def)
qed

lemma replica_map_ok:
  assumes "one_write ops" "one_cell ops" "list_all (op_ok regs) ops"
  shows "map_ok regs (replica i st ops)"
  using fold_map_apply_slot [OF assms(1,2), of i st] slot_of_history_ok [OF assms(1,3)]
  by (auto simp: map_ok_def in_fm_values replica_def slot_at_def)

section \<open>Properties\<close>

text \<open>C32. The state of a map survives its codec. What is decoded, with the references resolved
  against registries that know them and the slots installed in an empty map, is a map with the
  same id and at every key the same slot: stamp, tombstone, retained create, and value; a register
  in a slot comes back in a fresh cell with its own state.\<close>
theorem map_state_roundtrip:
  assumes "map_ok regs m" and "map_registered reg m" and "map_encode_state regs m = Some bs"
  shows "\<exists>d m' st'. decode_all map_decode_state_from bs = Inr d \<and> dm_id d = map_id m \<and>
    install_slots reg (dm_slots d) (map_new (dm_id d), st) = Inr (m', st') \<and>
    (\<forall>k. rel_option (entry_reads_as regs st') (slot_at m k) (slot_at m' k))"
proof -
  let ?es = "sorted_list_of_fmap (slots m)"
  let ?d = "\<lparr>dm_id = map_id m, dm_slots = map (slot_of regs) ?es\<rparr>"
  have "codes (Some bs) map_decode_state_from ?d"
    using codes_map_state [OF assms(1)] assms(3) by simp
  then have "decode_all map_decode_state_from bs = Inr ?d"
    by (rule decode_all_codes)
  moreover have "\<exists>m' st'. install_slots reg (map (slot_of regs) ?es) (map_new (map_id m), st) = Inr (m', st') \<and>
    map_id m' = map_id (map_new (map_id m)) \<and> set (calls st) \<subseteq> set (calls st') \<and>
    (\<forall>k. case map_of ?es k of None \<Rightarrow> slot_at m' k = slot_at (map_new (map_id m)) k
       | Some e \<Rightarrow> \<exists>f. slot_at m' k = Some f \<and> entry_reads_as regs st' e f)"
    using assms(1,2) by (intro install_all distinct_sorted_list_of_fmap)
      (auto simp: map_ok_def map_registered_def in_fm_values)
  moreover have "rel_option R (slot_at m k) y"
    if "case map_of ?es k of None \<Rightarrow> y = slot_at (map_new (map_id m)) k
      | Some e \<Rightarrow> \<exists>f. y = Some f \<and> R e f" for R k y
    using that by (cases "slot_at m k") (auto simp: slot_at_def map_new_def)
  ultimately show ?thesis by fastforce
qed

definition sample_create :: "map_op list" where
  "sample_create = [PutAt [107] (Shared (Handle KMap (ElementId 5) 0)) (Stamp 1 (ClientId 1) 0)]"

lemma map_state_roundtrip_witness:
  "\<exists>bs d m' st'. map_encode_state (\<lambda>_. register_new (ElementId 0) SNull (Stamp 0 (ClientId 0) 0))
        (replica (ElementId 1) no_cells sample_create) = Some bs \<and>
    decode_all map_decode_state_from bs = Inr d \<and>
    install_slots (\<lambda>_ _. Some 4) (dm_slots d) (map_new (dm_id d), no_cells) = Inr (m', st') \<and>
    slot_is_live_container m' [107]"
proof -
  let ?regs = "\<lambda>_. register_new (ElementId 0) SNull (Stamp 0 (ClientId 0) 0)"
  let ?m = "replica (ElementId 1) no_cells sample_create"
  have "one_write sample_create" "one_cell sample_create"
    by code_simp+
  moreover have "list_all (op_ok ?regs) sample_create"
    by (simp add: sample_create_def op_ok_def)
  ultimately have ok: "map_ok ?regs ?m" by (rule replica_map_ok)
  have reg: "map_registered (\<lambda>_ _. Some 4) ?m"
    by (simp add: map_registered_def registered_def pred_option_def split: held.split)
  have m: "slots ?m = fmupd [107] (entry_of (Stamp 1 (ClientId 1) 0)
      (Some (Shared (Handle KMap (ElementId 5) 0)))
      (Some \<lparr>create_stamp = Stamp 1 (ClientId 1) 0, create_kind = KMap\<rparr>)) fmempty"
    by (simp add: replica_def sample_create_def map_set_def map_new_def slot_at_def put_entry_def
        retained_def create_of_def held_is_container_def entry_of_def)
  have "sorted_list_of_fmap (fmupd k e fmempty) = [(k, e)]" for k :: bytes and e :: entry
    by (simp add: sorted_list_of_fmap_def sorted_list_of_fset.rep_eq)
  then have "map_encode_state ?regs ?m \<noteq> None"
    by (simp add: map_encode_state_def Let_def m put_slot_def put_create_def put_live_def put_ref_def spelled_create_def
        create_of_def held_is_container_def entry_of_def put_all.simps put_element_id_def put_raw_def
        put_u8_def put_u32_def put_u64_def put_len_def len_u32_def put_bytes_def put_stamp_def
        put_client_def)
  then obtain bs where bs: "map_encode_state ?regs ?m = Some bs" by blast
  from map_state_roundtrip [OF ok reg bs, of no_cells]
  obtain d m' st' where d: "decode_all map_decode_state_from bs = Inr d"
    "install_slots (\<lambda>_ _. Some 4) (dm_slots d) (map_new (dm_id d), no_cells) = Inr (m', st')"
    "\<And>k. rel_option (entry_reads_as ?regs st') (slot_at ?m k) (slot_at m' k)"
    by blast
  have "slot_is_live_container m' [107]"
    using d(3) [of "[107]"] m
    by (auto simp: slot_at_def slot_is_live_container_def entry_reads_as_def entry_of_def
        reads_as_def held_is_container_def option_rel_Some1
        dest: arg_cong [of "Shared (Handle KMap (ElementId 5) 0)" _ held_kind])
  with bs d show ?thesis by blast
qed

end
