(* ===== verification/Maps_Handles.thy ===== *)
theory Maps_Handles
  imports Maps_History
begin

text \<open>
  The cells of a map. Every cell a map makes is displaced exactly while no live slot holds it: a
  losing create is born displaced, a slot that is overwritten, deleted or replaced by a merge
  displaces what it held, and re-setting the installed handle displaces nothing.
\<close>

datatype map_call =
    CallSet bytes scalar stamp
  | CallCounter bytes stamp
  | CallRegister bytes scalar stamp
  | CallMap bytes stamp
  | CallList bytes stamp
  | CallText bytes stamp
  | CallDelete bytes stamp
  | CallMerge lww_map

fun perform :: "v5 \<Rightarrow> map_call \<Rightarrow> lww_map \<times> store \<Rightarrow> lww_map \<times> store" where
  "perform new_v5 (CallSet k v s) ms = map_set k (Inline v) s ms"
| "perform new_v5 (CallCounter k s) ms = snd (map_counter new_v5 k s ms)"
| "perform new_v5 (CallRegister k v s) ms = snd (map_register new_v5 k v s ms)"
| "perform new_v5 (CallMap k s) ms = snd (map_map new_v5 k s ms)"
| "perform new_v5 (CallList k s) ms = snd (map_list new_v5 k s ms)"
| "perform new_v5 (CallText k s) ms = snd (map_text new_v5 k s ms)"
| "perform new_v5 (CallDelete k s) ms = map_delete k s ms"
| "perform new_v5 (CallMerge src) ms = map_merge src ms"

text \<open>The cell a slot holds while it is live.\<close>

definition cell_of :: "entry \<Rightarrow> nat option" where
  "cell_of e =
     (if e_tombstone e then None
      else case e_value e of Some (Shared h) \<Rightarrow> Some (h_ptr h) | _ \<Rightarrow> None)"

definition cell_at :: "lww_map \<Rightarrow> bytes \<Rightarrow> nat option" where
  "cell_at m k = (case slot_at m k of None \<Rightarrow> None | Some e \<Rightarrow> cell_of e)"

definition cells_ok :: "lww_map \<times> store \<Rightarrow> bool" where
  "cells_ok = (\<lambda>(m, st).
     ran (cell_at m) \<subseteq> {..<next_ptr st} \<and> inj_on (cell_at m) (dom (cell_at m)) \<and>
     fset (displaced_ptrs st) = {..<next_ptr st} - ran (cell_at m))"

section \<open>How a write moves cells\<close>

lemma cell_at_put_entry: "cell_at (put_entry k e m) = (cell_at m)(k := cell_of e)"
  by (simp add: cell_at_def fun_eq_iff)

lemma displace_simps [simp]:
  "next_ptr (displace v st) = next_ptr st" "calls (displace v st) = calls st"
  by (cases v; simp)+

lemma evict_simps [simp]:
  "next_ptr (evict m k st) = next_ptr st"
  "calls (evict m k st) = calls st"
  "fset (displaced_ptrs (evict m k st)) = set_option (cell_at m k) \<union> fset (displaced_ptrs st)"
  by (auto simp: evict_def cell_at_def cell_of_def split: option.split held.split)

lemma ran_clear: "inj_on c (dom c) \<Longrightarrow> ran (c(k := None)) = ran c - set_option (c k)"
  by (auto simp: ran_def inj_on_def dom_def)

lemma inj_on_clear: "inj_on c (dom c) \<Longrightarrow> inj_on (c(k := None)) (dom (c(k := None)))"
  by (auto simp: inj_on_def dom_def)

lemma ran_fresh: "inj_on c (dom c) \<Longrightarrow> ran (c(k := Some p)) = insert p (ran c - set_option (c k))"
  by (simp only: ran_clear [symmetric]) (auto simp: ran_def)

lemma inj_on_fresh:
  "inj_on c (dom c) \<Longrightarrow> p \<notin> ran c \<Longrightarrow> inj_on (c(k := Some p)) (dom (c(k := Some p)))"
  by (auto simp: inj_on_def dom_def ran_def)

lemma cells_ok_keep:
  assumes "cells_ok (m, st)" "cell_of e = cell_at m k"
    "next_ptr st' = next_ptr st" "displaced_ptrs st' = displaced_ptrs st"
  shows "cells_ok (put_entry k e m, st')"
  using assms by (simp add: cells_ok_def cell_at_put_entry fun_upd_idem)

lemma cells_ok_clear:
  assumes "cells_ok (m, st)" "cell_of e = None"
  shows "cells_ok (put_entry k e m, evict m k st)"
  using assms ranI [of "cell_at m" k] inj_on_clear [of "cell_at m" k]
  by (auto simp: cells_ok_def cell_at_put_entry ran_clear split: option.splits)

lemma cells_ok_fresh:
  assumes "cells_ok (m, st)" "cell_of e = Some (next_ptr st)"
    and "next_ptr st' = Suc (next_ptr st)" "fset (displaced_ptrs st') = fset (displaced_ptrs (evict m k st))"
  shows "cells_ok (put_entry k e m, st')"
proof -
  have new: "next_ptr st \<notin> ran (cell_at m)" and inj: "inj_on (cell_at m) (dom (cell_at m))"
    and D: "fset (displaced_ptrs st) = {..<next_ptr st} - ran (cell_at m)"
    and below: "ran (cell_at m) \<subseteq> {..<next_ptr st}"
    using assms(1) by (auto simp: cells_ok_def)
  have old: "set_option (cell_at m k) \<subseteq> ran (cell_at m)"
    by (auto simp: ran_def)
  show ?thesis
    using assms(2-4) D below old new inj_on_fresh [OF inj new, of k]
    by (auto simp: cells_ok_def cell_at_put_entry ran_fresh [OF inj] less_Suc_eq)
qed

lemma cells_ok_born_displaced:
  assumes "cells_ok (m, st)" "cell_of e = cell_at m k"
    and "next_ptr st' = Suc (next_ptr st)" "displaced_ptrs st' = finsert (next_ptr st) (displaced_ptrs st)"
  shows "cells_ok (put_entry k e m, st')"
  using assms by (auto simp: cells_ok_def cell_at_put_entry fun_upd_idem less_Suc_eq)

lemma cells_ok_bound: "cells_ok (m, st) \<Longrightarrow> cell_at m k = Some p \<Longrightarrow> p < next_ptr st"
  by (auto simp: cells_ok_def ran_def)

section \<open>Every call keeps the cells\<close>

lemma cells_ok_set_scalar: "cells_ok (m, st) \<Longrightarrow> cells_ok (map_set k (Inline v) s (m, st))"
  by (auto simp: map_set_def Let_def reinstalls_def cell_at_def cell_of_def
      split: option.split intro!: cells_ok_keep cells_ok_clear)

lemma cells_ok_set_again:
  assumes "cells_ok (m, st)" "live_of_kind m k knd = Some c"
  shows "cells_ok (map_set k c s (m, st))"
proof -
  obtain e h where e: "slot_at m k = Some e" "\<not> e_tombstone e" "e_value e = Some (Shared h)"
    "c = Shared h"
    using assms(2)
    by (auto simp: live_of_kind_def map_get_def live_slot_def split: option.splits held.splits if_splits)
  then have "reinstalls e c" by (simp add: reinstalls_def)
  with e assms(1) show ?thesis
    by (auto simp: map_set_def Let_def cell_at_def cell_of_def intro!: cells_ok_keep)
qed

lemma cells_ok_delete: "cells_ok (m, st) \<Longrightarrow> cells_ok (map_delete k s (m, st))"
  by (auto simp: map_delete_def cell_of_def intro!: cells_ok_clear)

lemma fresh_not_reinstalled:
  assumes "cells_ok (m, st)" "slot_at m k = Some e"
  shows "\<not> reinstalls e (Shared (Handle knd i (next_ptr st)))"
proof
  assume r: "reinstalls e (Shared (Handle knd i (next_ptr st)))"
  then obtain h where "e_value e = Some (Shared h)" "h_ptr h = next_ptr st" "\<not> e_tombstone e"
    by (auto simp: reinstalls_def split: option.splits elim: same_handle.elims)
  then have "cell_at m k = Some (next_ptr st)"
    using assms(2) by (simp add: cell_at_def cell_of_def)
  with cells_ok_bound [OF assms(1)] show False by blast
qed

lemma cells_ok_install_fresh:
  assumes "cells_ok (m, st)"
  shows "cells_ok (snd (install_fresh new_v5 call knd k s (m, st)))"
proof (cases "slot_at m k")
  case None
  then show ?thesis
    using assms
    by (simp add: install_fresh_def new_cell_def map_set_def Let_def slot_wins_def)
      (rule cells_ok_fresh [OF assms], simp_all add: cell_of_def)
next
  case (Some e)
  show ?thesis
  proof (cases "e_stamp e < s")
    case True
    with Some show ?thesis
      using fresh_not_reinstalled [OF assms Some]
      by (simp add: install_fresh_def new_cell_def map_set_def Let_def slot_wins_def)
        (rule cells_ok_fresh [OF assms], simp_all add: cell_of_def)
  next
    case False
    with Some show ?thesis
      by (simp add: install_fresh_def new_cell_def map_set_def Let_def slot_wins_def)
        (rule cells_ok_born_displaced [OF assms], simp_all add: cell_of_def cell_at_def)
  qed
qed

lemma cells_ok_perform_get:
  assumes "cells_ok (m, st)"
  shows "cells_ok (snd (map_counter new_v5 k s (m, st)))"
    and "cells_ok (snd (map_register new_v5 k v s (m, st)))"
    and "cells_ok (snd (get_container new_v5 knd k s (m, st)))"
  using assms cells_ok_install_fresh [OF assms] cells_ok_set_again [OF assms]
  by (auto simp: map_counter_def map_register_def get_container_def split: option.split)

lemma cells_ok_install_clone:
  assumes "cells_ok (m, st)" "e_tombstone se \<longleftrightarrow> e_value se = None"
  shows "cells_ok (install_clone k se c (m, st))"
proof (cases "e_value se")
  case None
  with assms show ?thesis by (simp add: install_clone_def cell_of_def cells_ok_clear)
next
  case (Some v)
  show ?thesis
  proof (cases v)
    case (Inline s)
    with Some assms show ?thesis by (simp add: install_clone_def cell_of_def cells_ok_clear)
  next
    case (Shared h)
    with Some assms show ?thesis
      by (simp add: install_clone_def) (rule cells_ok_fresh [OF assms(1)], simp_all add: cell_of_def)
  qed
qed

lemma cells_ok_merge_slot:
  assumes "cells_ok (m, st)" "e_tombstone se \<longleftrightarrow> e_value se = None"
  shows "cells_ok (map_merge_slot k se (m, st))"
proof (cases "slot_at m k")
  case None
  with assms show ?thesis by (simp add: map_merge_slot_def Let_def cells_ok_install_clone)
next
  case (Some de)
  have same: "next_ptr (merge_held dv sv st) = next_ptr st"
    "displaced_ptrs (merge_held dv sv st) = displaced_ptrs st" for dv sv
    by (cases dv; cases sv; simp)+
  consider "recurses de se" | "\<not> recurses de se" "\<not> e_stamp de < e_stamp se"
    | "\<not> recurses de se" "e_stamp de < e_stamp se" by blast
  then show ?thesis
  proof cases
    case 1
    then obtain dv sv where "e_value de = Some dv" "e_value se = Some sv"
      using recurses_values by blast
    with 1 Some show ?thesis
      by (simp add: map_merge_slot_def Let_def)
        (intro conjI impI; rule cells_ok_keep [OF assms(1)];
          simp add: cell_of_def cell_at_def same)
  next
    case 2
    with Some show ?thesis
      by (simp add: map_merge_slot_def Let_def)
        (rule cells_ok_keep [OF assms(1)], simp_all add: cell_of_def cell_at_def)
  next
    case 3
    with Some assms show ?thesis by (simp add: map_merge_slot_def Let_def cells_ok_install_clone)
  qed
qed

text \<open>The slots a merge receives are well formed: a tombstone exactly where there is no value.\<close>

definition slots_ok :: "lww_map \<Rightarrow> bool" where
  "slots_ok m \<longleftrightarrow> list_all (\<lambda>e. e_tombstone e \<longleftrightarrow> e_value e = None) (fm_values (slots m))"

fun call_ok :: "map_call \<Rightarrow> bool" where
  "call_ok (CallMerge src) \<longleftrightarrow> slots_ok src"
| "call_ok _ \<longleftrightarrow> True"

lemma cells_ok_fold_merge:
  assumes "\<And>k e. (k, e) \<in> set es \<Longrightarrow> e_tombstone e \<longleftrightarrow> e_value e = None" "cells_ok ms"
  shows "cells_ok (fold (\<lambda>(k, e). map_merge_slot k e) es ms)"
  using assms
proof (induction es arbitrary: ms)
  case (Cons x es)
  have "cells_ok ((case x of (k, e) \<Rightarrow> map_merge_slot k e) ms)"
    using Cons.prems by (cases x; cases ms) (auto intro!: cells_ok_merge_slot)
  moreover have "\<And>k e. (k, e) \<in> set es \<Longrightarrow> e_tombstone e \<longleftrightarrow> e_value e = None"
    using Cons.prems(1) by (meson list.set_intros(2))
  ultimately show ?case unfolding fold_simps(2) by (intro Cons.IH)
qed simp

lemma cells_ok_merge: "cells_ok ms \<Longrightarrow> slots_ok src \<Longrightarrow> cells_ok (map_merge src ms)"
  unfolding map_merge_def fm_fold_def
  by (rule cells_ok_fold_merge) (auto simp: slots_ok_def list_all_iff in_fm_values)

lemma cells_ok_perform: "cells_ok ms \<Longrightarrow> call_ok c \<Longrightarrow> cells_ok (perform new_v5 c ms)"
  by (cases ms; cases c)
    (auto simp: map_map_def map_list_def map_text_def
      intro: cells_ok_set_scalar cells_ok_delete cells_ok_perform_get cells_ok_merge)

lemma cells_ok_new: "cells_ok (map_new i, no_cells)"
  by (simp add: cells_ok_def no_cells_def cell_at_def [abs_def])

lemma cells_ok_run: "list_all call_ok cs \<Longrightarrow> cells_ok ms \<Longrightarrow> cells_ok (fold (perform new_v5) cs ms)"
  by (induction cs arbitrary: ms) (simp_all add: cells_ok_perform del: split_paired_All)

section \<open>Properties\<close>


definition sample_calls :: "map_call list" where
  "sample_calls =
     [CallMap [107] (Stamp 2 (ClientId 1) 0), CallCounter [107] (Stamp 1 (ClientId 1) 0),
      CallList [108] (Stamp 3 (ClientId 1) 0), CallDelete [107] (Stamp 4 (ClientId 1) 0)]"

lemma run_sample_calls:
  "fold (perform (\<lambda>u b. u)) sample_calls (map_new (ElementId 1), no_cells) = (m, st) \<Longrightarrow>
    next_ptr st = 3 \<and> cell_at m = [[108] \<mapsto> 2]"
  by (auto simp: sample_calls_def map_map_def map_list_def map_counter_def get_container_def
      live_of_kind_def map_get_def live_slot_def install_fresh_def new_cell_def Let_def slot_wins_def
      map_set_def map_delete_def reinstalls_def no_cells_def stamp_less_iff less_clientid_def
      evict_def cell_of_def cell_at_def fun_eq_iff)


end
