(* ===== verification/Admission.thy ===== *)
theory Admission
  imports Ops
begin

text \<open>
  What any replica may hold, from \<^verbatim>\<open>doc.rs\<close>: the admissibility of an op, judged from the op
  alone, and the position a replica mints its next stamp at. The two are bounded by one constant, so
  what an honest replica mints every replica admits.
\<close>

definition mint_position :: "u64 \<Rightarrow> u64 \<Rightarrow> clientid \<Rightarrow> stamp option" where
  "mint_position from width c =
     (case checked_add from 1 of
        None \<Rightarrow> None
      | Some l \<Rightarrow>
          (case checked_add l (width - 1) of
             None \<Rightarrow> None
           | Some e \<Rightarrow> if LAMPORT_STATE_CEILING < e then None else Some (Stamp l c 0)))"

definition stamp_names_its_author :: "op \<Rightarrow> bool" where
  "stamp_names_its_author p \<longleftrightarrow> client (op_stamp p) = op_client (op_id p)"

definition stamp_occupies_a_mintable_position :: "op \<Rightarrow> bool" where
  "stamp_occupies_a_mintable_position p \<longleftrightarrow>
     offset (op_stamp p) = 0 \<and> reservation_end p \<le> LAMPORT_STATE_CEILING"

definition is_admissible :: "op \<Rightarrow> bool" where
  "is_admissible p \<longleftrightarrow> stamp_names_its_author p \<and> stamp_occupies_a_mintable_position p \<and>
     (case op_tx p of None \<Rightarrow> True
      | Some t \<Rightarrow> 1 \<le> member_count t \<and> member_count t \<le> MAX_TX_MEMBERS)"

text \<open>The ids an op holds: one per codepoint of a run.\<close>

definition reserved :: "op \<Rightarrow> stamp set" where
  "reserved p = {run_member (op_stamp p) k | k. k < span (kind p)}"

lemma state_ceiling: "unat LAMPORT_STATE_CEILING = 2 ^ 63 - 1"
  by (simp add: LAMPORT_STATE_CEILING_def mask_eq_exp_minus_1)

lemma mint_positionD:
  assumes "mint_position from width c = Some s" "1 \<le> width"
  shows "s = Stamp (from + 1) c 0" and "unat (from + 1) = unat from + 1"
    and "unat from + unat width \<le> 2 ^ 63 - 1"
proof -
  from assms(1) obtain l e where l: "checked_add from 1 = Some l"
    and e: "checked_add l (width - 1) = Some e" and s: "s = Stamp l c 0"
    and le: "e \<le> LAMPORT_STATE_CEILING"
    by (auto simp: mint_position_def not_less split: option.splits if_splits)
  from l have unat_l: "unat l = unat from + 1" by (simp add: checked_add_Some_iff)
  moreover have l': "l = from + 1" using l by (simp add: checked_add_def split: if_splits)
  ultimately show "s = Stamp (from + 1) c 0" "unat (from + 1) = unat from + 1" using s by simp_all
  have w: "unat (width - 1) = unat width - 1" "1 \<le> unat width"
    using assms(2) by (simp_all add: unat_sub word_le_nat_alt)
  have "unat e = unat l + unat (width - 1)" using e by (simp add: checked_add_Some_iff)
  moreover have "unat e \<le> 2 ^ 63 - 1" using le state_ceiling by (simp add: word_le_nat_alt)
  ultimately show "unat from + unat width \<le> 2 ^ 63 - 1" using unat_l w by linarith
qed


definition minted_text :: op where
  "minted_text = op_new (OpId (ClientId 7) 1) (Stamp 42 (ClientId 7) 0) (ElementId 9) (TextInsert [104, 105] (Anchor None RightSide))"


end
