(* ===== verification/Placement.thy ===== *)
theory Placement
  imports Prelude
begin

unbundle bit_operations_syntax

text \<open>
  \<^verbatim>\<open>placement.rs\<close>: rendezvous placement of rooms on members. Each member is scored for the room
  by a continued FNV-1a hash with a SplitMix64 finalizer, and the \<open>n\<close> highest are its replicas.
  The properties hold for any scores: they are what rendezvous hashing promises of the ranking.
\<close>

type_synonym nodeid = bytes
type_synonym room = bytes

datatype cluster = Cluster (cluster_nodes: "nodeid list")

definition cluster_new :: "nodeid list \<Rightarrow> cluster" where
  "cluster_new ms = Cluster (remdups_adj (sort ms))"

definition cluster_len :: "cluster \<Rightarrow> nat" where
  "cluster_len c = length (cluster_nodes c)"

definition cluster_is_empty :: "cluster \<Rightarrow> bool" where
  "cluster_is_empty c \<longleftrightarrow> cluster_nodes c = []"

section \<open>Scores\<close>

definition FNV_OFFSET :: u64 where
  "FNV_OFFSET = 0xcbf29ce484222325"

definition FNV_PRIME :: u64 where
  "FNV_PRIME = 0x100000001b3"

definition fnv_byte :: "u8 \<Rightarrow> u64 \<Rightarrow> u64" where
  "fnv_byte b h = (h XOR ucast b) * FNV_PRIME"

definition room_seed :: "room \<Rightarrow> u64" where
  "room_seed r = fold fnv_byte r FNV_OFFSET"

definition mix64 :: "u64 \<Rightarrow> u64" where
  "mix64 z =
     (let z = (z XOR drop_bit 30 z) * 0xbf58476d1ce4e5b9;
          z = (z XOR drop_bit 27 z) * 0x94d049bb133111eb
      in z XOR drop_bit 31 z)"

definition weight :: "u64 \<Rightarrow> nodeid \<Rightarrow> u64" where
  "weight seed node = mix64 (fold fnv_byte node seed)"

section \<open>Replica sets\<close>

text \<open>The order of the comparator: the greater weight first (\<open>NOT\<close> reverses the order of words),
  then the lesser id.\<close>

definition rank_key :: "u64 \<times> nodeid \<Rightarrow> u64 \<times> nodeid" where
  "rank_key = (\<lambda>(w, node). (NOT w, node))"

definition replicas :: "cluster \<Rightarrow> room \<Rightarrow> nat \<Rightarrow> nodeid list" where
  "replicas c r n =
     (let top = min n (length (cluster_nodes c))
      in if top = 0 then []
         else let seed = room_seed r;
                  ranked = sort_key rank_key (map (\<lambda>node. (weight seed node, node)) (cluster_nodes c))
              in map snd (take top ranked))"

definition primary :: "cluster \<Rightarrow> room \<Rightarrow> nodeid option" where
  "primary c r = (case replicas c r 1 of [] \<Rightarrow> None | x # _ \<Rightarrow> Some x)"

section \<open>The ranking\<close>

definition score :: "room \<Rightarrow> nodeid \<Rightarrow> u64 \<times> nodeid" where
  "score r node = (NOT (weight (room_seed r) node), node)"

definition ranking :: "cluster \<Rightarrow> room \<Rightarrow> nodeid list" where
  "ranking c r = sort_key (score r) (cluster_nodes c)"

definition outranks :: "room \<Rightarrow> nodeid \<Rightarrow> nodeid \<Rightarrow> bool" where
  "outranks r a b \<longleftrightarrow>
     weight (room_seed r) b < weight (room_seed r) a \<or>
     weight (room_seed r) a = weight (room_seed r) b \<and> a < b"

definition canonical_cluster :: "cluster \<Rightarrow> bool" where
  "canonical_cluster c \<longleftrightarrow> sorted (cluster_nodes c) \<and> distinct (cluster_nodes c)"

definition without :: "nodeid \<Rightarrow> cluster \<Rightarrow> cluster" where
  "without x c = Cluster (filter (\<lambda>y. y \<noteq> x) (cluster_nodes c))"

lemma not_less_iff: "NOT a < NOT b \<longleftrightarrow> b < (a :: u64)"
proof -
  have "unat (NOT x) = 2 ^ 64 - 1 - unat x" for x :: u64
  proof -
    have "NOT x = - 1 - x" by (simp add: not_eq_complement)
    then show ?thesis by (simp add: unat_diff_le unat_minus_one_word_eq)
  qed
  then show ?thesis
    using unat_lt_pow [of a] unat_lt_pow [of b] by (auto simp: word_less_nat_alt)
qed

lemma outranks_score: "outranks r = (\<lambda>a b. score r a < score r b)"
  by (auto simp: outranks_def score_def not_less_iff fun_eq_iff less_prod_def' le_less)

lemma inj_score: "inj_on (score r) A"
  by (auto simp: inj_on_def score_def)

lemma insort_key_map: "insort_key f (g x) (map g xs) = map g (insort_key (f \<circ> g) x xs)"
  by (induction xs) auto

lemma sort_key_map: "sort_key f (map g xs) = map g (sort_key (f \<circ> g) xs)"
  by (induction xs) (simp_all add: insort_key_map [unfolded comp_def] comp_def)

lemma replicas_ranking: "replicas c r n = take n (ranking c r)"
proof -
  have "map snd (sort_key rank_key (map (\<lambda>node. (weight (room_seed r) node, node)) (cluster_nodes c))) =
      ranking c r"
    by (simp add: sort_key_map ranking_def comp_def rank_key_def score_def [abs_def])
  moreover have "length (ranking c r) = length (cluster_nodes c)" by (simp add: ranking_def)
  ultimately show ?thesis
    by (auto simp: replicas_def Let_def min_def simp flip: take_map)
qed

lemma sort_key_filter: "sort_key f (filter P xs) = filter P (sort_key f xs)"
proof (induction xs)
  case (Cons x xs)
  then show ?case
    by (cases "P x") (simp_all add: filter_insort filter_insort_triv)
qed simp

lemma ranking_without: "ranking (without x c) r = filter (\<lambda>y. y \<noteq> x) (ranking c r)"
  by (simp add: ranking_def without_def sort_key_filter)

lemma ranking_distinct: "canonical_cluster c \<Longrightarrow> distinct (ranking c r)"
  by (simp add: ranking_def canonical_cluster_def)

lemma set_ranking [simp]: "set (ranking c r) = set (cluster_nodes c)"
  by (simp add: ranking_def)

lemma ranking_sorted: "canonical_cluster c \<Longrightarrow> sorted_wrt (outranks r) (ranking c r)"
proof -
  assume "canonical_cluster c"
  then have "distinct (map (score r) (ranking c r))"
    using ranking_distinct inj_score by (simp add: distinct_map)
  moreover have "sorted (map (score r) (ranking c r))"
    by (simp add: ranking_def)
  ultimately have "sorted_wrt (<) (map (score r) (ranking c r))"
    by (simp add: strict_sorted_iff)
  then show ?thesis by (simp add: sorted_wrt_map outranks_score)
qed

lemma strict_remdups_adj: "sorted xs \<Longrightarrow> sorted_wrt (<) (remdups_adj (xs :: 'a::linorder list))"
  by (induction xs rule: remdups_adj.induct) (auto simp: le_less)

lemma cluster_new_canonical: "canonical_cluster (cluster_new ms)"
  using strict_remdups_adj [of "sort ms"]
  by (simp add: canonical_cluster_def cluster_new_def strict_sorted_iff)

lemma set_cluster_new [simp]: "set (cluster_nodes (cluster_new ms)) = set ms"
  by (simp add: cluster_new_def)

lemma cluster_new_cong: "set ms = set ns \<Longrightarrow> cluster_new ms = cluster_new ns"
  using cluster_new_canonical [of ms] cluster_new_canonical [of ns]
  by (intro cluster.expand) (auto simp: canonical_cluster_def intro: sorted_distinct_set_unique)

lemma take_filter_neq:
  "distinct xs \<Longrightarrow> take n (filter (\<lambda>y. y \<noteq> x) xs) = take n (filter (\<lambda>y. y \<noteq> x) (take (Suc n) xs))"
proof (induction xs arbitrary: n)
  case (Cons y ys)
  show ?case
  proof (cases "y = x")
    case True
    with Cons.prems have "filter (\<lambda>y. y \<noteq> x) ys = ys" "filter (\<lambda>y. y \<noteq> x) (take n ys) = take n ys"
      by (auto simp: filter_id_conv dest: in_set_takeD)
    with True show ?thesis by simp
  next
    case False
    with Cons show ?thesis by (cases n) auto
  qed
qed simp

section \<open>Properties\<close>

text \<open>C15. The replica set of a room holds the given number of members, or all if there are fewer,
  without repetition, and every chosen member outranks every other: it has the greater weight, or
  the same and the lesser id. The order in which members were configured does not matter.\<close>
theorem replicas_highest:
  assumes "set ms = set ns"
  shows "let rs = replicas (cluster_new ms) r n in
    rs = replicas (cluster_new ns) r n \<and> distinct rs \<and> length rs = min n (card (set ms)) \<and>
    sorted_wrt (outranks r) rs \<and>
    (\<forall>a \<in> set rs. a \<in> set ms \<and> (\<forall>b \<in> set ms - set rs. outranks r a b))"
proof -
  let ?c = "cluster_new ms" and ?rank = "ranking (cluster_new ms) r"
  have canon: "canonical_cluster ?c" by (rule cluster_new_canonical)
  have split: "?rank = take n ?rank @ drop n ?rank" by simp
  have sorted: "sorted_wrt (outranks r) (take n ?rank @ drop n ?rank)"
    using ranking_sorted [OF canon, of r] by simp
  have "length ?rank = card (set ms)"
    using distinct_card [OF ranking_distinct [OF canon, of r]] by simp
  moreover have "outranks r a b"
    if "a \<in> set (take n ?rank)" "b \<in> set ms" "b \<notin> set (take n ?rank)" for a b
  proof -
    have "b \<in> set ?rank" using that(2) by simp
    with that(3) have "b \<in> set (drop n ?rank)" by (metis Un_iff set_append split)
    with that(1) sorted show ?thesis by (simp only: sorted_wrt_append)
  qed
  ultimately show ?thesis
    using cluster_new_cong [OF assms] assms ranking_distinct [OF canon, of r] sorted
    by (auto simp: Let_def replicas_ranking sorted_wrt_append dest: in_set_takeD)
qed

text \<open>C16. Placement moves only a departed member's share: without a member, a room keeps its
  replicas and their order, the departed one is dropped, and the next in rank moves up. A room
  the member did not replicate is not touched.\<close>
theorem departure_moves_own_share:
  assumes "canonical_cluster c"
  shows "replicas (without x c) r n = take n (filter (\<lambda>y. y \<noteq> x) (replicas c r (Suc n))) \<and>
    (x \<notin> set (replicas c r n) \<longrightarrow> replicas (without x c) r n = replicas c r n)"
proof -
  let ?rank = "ranking c r"
  have d: "distinct ?rank" by (rule ranking_distinct [OF assms])
  have one: "replicas (without x c) r n = take n (filter (\<lambda>y. y \<noteq> x) (replicas c r (Suc n)))"
    using take_filter_neq [OF d] by (simp add: replicas_ranking ranking_without)
  moreover have "take n (filter (\<lambda>y. y \<noteq> x) ?rank) = take n ?rank" if "x \<notin> set (take n ?rank)"
  proof -
    have "filter (\<lambda>y. y \<noteq> x) (take n ?rank @ drop n ?rank) =
        take n ?rank @ filter (\<lambda>y. y \<noteq> x) (drop n ?rank)"
      using that by (simp only: filter_append) (metis (mono_tags, lifting) filter_True)
    then show ?thesis
      by (cases "n \<le> length ?rank") (simp_all add: min_def)
  qed
  ultimately show ?thesis by (simp add: replicas_ranking ranking_without)
qed

definition three_members :: "nodeid list" where
  "three_members = [[97], [98], [99]]"

lemma replicas_highest_witness:
  "length (replicas (cluster_new three_members) [114] 2) = 2 \<and>
    replicas (cluster_new three_members) [114] 2 = replicas (cluster_new (rev three_members)) [114] 2"
proof -
  have same: "set three_members = set (rev three_members)" by simp
  have three: "card (set three_members) = 3" by (simp add: three_members_def)
  note highest = replicas_highest [OF same, of "[114]" 2, unfolded Let_def]
  from highest have "length (replicas (cluster_new three_members) [114] 2) = min 2 (card (set three_members))"
    by blast
  then have "length (replicas (cluster_new three_members) [114] 2) = 2" unfolding three by linarith
  with highest show ?thesis by blast
qed

lemma departure_moves_own_share_witness:
  "replicas (without [98] (cluster_new three_members)) [114] 1 =
    take 1 (filter (\<lambda>y. y \<noteq> [98]) (replicas (cluster_new three_members) [114] 2))"
  using departure_moves_own_share [OF cluster_new_canonical, of "[98]" three_members "[114]" 1]
  by (simp add: numeral_2_eq_2)

end
