(* ===== verification/Rooms.thy ===== *)
theory Rooms
  imports Admission Placement "HOL-Library.Option_ord"
begin

text \<open>
  The main streams of a hub, from the server's \<^verbatim>\<open>lib.rs\<close>: a room is a replica of the document with
  the log of the ops it accepted and the ids it has seen. Ops are admitted, deduplicated, written to
  the store, applied and logged; a long log is folded into the replica; a subscriber is caught up
  from its position by the ops it misses, or by the whole state when they are gone.

  The document is an argument of every operation that touches it: how a fresh one is made, how an op
  is applied, its snapshot codec and the ids it has seen. What the store answers is an argument too;
  a hub without a store is one whose store always succeeds.
\<close>

text \<open>The interface of \<^verbatim>\<open>Document\<close> that the hub calls.\<close>

record 'd document =
  new_doc :: "clientid \<Rightarrow> 'd"
  apply_op :: "op \<Rightarrow> 'd \<Rightarrow> 'd"
  encode_doc :: "'d \<Rightarrow> bytes"
  decode_doc :: "bytes \<Rightarrow> 'd option"
  seen_ids :: "'d \<Rightarrow> op_id fset"

record store_answers =
  append_ok :: bool
  compact_ok :: bool

datatype io_error = StoreFailed | InvalidData

record stored_op =
  so_op :: op
  so_version :: "u32 option"

definition stored_op_new :: "op \<Rightarrow> u32 option \<Rightarrow> stored_op" where
  "stored_op_new p v = \<lparr>so_op = p, so_version = v\<rparr>"

record 'd room_state =
  rs_doc :: 'd
  rs_log :: "stored_op list"
  rs_seen :: "op_id fset"
  base_seq :: u64
  max_version :: "u32 option"
  rs_creator :: "bytes option"
  client_actors :: "(clientid, bytes) fmap"

record 'd hub =
  server :: clientid
  hub_rooms :: "(room, 'd room_state) fmap"
  compaction_threshold :: u64
  governing :: "(room, bytes \<times> u32) fmap"
  loaded_epochs :: "(room, u64) fmap"

definition room_new :: "'d document \<Rightarrow> clientid \<Rightarrow> 'd room_state" where
  "room_new D s = \<lparr>rs_doc = new_doc D s, rs_log = [], rs_seen = {||}, base_seq = 0, max_version = None,
     rs_creator = None, client_actors = fmempty\<rparr>"

definition head :: "'d room_state \<Rightarrow> u64" where
  "head r = base_seq r + word_of_nat (length (rs_log r))"

definition hub_new :: "clientid \<Rightarrow> 'd hub" where
  "hub_new s = \<lparr>server = s, hub_rooms = fmempty, compaction_threshold = 0, governing = fmempty,
     loaded_epochs = fmempty\<rparr>"

definition set_compaction_threshold :: "u64 \<Rightarrow> 'd hub \<Rightarrow> 'd hub" where
  "set_compaction_threshold n h = h\<lparr>compaction_threshold := n\<rparr>"

section \<open>Queries\<close>

definition hub_seq :: "'d hub \<Rightarrow> room \<Rightarrow> u64" where
  "hub_seq h r = (case fmlookup (hub_rooms h) r of None \<Rightarrow> 0 | Some s \<Rightarrow> head s)"

definition holds_room :: "'d hub \<Rightarrow> room \<Rightarrow> bool" where
  "holds_room h r \<longleftrightarrow> r |\<in>| fmdom (hub_rooms h)"

definition hub_base_seq :: "'d hub \<Rightarrow> room \<Rightarrow> u64" where
  "hub_base_seq h r = (case fmlookup (hub_rooms h) r of None \<Rightarrow> 0 | Some s \<Rightarrow> base_seq s)"

definition logged_versions :: "'d hub \<Rightarrow> room \<Rightarrow> u32 option list" where
  "logged_versions h r =
     (case fmlookup (hub_rooms h) r of None \<Rightarrow> [] | Some s \<Rightarrow> map so_version (rs_log s))"

definition room_creator :: "'d hub \<Rightarrow> room \<Rightarrow> bytes option" where
  "room_creator h r = (case fmlookup (hub_rooms h) r of None \<Rightarrow> None | Some s \<Rightarrow> rs_creator s)"

definition client_actor :: "'d hub \<Rightarrow> room \<Rightarrow> clientid \<Rightarrow> bytes option" where
  "client_actor h r c =
     (case fmlookup (hub_rooms h) r of None \<Rightarrow> None | Some s \<Rightarrow> fmlookup (client_actors s) c)"

definition max_op_version :: "'d hub \<Rightarrow> room \<Rightarrow> u32 option" where
  "max_op_version h r = (case fmlookup (hub_rooms h) r of None \<Rightarrow> None | Some s \<Rightarrow> max_version s)"

definition governing_app :: "'d hub \<Rightarrow> room \<Rightarrow> (bytes \<times> u32) option" where
  "governing_app h r = fmlookup (governing h) r"

definition room_ids :: "'d hub \<Rightarrow> room list" where
  "room_ids h = sorted_list_of_fset (fmdom (hub_rooms h))"

section \<open>Folding the log\<close>

definition fold_log :: "'d room_state \<Rightarrow> 'd room_state" where
  "fold_log r = r\<lparr>base_seq := base_seq r + word_of_nat (length (rs_log r)), rs_log := []\<rparr>"

text \<open>The replica is folded before the store is asked: a failure is reported with the room folded.\<close>

definition compact :: "store_answers \<Rightarrow> room \<Rightarrow> 'd hub \<Rightarrow> (io_error + unit) \<times> 'd hub" where
  "compact io r h =
     (case fmlookup (hub_rooms h) r of
        None \<Rightarrow> (Inr (), h)
      | Some s \<Rightarrow>
          (if compact_ok io then Inr () else Inl StoreFailed,
           h\<lparr>hub_rooms := fmupd r (fold_log s) (hub_rooms h)\<rparr>))"

section \<open>Ingest\<close>

text \<open>The records that would grow the log: admissible, not yet seen, the first of each id.\<close>

fun fresh_records :: "op_id fset \<Rightarrow> stored_op list \<Rightarrow> stored_op list" where
  "fresh_records S [] = []"
| "fresh_records S (x # xs) =
     (let i = op.op_id (so_op x)
      in if is_admissible (so_op x) \<and> i |\<notin>| S then x # fresh_records (finsert i S) xs
         else fresh_records S xs)"

definition commit_record :: "'d document \<Rightarrow> stored_op \<Rightarrow> 'd room_state \<Rightarrow> 'd room_state" where
  "commit_record D x r =
     r\<lparr>rs_seen := finsert (op.op_id (so_op x)) (rs_seen r), rs_doc := apply_op D (so_op x) (rs_doc r),
       max_version := max (max_version r) (so_version x), rs_log := rs_log r @ [x]\<rparr>"

definition room_or_new :: "'d document \<Rightarrow> room \<Rightarrow> 'd hub \<Rightarrow> 'd room_state" where
  "room_or_new D r h =
     (case fmlookup (hub_rooms h) r of None \<Rightarrow> room_new D (server h) | Some s \<Rightarrow> s)"

definition ingest_records ::
    "'d document \<Rightarrow> store_answers \<Rightarrow> room \<Rightarrow> stored_op list \<Rightarrow> 'd hub \<Rightarrow> (io_error + op list) \<times> 'd hub" where
  "ingest_records D io r xs h =
     (let s = room_or_new D r h;
          fresh = fresh_records (rs_seen s) xs;
          h1 = h\<lparr>hub_rooms := fmupd r s (hub_rooms h)\<rparr>
      in if \<not> append_ok io then (Inl StoreFailed, h1)
         else
           (let s' = fold (commit_record D) fresh s;
                h2 = h1\<lparr>hub_rooms := fmupd r s' (hub_rooms h1)\<rparr>
            in if 0 < compaction_threshold h \<and> compaction_threshold h \<le> word_of_nat (length (rs_log s')) then
                 (case compact io r h2 of
                    (Inl e, h3) \<Rightarrow> (Inl e, h3)
                  | (Inr _, h3) \<Rightarrow> (Inr (map so_op fresh), h3))
               else (Inr (map so_op fresh), h2)))"

definition ingest ::
    "'d document \<Rightarrow> store_answers \<Rightarrow> room \<Rightarrow> op list \<Rightarrow> u32 option \<Rightarrow> 'd hub \<Rightarrow>
       (io_error + op list) \<times> 'd hub" where
  "ingest D io r ops v h = ingest_records D io r (map (\<lambda>p. stored_op_new p v) ops) h"

section \<open>Catch-up\<close>

datatype catchup =
  CatchupOps "stored_op list" | CatchupSnapshot u64 bytes | CatchupUnavailable

definition catch_up :: "'d document \<Rightarrow> room \<Rightarrow> u64 \<Rightarrow> 'd hub \<Rightarrow> catchup" where
  "catch_up D r last_seen h =
     (case fmlookup (hub_rooms h) r of
        None \<Rightarrow> CatchupOps []
      | Some s \<Rightarrow>
          if last_seen < base_seq s then CatchupSnapshot (head s) (encode_doc D (rs_doc s))
          else CatchupOps (drop (unat (last_seen - base_seq s)) (rs_log s)))"

section \<open>Room metadata\<close>

definition ANON_PREFIX :: bytes where
  "ANON_PREFIX = [97, 110, 111, 110, 58]"

definition is_authenticated :: "bytes \<Rightarrow> bool" where
  "is_authenticated actor \<longleftrightarrow> take (length ANON_PREFIX) actor \<noteq> ANON_PREFIX"

definition ensure_creator :: "room \<Rightarrow> bytes \<Rightarrow> 'd hub \<Rightarrow> bool \<times> 'd hub" where
  "ensure_creator r actor h =
     (if \<not> is_authenticated actor then (False, h)
      else case fmlookup (hub_rooms h) r of
             None \<Rightarrow> (False, h)
           | Some s \<Rightarrow>
               if rs_creator s = None then
                 (True, h\<lparr>hub_rooms := fmupd r (s\<lparr>rs_creator := Some actor\<rparr>) (hub_rooms h)\<rparr>)
               else (False, h))"

definition claim_entry :: "clientid \<Rightarrow> bytes \<Rightarrow> 'd room_state \<Rightarrow> 'd room_state" where
  "claim_entry c actor s =
     (if c |\<in>| fmdom (client_actors s) then s else s\<lparr>client_actors := fmupd c actor (client_actors s)\<rparr>)"

definition claim_client :: "room \<Rightarrow> clientid \<Rightarrow> bytes \<Rightarrow> 'd hub \<Rightarrow> 'd hub" where
  "claim_client r c actor h =
     (if \<not> is_authenticated actor then h
      else case fmlookup (hub_rooms h) r of
             None \<Rightarrow> h
           | Some s \<Rightarrow> h\<lparr>hub_rooms := fmupd r (claim_entry c actor s) (hub_rooms h)\<rparr>)"

definition raise_max_op_version :: "room \<Rightarrow> u32 option \<Rightarrow> 'd hub \<Rightarrow> 'd hub" where
  "raise_max_op_version r v h =
     (case fmlookup (hub_rooms h) r of
        None \<Rightarrow> h
      | Some s \<Rightarrow>
          if max_version s < v then
            h\<lparr>hub_rooms := fmupd r (s\<lparr>max_version := v\<rparr>) (hub_rooms h)\<rparr>
          else h)"

definition bind_governing :: "room \<Rightarrow> bytes \<Rightarrow> u32 \<Rightarrow> 'd hub \<Rightarrow> 'd hub" where
  "bind_governing r app v h = h\<lparr>governing := fmupd r (app, v) (governing h)\<rparr>"

definition forget_unheld_governing :: "'d hub \<Rightarrow> 'd hub" where
  "forget_unheld_governing h =
     h\<lparr>governing := fmfilter (\<lambda>r. r |\<in>| fmdom (hub_rooms h)) (governing h)\<rparr>"

section \<open>State transfer\<close>

definition export_room :: "'d document \<Rightarrow> room \<Rightarrow> 'd hub \<Rightarrow> bytes option" where
  "export_room D r h = map_option (\<lambda>s. encode_doc D (rs_doc s)) (fmlookup (hub_rooms h) r)"

text \<open>The creator composes set-once; the version high-water and the claims survive the replacement.\<close>

definition install_room_state ::
    "'d document \<Rightarrow> store_answers \<Rightarrow> room \<Rightarrow> bytes \<Rightarrow> u64 option \<Rightarrow> bytes option \<Rightarrow> 'd hub \<Rightarrow>
       (io_error + unit) \<times> 'd hub" where
  "install_room_state D io r state pin creator h =
     (case decode_doc D state of
        None \<Rightarrow> (Inl InvalidData, h)
      | Some d \<Rightarrow>
          if \<not> compact_ok io then (Inl StoreFailed, h)
          else
            (let S = seen_ids D d;
                 standing = fmlookup (hub_rooms h) r;
                 root = (case standing of None \<Rightarrow> None | Some s \<Rightarrow> rs_creator s);
                 named = (case creator of None \<Rightarrow> None
                          | Some a \<Rightarrow> if is_authenticated a then Some a else None)
             in (Inr (), h\<lparr>hub_rooms := fmupd r
                  \<lparr>rs_doc = d, rs_log = [], rs_seen = S,
                   base_seq = (case pin of Some q \<Rightarrow> q | None \<Rightarrow> word_of_nat (fcard S)),
                   max_version = (case standing of None \<Rightarrow> None | Some s \<Rightarrow> max_version s),
                   rs_creator = (case root of Some a \<Rightarrow> Some a | None \<Rightarrow> named),
                   client_actors = (case standing of None \<Rightarrow> fmempty | Some s \<Rightarrow> client_actors s)\<rparr>
                  (hub_rooms h)\<rparr>)))"

definition import_room ::
    "'d document \<Rightarrow> store_answers \<Rightarrow> room \<Rightarrow> bytes \<Rightarrow> 'd hub \<Rightarrow> (io_error + bool) \<times> 'd hub" where
  "import_room D io r state h =
     (if r |\<in>| fmdom (hub_rooms h) then (Inr False, h)
      else case install_room_state D io r state None None h of
             (Inl e, h') \<Rightarrow> (Inl e, h')
           | (Inr _, h') \<Rightarrow> (Inr True, h'))"

definition install_snapshot ::
    "'d document \<Rightarrow> store_answers \<Rightarrow> room \<Rightarrow> bytes \<Rightarrow> u64 \<Rightarrow> bytes option \<Rightarrow> 'd hub \<Rightarrow>
       (io_error + unit) \<times> 'd hub" where
  "install_snapshot D io r state q creator h = install_room_state D io r state (Some q) creator h"

definition clone_room ::
    "'d document \<Rightarrow> store_answers \<Rightarrow> room \<Rightarrow> room \<Rightarrow> 'd hub \<Rightarrow> (io_error + bool) \<times> 'd hub" where
  "clone_room D io src dst h =
     (if dst |\<in>| fmdom (hub_rooms h) then (Inr False, h)
      else case fmlookup (hub_rooms h) src of
        None \<Rightarrow> (Inr False, h)
      | Some s \<Rightarrow>
          (let binding = fmlookup (governing h) src;
               version = (case binding of None \<Rightarrow> None | Some _ \<Rightarrow> max_version s)
           in case install_room_state D io dst (encode_doc D (rs_doc s)) None (rs_creator s) h of
                (Inl e, h') \<Rightarrow> (Inl e, h')
              | (Inr _, h1) \<Rightarrow>
                  (let h2 = (case binding of
                               Some (app, v) \<Rightarrow> bind_governing dst app v h1
                             | None \<Rightarrow> h1\<lparr>governing := fmdrop dst (governing h1)\<rparr>);
                       h3 = raise_max_op_version dst version h2
                   in (Inr True,
                       case fmlookup (hub_rooms h3) dst of
                         None \<Rightarrow> h3
                       | Some d \<Rightarrow>
                           h3\<lparr>hub_rooms := fmupd dst
                               (fold (\<lambda>(c, a). claim_entry c a) (sorted_list_of_fmap (client_actors s)) d)
                               (hub_rooms h3)\<rparr>))))"

section \<open>Loading a store\<close>

text \<open>What the store holds for a room's main stream. The log may overlap the snapshot.\<close>

record room_meta =
  rm_governing :: "(bytes \<times> u32) option"
  rm_max_version :: "u32 option"
  rm_creator :: "bytes option"
  rm_actors :: "(clientid \<times> bytes) list"

record room_log =
  rl_snapshot :: "(u64 \<times> bytes) option"
  rl_ops :: "stored_op list"
  rl_meta :: "room_meta option"
  rl_epoch :: "u64 option"

definition load_snapshot :: "'d document \<Rightarrow> room \<Rightarrow> (u64 \<times> bytes) option \<Rightarrow> 'd hub \<Rightarrow> (io_error + 'd hub)" where
  "load_snapshot D r snapshot h =
     (case snapshot of
        None \<Rightarrow> Inr h
      | Some (b, state) \<Rightarrow>
          (case decode_doc D state of
             None \<Rightarrow> Inl InvalidData
           | Some d \<Rightarrow>
               (let standing = fmlookup (hub_rooms h) r
                in Inr (h\<lparr>hub_rooms := fmupd r
                     \<lparr>rs_doc = d, rs_log = [], rs_seen = seen_ids D d, base_seq = b,
                      max_version = (case standing of None \<Rightarrow> None | Some s \<Rightarrow> max_version s),
                      rs_creator = (case standing of None \<Rightarrow> None | Some s \<Rightarrow> rs_creator s),
                      client_actors = (case standing of None \<Rightarrow> fmempty | Some s \<Rightarrow> client_actors s)\<rparr>
                     (hub_rooms h)\<rparr>))))"

definition load_meta :: "room_meta \<Rightarrow> 'd room_state \<Rightarrow> 'd room_state" where
  "load_meta m s =
     (let s = s\<lparr>max_version := (case rm_max_version m of
                  None \<Rightarrow> max_version s | Some v \<Rightarrow> max (max_version s) (Some v))\<rparr>;
          s = (case rm_creator m of
                 None \<Rightarrow> s
               | Some a \<Rightarrow> if is_authenticated a \<and> rs_creator s = None then s\<lparr>rs_creator := Some a\<rparr> else s)
      in fold (\<lambda>(c, a). claim_entry c a) (filter (\<lambda>(c, a). is_authenticated a) (rm_actors m)) s)"

definition install_room :: "'d document \<Rightarrow> room \<Rightarrow> room_log \<Rightarrow> 'd hub \<Rightarrow> (io_error + 'd hub)" where
  "install_room D r l h =
     (case load_snapshot D r (rl_snapshot l) h of
        Inl e \<Rightarrow> Inl e
      | Inr h1 \<Rightarrow>
          (let h2 = snd (ingest_records D \<lparr>append_ok = True, compact_ok = True\<rparr> r (rl_ops l) h1);
               h3 = (case rl_meta l of
                       None \<Rightarrow> h2
                     | Some m \<Rightarrow>
                         h2\<lparr>governing := (case rm_governing m of
                                None \<Rightarrow> governing h2 | Some g \<Rightarrow> fmupd r g (governing h2)),
                            hub_rooms := (case fmlookup (hub_rooms h2) r of
                                None \<Rightarrow> hub_rooms h2
                              | Some s \<Rightarrow> fmupd r (load_meta m s) (hub_rooms h2))\<rparr>)
           in Inr (h3\<lparr>loaded_epochs := (case rl_epoch l of
                 None \<Rightarrow> loaded_epochs h3
               | Some e \<Rightarrow> if 0 < e then fmupd r e (loaded_epochs h3) else loaded_epochs h3)\<rparr>)))"

fun install_rooms :: "'d document \<Rightarrow> (room \<times> room_log) list \<Rightarrow> 'd hub \<Rightarrow> (io_error + 'd hub)" where
  "install_rooms D [] h = Inr h"
| "install_rooms D ((r, l) # rs) h =
     (case install_room D r l h of Inl e \<Rightarrow> Inl e | Inr h' \<Rightarrow> install_rooms D rs h')"

definition from_rooms :: "'d document \<Rightarrow> clientid \<Rightarrow> (room \<times> room_log) list \<Rightarrow> (io_error + 'd hub)" where
  "from_rooms D s rs = install_rooms D rs (hub_new s)"

end
