(* ===== verification/Dial.thy ===== *)
theory Dial
  imports Values Placement
begin

text \<open>
  The addresses of \<^verbatim>\<open>dial.rs\<close>: an advertise address is resolved into an endpoint, reduced to its
  one canonical spelling, and to the trust unit - the host - that vouches for members. Strings
  are lists of code points; the address syntax of the standard library's \<open>IpAddr\<close> is written
  out, since a node id is an address and two spellings of one endpoint must be one id.
\<close>

section \<open>Strings\<close>

definition str :: "string \<Rightarrow> rust_string" where
  "str s = map of_char s"

definition is_whitespace :: "nat \<Rightarrow> bool" where
  "is_whitespace c \<longleftrightarrow> (9 \<le> c \<and> c \<le> 13) \<or> c = 32 \<or> c = 133 \<or> c = 160 \<or> c = 5760 \<or>
     (8192 \<le> c \<and> c \<le> 8202) \<or> c = 8232 \<or> c = 8233 \<or> c = 8239 \<or> c = 8287 \<or> c = 12288"

definition trim_end :: "(nat \<Rightarrow> bool) \<Rightarrow> rust_string \<Rightarrow> rust_string" where
  "trim_end P s = rev (dropWhile P (rev s))"

definition trim :: "rust_string \<Rightarrow> rust_string" where
  "trim s = trim_end is_whitespace (dropWhile is_whitespace s)"

definition lower :: "nat \<Rightarrow> nat" where
  "lower c = (if 65 \<le> c \<and> c \<le> 90 then c + 32 else c)"

definition to_ascii_lowercase :: "rust_string \<Rightarrow> rust_string" where
  "to_ascii_lowercase s = map lower s"

fun strip_prefix :: "rust_string \<Rightarrow> rust_string \<Rightarrow> rust_string option" where
  "strip_prefix [] s = Some s"
| "strip_prefix (p # ps) [] = None"
| "strip_prefix (p # ps) (c # cs) = (if p = c then strip_prefix ps cs else None)"

fun split_once :: "rust_string \<Rightarrow> rust_string \<Rightarrow> (rust_string \<times> rust_string) option" where
  "split_once pat [] = (if pat = [] then Some ([], []) else None)"
| "split_once pat (c # cs) =
     (case strip_prefix pat (c # cs) of
        Some rest \<Rightarrow> Some ([], rest)
      | None \<Rightarrow> map_option (\<lambda>(a, b). (c # a, b)) (split_once pat cs))"

fun split_char :: "nat \<Rightarrow> rust_string \<Rightarrow> rust_string list" where
  "split_char d [] = [[]]"
| "split_char d (c # cs) =
     (if c = d then [] # split_char d cs
      else case split_char d cs of [] \<Rightarrow> [[c]] | w # ws \<Rightarrow> (c # w) # ws)"

section \<open>Numbers\<close>

definition digit_value :: "nat \<Rightarrow> nat \<Rightarrow> nat option" where
  "digit_value radix c =
     (let v = if 48 \<le> c \<and> c \<le> 57 then c - 48
              else if 97 \<le> c \<and> c \<le> 122 then c - 87
              else if 65 \<le> c \<and> c \<le> 90 then c - 55
              else radix
      in if v < radix then Some v else None)"

definition number_value :: "nat \<Rightarrow> rust_string \<Rightarrow> nat" where
  "number_value radix ds =
     fold (\<lambda>c n. n * radix + (case digit_value radix c of None \<Rightarrow> 0 | Some v \<Rightarrow> v)) ds 0"

text \<open>\<open>u16::from_str\<close> and the decimal \<open>Display\<close>.\<close>

definition parse_u16 :: "rust_string \<Rightarrow> nat option" where
  "parse_u16 s =
     (let ds = (case strip_prefix (str ''+'') s of Some r \<Rightarrow> r | None \<Rightarrow> s)
      in if ds = [] \<or> list_ex (\<lambda>c. digit_value 10 c = None) ds then None
         else if number_value 10 ds < 65536 then Some (number_value 10 ds) else None)"

fun show_radix :: "nat \<Rightarrow> nat \<Rightarrow> rust_string" where
  "show_radix radix n =
     (let d = n mod radix; c = if d < 10 then d + 48 else d + 87
      in if radix < 2 \<or> n < radix then [c] else show_radix radix (n div radix) @ [c])"

declare show_radix.simps [simp del]

section \<open>Addresses of the Internet protocol\<close>

datatype ipaddr = IpV4 "nat list" | IpV6 "nat list"

text \<open>\<open>read_number\<close>: as many digits as there are, refused when they are more than allowed.\<close>

definition read_number ::
    "nat \<Rightarrow> nat \<Rightarrow> bool \<Rightarrow> nat \<Rightarrow> rust_string \<Rightarrow> (nat \<times> rust_string) option" where
  "read_number radix max_digits zero_prefix bound s =
     (let ds = takeWhile (\<lambda>c. digit_value radix c \<noteq> None) s;
          rest = drop (length ds) s
      in if ds = [] \<or> max_digits < length ds \<or>
            (\<not> zero_prefix \<and> hd ds = 48 \<and> 1 < length ds) \<or> bound < number_value radix ds
         then None else Some (number_value radix ds, rest))"

definition read_separated ::
    "nat \<Rightarrow> nat \<Rightarrow> (rust_string \<Rightarrow> ('a \<times> rust_string) option) \<Rightarrow> rust_string \<Rightarrow>
       ('a \<times> rust_string) option" where
  "read_separated sep i inner s =
     (if i = 0 then inner s
      else case s of [] \<Rightarrow> None | c # cs \<Rightarrow> if c = sep then inner cs else None)"

fun read_octets :: "nat \<Rightarrow> nat \<Rightarrow> rust_string \<Rightarrow> (nat list \<times> rust_string) option" where
  "read_octets 0 i s = Some ([], s)"
| "read_octets (Suc n) i s =
     (case read_separated 46 i (read_number 10 3 False 255) s of
        None \<Rightarrow> None
      | Some (v, r) \<Rightarrow> map_option (\<lambda>(vs, r). (v # vs, r)) (read_octets n (Suc i) r))"

definition read_ipv4 :: "rust_string \<Rightarrow> (nat list \<times> rust_string) option" where
  "read_ipv4 s = read_octets 4 0 s"

text \<open>Up to \<open>limit\<close> groups of the sixth version, from the \<open>i\<close>-th; the flag says that the last two
  were written as an address of the fourth.\<close>

function read_groups :: "nat \<Rightarrow> nat \<Rightarrow> rust_string \<Rightarrow> nat list \<times> bool \<times> rust_string" where
  "read_groups limit i s =
     (if limit \<le> i then ([], False, s)
      else case (if i < limit - 1 then read_separated 58 i read_ipv4 s else None) of
        Some (os, r) \<Rightarrow> ([os ! 0 * 256 + os ! 1, os ! 2 * 256 + os ! 3], True, r)
      | None \<Rightarrow>
          (case read_separated 58 i (read_number 16 4 True 65535) s of
             None \<Rightarrow> ([], False, s)
           | Some (g, r) \<Rightarrow>
               (case read_groups limit (Suc i) r of (gs, v4, r') \<Rightarrow> (g # gs, v4, r'))))"
  by pat_completeness auto
termination by (relation "measure (\<lambda>(limit, i, s). limit - i)") auto

declare read_groups.simps [simp del]

definition read_ipv6 :: "rust_string \<Rightarrow> (nat list \<times> rust_string) option" where
  "read_ipv6 s =
     (case read_groups 8 0 s of
        (front, v4, r) \<Rightarrow>
          if length front = 8 then Some (front, r)
          else if v4 then None
          else (case strip_prefix (str ''::'') r of
                  None \<Rightarrow> None
                | Some r \<Rightarrow>
                    (case read_groups (8 - (length front + 1)) 0 r of
                       (back, _, r) \<Rightarrow>
                         Some (front @ replicate (8 - length front - length back) 0 @ back, r))))"

definition parse_ipv6 :: "rust_string \<Rightarrow> nat list option" where
  "parse_ipv6 s = (case read_ipv6 s of Some (gs, []) \<Rightarrow> Some gs | _ \<Rightarrow> None)"

definition parse_ip :: "rust_string \<Rightarrow> ipaddr option" where
  "parse_ip s =
     (case read_ipv4 s of
        Some (os, r) \<Rightarrow> if r = [] then Some (IpV4 os) else None
      | None \<Rightarrow> map_option IpV6 (parse_ipv6 s))"

fun join :: "rust_string \<Rightarrow> rust_string list \<Rightarrow> rust_string" where
  "join sep [] = []"
| "join sep [w] = w"
| "join sep (w # ws) = w @ sep @ join sep ws"

definition show_ipv4 :: "nat list \<Rightarrow> rust_string" where
  "show_ipv4 os = join (str ''.'') (map (show_radix 10) os)"

definition show_groups :: "nat list \<Rightarrow> rust_string" where
  "show_groups gs = join (str '':'') (map (show_radix 16) gs)"

text \<open>The first of the longest stretches of zeros: its start and length.\<close>

fun zero_stretch :: "nat list \<Rightarrow> nat \<Rightarrow> nat \<times> nat \<Rightarrow> nat \<times> nat \<Rightarrow> nat \<times> nat" where
  "zero_stretch [] i current longest = longest"
| "zero_stretch (g # gs) i current longest =
     (if g = 0 then
        (let current = (if snd current = 0 then i else fst current, snd current + 1)
         in zero_stretch gs (Suc i) current (if snd longest < snd current then current else longest))
      else zero_stretch gs (Suc i) (0, 0) longest)"

definition show_ipv6 :: "nat list \<Rightarrow> rust_string" where
  "show_ipv6 gs =
     (if take 6 gs = [0, 0, 0, 0, 0, 65535] then
        str ''::ffff:'' @
          show_ipv4 [gs ! 6 div 256, gs ! 6 mod 256, gs ! 7 div 256, gs ! 7 mod 256]
      else case zero_stretch gs 0 (0, 0) (0, 0) of
        (start, len) \<Rightarrow>
          if 1 < len then show_groups (take start gs) @ str ''::'' @ show_groups (drop (start + len) gs)
          else show_groups gs)"

section \<open>Endpoints\<close>

datatype peer_transport = Plain | Tls

datatype bad_peer_address = EmptyAddress | NoHost | NotAnAuthority | UnknownScheme rust_string

record peer_endpoint =
  url :: rust_string
  transport :: peer_transport

fun scheme :: "peer_transport \<Rightarrow> rust_string" where
  "scheme Plain = str ''ws''"
| "scheme Tls = str ''wss''"

definition host_of :: "rust_string \<Rightarrow> rust_string option" where
  "host_of authority =
     (let authority = takeWhile (\<lambda>c. c \<noteq> 47) authority;
          host = (case strip_prefix (str ''['') authority of
                    Some rest \<Rightarrow> takeWhile (\<lambda>c. c \<noteq> 93) rest
                  | None \<Rightarrow> takeWhile (\<lambda>c. c \<noteq> 58) authority)
      in if host = [] then None else Some host)"

definition authority_char :: "nat \<Rightarrow> bool" where
  "authority_char c \<longleftrightarrow>
     (48 \<le> c \<and> c \<le> 57) \<or> (65 \<le> c \<and> c \<le> 90) \<or> (97 \<le> c \<and> c \<le> 122) \<or> c \<in> set (str ''-.:[]_'')"

definition split_transport ::
    "rust_string \<Rightarrow> bad_peer_address + peer_transport \<times> rust_string" where
  "split_transport addr =
     (case split_once (str ''://'') addr of
        Some (sch, rest) \<Rightarrow>
          if to_ascii_lowercase sch = str ''ws'' then Inr (Plain, rest)
          else if to_ascii_lowercase sch = str ''wss'' then Inr (Tls, rest)
          else Inl (UnknownScheme sch)
      | None \<Rightarrow> Inr (Plain, addr))"

definition brackets_ok :: "rust_string \<Rightarrow> bool" where
  "brackets_ok authority =
     (case strip_prefix (str ''['') authority of
        None \<Rightarrow> True
      | Some after \<Rightarrow>
          (case split_once (str '']'') after of
             Some (host, rest) \<Rightarrow>
               (rest = [] \<or> hd rest = 58) \<and> (host = [] \<or> parse_ipv6 host \<noteq> None)
           | None \<Rightarrow> False))"

definition labels_ok :: "rust_string \<Rightarrow> bool" where
  "labels_ok authority =
     (case host_of authority of
        None \<Rightarrow> True
      | Some host \<Rightarrow>
          (let host = trim_end (\<lambda>c. c = 46) host
           in \<not> (strip_prefix (str ''['') host = None \<and>
                 (host = [] \<or> list_ex (\<lambda>w. w = []) (split_char 46 host)))))"

definition endpoint_parse :: "rust_string \<Rightarrow> bad_peer_address + peer_endpoint" where
  "endpoint_parse addr =
     (case split_transport (trim addr) of
        Inl e \<Rightarrow> Inl e
      | Inr (tr, authority) \<Rightarrow>
          if authority = [] then Inl EmptyAddress
          else if \<not> list_all authority_char authority then Inl NotAnAuthority
          else if \<not> brackets_ok authority then Inl NotAnAuthority
          else if \<not> labels_ok authority then Inl NotAnAuthority
          else if host_of authority = None then Inl NoHost
          else Inr \<lparr>url = scheme tr @ str ''://'' @ authority @ str ''/'', transport = tr\<rparr>)"

definition is_tls :: "peer_endpoint \<Rightarrow> bool" where
  "is_tls e \<longleftrightarrow> transport e = Tls"

definition member_host :: "bytes \<Rightarrow> rust_string option" where
  "member_host addr =
     (case from_utf8 addr of
        None \<Rightarrow> None
      | Some addr \<Rightarrow>
          (case endpoint_parse addr of
             Inl _ \<Rightarrow> None
           | Inr e \<Rightarrow>
               (let authority = (case split_once (str ''://'') (url e) of
                                   Some (_, rest) \<Rightarrow> rest | None \<Rightarrow> url e)
                in map_option to_ascii_lowercase (host_of authority))))"

definition normalized :: "rust_string \<Rightarrow> rust_string" where
  "normalized name = to_ascii_lowercase (trim_end (\<lambda>c. c = 46) (trim name))"

definition canonical_port :: "peer_transport \<Rightarrow> rust_string \<Rightarrow> nat option option" where
  "canonical_port tr after_host =
     (case (case strip_prefix (str '':'') after_host of
              None \<Rightarrow> Some None
            | Some digits \<Rightarrow> if digits = [] then Some None else map_option Some (parse_u16 digits)) of
        None \<Rightarrow> None
      | Some port \<Rightarrow>
          Some (case port of
                  Some p \<Rightarrow> if p = (case tr of Tls \<Rightarrow> 443 | Plain \<Rightarrow> 80) then None else Some p
                | None \<Rightarrow> None))"

definition canonical_host :: "rust_string \<Rightarrow> rust_string" where
  "canonical_host host =
     (let host = normalized host
      in case parse_ip host of
           Some (IpV6 gs) \<Rightarrow> str ''['' @ show_ipv6 gs @ str '']''
         | Some (IpV4 os) \<Rightarrow> show_ipv4 os
         | None \<Rightarrow> host)"

definition canonical_member_addr :: "rust_string \<Rightarrow> rust_string option" where
  "canonical_member_addr addr =
     (case endpoint_parse addr of
        Inl _ \<Rightarrow> None
      | Inr e \<Rightarrow>
          (case split_once (str ''://'') (url e) of
             None \<Rightarrow> None
           | Some (_, rest) \<Rightarrow>
               (let authority = trim_end (\<lambda>c. c = 47) rest
                in case host_of authority of
                     None \<Rightarrow> None
                   | Some host \<Rightarrow>
                       (case (case strip_prefix (str ''['') authority of
                                Some after \<Rightarrow> map_option snd (split_once (str '']'') after)
                              | None \<Rightarrow> Some (dropWhile (\<lambda>c. c \<noteq> 58) authority)) of
                          None \<Rightarrow> None
                        | Some after_host \<Rightarrow>
                            (case canonical_port (transport e) after_host of
                               None \<Rightarrow> None
                             | Some port \<Rightarrow>
                                 Some ((case transport e of Tls \<Rightarrow> str ''wss://'' | Plain \<Rightarrow> []) @
                                   canonical_host host @
                                   (case port of
                                      Some p \<Rightarrow> str '':'' @ show_radix 10 p
                                    | None \<Rightarrow> [])))))))"

definition member_trust_unit :: "bytes \<Rightarrow> rust_string option" where
  "member_trust_unit addr =
     (case member_host addr of
        None \<Rightarrow> None
      | Some host \<Rightarrow>
          (let host = normalized host
           in Some (case parse_ip host of
                      Some (IpV4 os) \<Rightarrow> show_ipv4 os
                    | Some (IpV6 gs) \<Rightarrow> show_ipv6 gs
                    | None \<Rightarrow> host)))"

definition cert_names_member :: "bytes \<Rightarrow> bytes \<Rightarrow> bool" where
  "cert_names_member name addr =
     (case from_utf8 name of
        None \<Rightarrow> False
      | Some name \<Rightarrow>
          (let trimmed = trim name;
               without_root = (if trimmed \<noteq> [] \<and> last trimmed = 46 then butlast trimmed else trimmed)
           in if list_ex (\<lambda>w. w = []) (split_char 46 without_root) then False
              else let name = normalized name
                   in if name = [] then False
                      else case member_host addr of
                             None \<Rightarrow> False
                           | Some host \<Rightarrow>
                               (let host = normalized host
                                in case (parse_ip host, parse_ip name) of
                                     (Some a, Some b) \<Rightarrow> a = b
                                   | _ \<Rightarrow> host = name)))"

definition is_ip_literal :: "rust_string \<Rightarrow> bool" where
  "is_ip_literal name \<longleftrightarrow> parse_ip (normalized name) \<noteq> None"

section \<open>Node ids\<close>

definition node_from_addr :: "rust_string \<Rightarrow> nodeid" where
  "node_from_addr addr =
     (case canonical_member_addr addr of
        Some canonical \<Rightarrow> as_utf8 canonical
      | None \<Rightarrow> as_utf8 (trim addr))"

definition node_canonical :: "bytes \<Rightarrow> nodeid option" where
  "node_canonical addr =
     (case from_utf8 addr of
        None \<Rightarrow> None
      | Some s \<Rightarrow> map_option as_utf8 (canonical_member_addr s))"

section \<open>One-letter hosts\<close>

definition letter :: "nat \<Rightarrow> bool" where
  "letter c \<longleftrightarrow> 103 \<le> c \<and> c \<le> 122"

lemma letter_digit: "letter c \<Longrightarrow> digit_value 10 c = None \<and> digit_value 16 c = None"
  by (auto simp: letter_def digit_value_def Let_def)

lemma letter_space: "letter c \<Longrightarrow> \<not> is_whitespace c"
  by (auto simp: letter_def is_whitespace_def)

lemma letter_ip: assumes "letter c" shows "parse_ip [c] = None"
proof -
  have four: "(4 :: nat) = Suc 3" by simp
  have v4: "read_ipv4 [c] = None"
    using letter_digit [OF assms] unfolding read_ipv4_def four read_octets.simps
    by (simp add: read_separated_def read_number_def)
  moreover have "read_groups 8 0 [c] = ([], False, [c])"
    using letter_digit [OF assms]
    by (simp add: read_groups.simps v4 read_separated_def read_number_def)
  moreover have "c \<noteq> 58" using assms by (simp add: letter_def)
  ultimately show ?thesis
    by (simp add: parse_ip_def parse_ipv6_def read_ipv6_def str_def)
qed

lemma letter_endpoint:
  assumes "letter c"
  shows "endpoint_parse [c] = Inr \<lparr>url = str ''ws://'' @ [c] @ str ''/'', transport = Plain\<rparr>"
proof -
  have "authority_char c" "c \<noteq> 58" "c \<noteq> 91" "c \<noteq> 46" "c \<noteq> 47"
    using assms by (auto simp: letter_def authority_char_def)
  then show ?thesis
    using letter_space [OF assms]
    by (simp add: endpoint_parse_def split_transport_def trim_def trim_end_def brackets_ok_def labels_ok_def
        host_of_def str_def Let_def)
qed

lemma letter_normalized: assumes "letter c" shows "normalized [c] = [c]"
proof -
  have "c \<noteq> 46" "lower c = c" using assms by (auto simp: letter_def lower_def)
  then show ?thesis
    using letter_space [OF assms]
    by (simp add: normalized_def trim_def trim_end_def to_ascii_lowercase_def)
qed

lemma letter_canonical: assumes "letter c" shows "canonical_member_addr [c] = Some [c]"
proof -
  have "c \<noteq> 58" "c \<noteq> 91" "c \<noteq> 47" using assms by (auto simp: letter_def)
  then show ?thesis
    using letter_ip [OF assms] letter_normalized [OF assms]
    by (simp add: canonical_member_addr_def letter_endpoint [OF assms] canonical_host_def str_def
        trim_end_def host_of_def canonical_port_def)
qed

lemma letter_node:
  assumes "letter (unat b)"
  shows "node_canonical [b] = Some [b]" and "member_trust_unit [b] = Some [unat b]"
proof -
  have utf8: "from_utf8 [b] = Some [unat b]"
    using assms by (simp add: from_utf8.simps utf8_next_def letter_def)
  have "as_utf8 [unat b] = [b]"
    using assms by (simp add: as_utf8_def utf8_char_def letter_def)
  with utf8 show "node_canonical [b] = Some [b]"
    by (simp add: node_canonical_def letter_canonical [OF assms])
  have "unat b \<noteq> 58" "unat b \<noteq> 91" "unat b \<noteq> 47" "lower (unat b) = unat b"
    using assms by (auto simp: letter_def lower_def)
  then show "member_trust_unit [b] = Some [unat b]"
    using utf8 letter_ip [OF assms] letter_normalized [OF assms]
    by (simp add: member_trust_unit_def member_host_def letter_endpoint [OF assms] str_def
        host_of_def to_ascii_lowercase_def Let_def)
qed
end
