(* ===== verification/Membership.thy ===== *)
theory Membership
  imports Dial
begin

text \<open>
  \<^verbatim>\<open>membership.rs\<close>: a node's view of its cluster. The roster is what the node knows, dials and
  gossips about; rooms are placed on the adopted members only, those that were configured or that
  enough trust units have verified. Liveness follows SWIM: a state and an incarnation per member,
  merged by gossip, refuted by the member itself, and hardened to death by failed probes; a member
  that stays dead is reaped under a tombstone.
\<close>

datatype member_state = Alive | Suspect | Dead

fun state_rank :: "member_state \<Rightarrow> nat" where
  "state_rank Alive = 0"
| "state_rank Suspect = 1"
| "state_rank Dead = 2"

definition SUSPECT_AFTER_FAILURES :: u32 where
  "SUSPECT_AFTER_FAILURES = 3"

definition DEAD_AFTER_FAILURES :: u32 where
  "DEAD_AFTER_FAILURES = 6"

definition REAP_AFTER_DEAD_TICKS :: u32 where
  "REAP_AFTER_DEAD_TICKS = 30"

definition TOMBSTONE_RETENTION_TICKS :: u32 where
  "TOMBSTONE_RETENTION_TICKS = 300"

definition DEFAULT_REPLICATION_FACTOR :: nat where
  "DEFAULT_REPLICATION_FACTOR = 3"

definition ADOPTION_VERIFIERS :: nat where
  "ADOPTION_VERIFIERS = 2"

record member_liveness =
  incarnation :: u64
  ml_state :: member_state
  failed_probes :: u32
  dead_ticks :: u32

definition liveness_new :: "u64 \<Rightarrow> member_state \<Rightarrow> member_liveness" where
  "liveness_new i s = \<lparr>incarnation = i, ml_state = s, failed_probes = 0, dead_ticks = 0\<rparr>"

datatype membership_config_error =
  EmptyPeer | MissingSelfId | NotAnAddress rust_string | NoPeerButSelf

record membership =
  self_id :: nodeid
  placed :: cluster
  replication_factor :: nat
  relay_down :: "nodeid fset"
  liveness :: "(nodeid, member_liveness) fmap"
  addrs :: "(nodeid, bytes) fmap"
  reaped :: "(nodeid, u32) fmap"
  configured :: "nodeid fset"
  solitary :: bool
  adopted :: "nodeid fset"
  stranded :: bool
  verifiers :: "(nodeid, nodeid fset) fmap"

definition membership_new :: "nodeid \<Rightarrow> nodeid list \<Rightarrow> nat \<Rightarrow> membership" where
  "membership_new self peers rf =
     (let members = self # peers
      in \<lparr>self_id = self, placed = cluster_new members, replication_factor = rf, relay_down = {||},
          liveness = fmap_of_list (map (\<lambda>n. (n, liveness_new 0 Alive)) members),
          addrs = fmap_of_list (map (\<lambda>n. (n, n)) members), reaped = fmempty,
          configured = fset_of_list members,
          solitary = \<not> list_ex (\<lambda>p. p \<noteq> self) peers,
          adopted = fset_of_list members, stranded = False, verifiers = fmempty\<rparr>)"

text \<open>Configuration. A list with one bad entry is refused for its first.\<close>

fun parse_entries :: "rust_string list \<Rightarrow> membership_config_error + nodeid list" where
  "parse_entries [] = Inr []"
| "parse_entries (e # es) =
     (let entry = trim e
      in if entry = [] then Inl EmptyPeer
         else if canonical_member_addr entry = None then Inl (NotAnAddress entry)
         else case parse_entries es of
                Inl err \<Rightarrow> Inl err
              | Inr ns \<Rightarrow> Inr (node_from_addr entry # ns))"

definition parse_peers :: "rust_string \<Rightarrow> membership_config_error + nodeid list" where
  "parse_peers s = (if trim s = [] then Inr [] else parse_entries (split_char 44 s))"

definition present :: "rust_string option \<Rightarrow> rust_string option" where
  "present s = (case s of None \<Rightarrow> None | Some s \<Rightarrow> if trim s = [] then None else Some (trim s))"

definition from_static_config ::
    "rust_string option \<Rightarrow> rust_string option \<Rightarrow> rust_string \<Rightarrow> nat \<Rightarrow>
       membership_config_error + membership" where
  "from_static_config node_id advertise_addr peers rf =
     (case (case present node_id of Some i \<Rightarrow> Some i | None \<Rightarrow> present advertise_addr) of
        None \<Rightarrow> Inl MissingSelfId
      | Some written \<Rightarrow>
          (let self = node_from_addr written
           in if canonical_member_addr written = None then Inl (NotAnAddress written)
              else case parse_peers peers of
                     Inl err \<Rightarrow> Inl err
                   | Inr ps \<Rightarrow>
                       if ps \<noteq> [] \<and> \<not> list_ex (\<lambda>p. p \<noteq> self) ps then Inl NoPeerButSelf
                       else Inr (membership_new self ps rf)))"

section \<open>Queries\<close>

definition roster :: "membership \<Rightarrow> nodeid list" where
  "roster m = sorted_list_of_fset (fmdom (addrs m))"

definition adopted_members :: "membership \<Rightarrow> nodeid list" where
  "adopted_members m = cluster_nodes (placed m)"

definition known_members :: "membership \<Rightarrow> (nodeid \<times> bytes) list" where
  "known_members m =
     map (\<lambda>n. (n, case fmlookup (addrs m) n of Some a \<Rightarrow> a | None \<Rightarrow> n)) (roster m)"

definition is_self :: "membership \<Rightarrow> nodeid \<Rightarrow> bool" where
  "is_self m n \<longleftrightarrow> self_id m = n"

definition is_member :: "membership \<Rightarrow> nodeid \<Rightarrow> bool" where
  "is_member m n \<longleftrightarrow> n |\<in>| fmdom (addrs m)"

definition advertises_tls :: "nodeid \<Rightarrow> bool" where
  "advertises_tls n =
     (case from_utf8 n of
        None \<Rightarrow> False
      | Some s \<Rightarrow> (case endpoint_parse s of Inl _ \<Rightarrow> False | Inr e \<Rightarrow> is_tls e))"

definition replicas_for :: "membership \<Rightarrow> room \<Rightarrow> nodeid list" where
  "replicas_for m r = replicas (placed m) r (replication_factor m)"

definition primary_for :: "membership \<Rightarrow> room \<Rightarrow> nodeid option" where
  "primary_for m r = primary (placed m) r"

definition owns :: "membership \<Rightarrow> room \<Rightarrow> bool" where
  "owns m r \<longleftrightarrow> self_id m \<in> set (replicas_for m r)"

definition is_primary_for :: "membership \<Rightarrow> room \<Rightarrow> bool" where
  "is_primary_for m r \<longleftrightarrow> primary_for m r = Some (self_id m)"

definition gossip_state :: "membership \<Rightarrow> nodeid \<Rightarrow> member_state" where
  "gossip_state m n =
     (if is_self m n then Alive
      else case fmlookup (liveness m) n of Some l \<Rightarrow> ml_state l | None \<Rightarrow> Alive)"

definition incarnation_of :: "membership \<Rightarrow> nodeid \<Rightarrow> u64" where
  "incarnation_of m n = (case fmlookup (liveness m) n of Some l \<Rightarrow> incarnation l | None \<Rightarrow> 0)"

definition is_live :: "membership \<Rightarrow> nodeid \<Rightarrow> bool" where
  "is_live m n \<longleftrightarrow> is_self m n \<or> n |\<notin>| relay_down m \<and> gossip_state m n \<noteq> Dead"

definition has_verified :: "membership \<Rightarrow> nodeid \<Rightarrow> nodeid \<Rightarrow> bool" where
  "has_verified m v n =
     (case fmlookup (verifiers m) n of None \<Rightarrow> False | Some vs \<Rightarrow> v |\<in>| vs)"

definition known_liveness ::
    "membership \<Rightarrow> (nodeid \<times> bytes \<times> u64 \<times> member_state \<times> bool) list" where
  "known_liveness m =
     map (\<lambda>n. (n, case fmlookup (addrs m) n of Some a \<Rightarrow> a | None \<Rightarrow> n,
               incarnation_of m n, gossip_state m n, has_verified m (self_id m) n)) (roster m)"

definition is_adopted :: "membership \<Rightarrow> nodeid \<Rightarrow> bool" where
  "is_adopted m n \<longleftrightarrow> n |\<in>| adopted m"

definition is_tombstoned :: "membership \<Rightarrow> nodeid \<Rightarrow> bool" where
  "is_tombstoned m n \<longleftrightarrow> n |\<in>| fmdom (reaped m)"

definition effective_primary_for :: "membership \<Rightarrow> room \<Rightarrow> nodeid option" where
  "effective_primary_for m r = find (is_live m) (replicas_for m r)"

definition is_effective_primary_for :: "membership \<Rightarrow> room \<Rightarrow> bool" where
  "is_effective_primary_for m r \<longleftrightarrow> effective_primary_for m r = Some (self_id m)"

definition mark_node_live :: "nodeid \<Rightarrow> membership \<Rightarrow> membership" where
  "mark_node_live n m = m\<lparr>relay_down := relay_down m |-| {|n|}\<rparr>"

definition mark_node_down :: "nodeid \<Rightarrow> membership \<Rightarrow> membership" where
  "mark_node_down n m = (if is_self m n then m else m\<lparr>relay_down := finsert n (relay_down m)\<rparr>)"

section \<open>Adoption\<close>

definition adoption_bar :: "membership \<Rightarrow> nat" where
  "adoption_bar m = (if solitary m then 1 else ADOPTION_VERIFIERS)"

definition verifier_units :: "membership \<Rightarrow> nodeid fset \<Rightarrow> nodeid \<Rightarrow> nat" where
  "verifier_units m A n =
     (case member_trust_unit n of
        None \<Rightarrow> 0
      | Some own \<Rightarrow>
          (case fmlookup (verifiers m) n of
             None \<Rightarrow> 0
           | Some vs \<Rightarrow>
               length (remdups (filter (\<lambda>u. u \<noteq> own)
                 (List.map_filter member_trust_unit
                   (filter (\<lambda>v. v |\<in>| A) (sorted_list_of_fset vs)))))))"

definition newly_adopted :: "membership \<Rightarrow> nodeid fset \<Rightarrow> nodeid list" where
  "newly_adopted m A =
     filter (\<lambda>n. n |\<notin>| A \<and> adoption_bar m \<le> verifier_units m A n) (roster m)"

function adopt_rounds :: "membership \<Rightarrow> nodeid fset \<Rightarrow> nodeid fset" where
  "adopt_rounds m A =
     (case newly_adopted m A of
        [] \<Rightarrow> A
      | n # ns \<Rightarrow> adopt_rounds m (A |\<union>| fset_of_list (n # ns)))"
  by pat_completeness auto
termination
proof (relation "measure (\<lambda>(m, A). fcard (fmdom (addrs m) |-| A))")
  fix m :: membership and A n ns
  assume new: "newly_adopted m A = n # ns"
  then have "n \<in> set (newly_adopted m A)" by simp
  then have "n |\<in>| fmdom (addrs m) |-| A"
    by (simp add: newly_adopted_def roster_def)
  moreover have "n |\<notin>| fmdom (addrs m) |-| (A |\<union>| fset_of_list (n # ns))" by simp
  ultimately have "fmdom (addrs m) |-| (A |\<union>| fset_of_list (n # ns)) |\<subset>| fmdom (addrs m) |-| A"
    by blast
  then show "((m, A |\<union>| fset_of_list (n # ns)), m, A)
      \<in> measure (\<lambda>(m, A). fcard (fmdom (addrs m) |-| A))"
    by (simp add: pfsubset_fcard_mono)
qed simp

declare adopt_rounds.simps [simp del]

definition rebuild_placement :: "membership \<Rightarrow> membership" where
  "rebuild_placement m =
     (let A = adopt_rounds m (configured m);
          lost = (\<not> solitary m \<and> fcard A = 1)
      in m\<lparr>adopted := A, stranded := lost,
           placed := (if lost then cluster_new [] else cluster_new (sorted_list_of_fset A))\<rparr>)"

definition can_be_verified :: "membership \<Rightarrow> nodeid \<Rightarrow> bool" where
  "can_be_verified m n \<longleftrightarrow> \<not> is_self m n \<and> n |\<in>| fmdom (addrs m)"

text \<open>Whether the entry is new, and the evidence with it.\<close>

definition add_verifier :: "nodeid \<Rightarrow> nodeid \<Rightarrow> membership \<Rightarrow> bool \<times> membership" where
  "add_verifier v n m =
     (let vs = (case fmlookup (verifiers m) n of None \<Rightarrow> {||} | Some vs \<Rightarrow> vs)
      in (v |\<notin>| vs, m\<lparr>verifiers := fmupd n (finsert v vs) (verifiers m)\<rparr>))"

definition note_verified :: "nodeid \<Rightarrow> membership \<Rightarrow> membership" where
  "note_verified n m =
     (if \<not> can_be_verified m n then m
      else case add_verifier (self_id m) n m of
        (new, m') \<Rightarrow> if new then rebuild_placement m' else m')"

section \<open>Joining\<close>

definition learn :: "nodeid \<Rightarrow> u64 \<Rightarrow> member_state \<Rightarrow> membership \<Rightarrow> membership" where
  "learn n i s m =
     m\<lparr>liveness := fmupd n (liveness_new i s) (liveness m), addrs := fmupd n n (addrs m)\<rparr>"

fun learn_all :: "bytes list \<Rightarrow> bool \<times> membership \<Rightarrow> bool \<times> membership" where
  "learn_all [] am = am"
| "learn_all (x # xs) (added, m) =
     (case node_canonical x of
        None \<Rightarrow> learn_all xs (added, m)
      | Some n \<Rightarrow>
          if n |\<in>| fmdom (addrs m) \<or> n |\<in>| fmdom (reaped m) then learn_all xs (added, m)
          else learn_all xs (True, learn n 0 Alive m))"

definition add_members :: "bytes list \<Rightarrow> membership \<Rightarrow> membership" where
  "add_members ns m =
     (case learn_all ns (False, m) of (added, m') \<Rightarrow> if added then rebuild_placement m' else m')"

definition add_member :: "bytes \<Rightarrow> membership \<Rightarrow> membership" where
  "add_member n m = add_members [n] m"

section \<open>Liveness\<close>

definition note_gossip_reachable :: "nodeid \<Rightarrow> membership \<Rightarrow> membership" where
  "note_gossip_reachable n m =
     (if is_self m n then m
      else case fmlookup (liveness m) n of
             None \<Rightarrow> m
           | Some l \<Rightarrow>
               m\<lparr>liveness :=
                  fmupd n (l\<lparr>failed_probes := 0, ml_state := Alive, dead_ticks := 0\<rparr>) (liveness m)\<rparr>)"

definition probe_failed :: "member_liveness \<Rightarrow> member_liveness" where
  "probe_failed l =
     (if ml_state l = Dead then l
      else let f = saturating_add (failed_probes l) 1
           in l\<lparr>failed_probes := f,
                ml_state := (if DEAD_AFTER_FAILURES \<le> f then Dead
                             else if SUSPECT_AFTER_FAILURES \<le> f then Suspect
                             else ml_state l)\<rparr>)"

definition note_gossip_unreachable :: "nodeid \<Rightarrow> membership \<Rightarrow> membership" where
  "note_gossip_unreachable n m =
     (if is_self m n then m
      else case fmlookup (liveness m) n of
             None \<Rightarrow> m
           | Some l \<Rightarrow> m\<lparr>liveness := fmupd n (probe_failed l) (liveness m)\<rparr>)"

definition age_tombstones :: "(nodeid, u32) fmap \<Rightarrow> (nodeid, u32) fmap" where
  "age_tombstones r =
     fmfilter (\<lambda>n. case fmlookup r n of
                     Some age \<Rightarrow> saturating_add age 1 < TOMBSTONE_RETENTION_TICKS | None \<Rightarrow> False)
       (fmmap (\<lambda>age. saturating_add age 1) r)"

definition age_dead :: "nodeid \<Rightarrow> nodeid \<Rightarrow> member_liveness \<Rightarrow> member_liveness" where
  "age_dead me n l =
     (if n = me \<or> ml_state l \<noteq> Dead then l
      else l\<lparr>dead_ticks := saturating_add (dead_ticks l) 1\<rparr>)"

definition reap_due :: "nodeid \<Rightarrow> nodeid \<times> member_liveness \<Rightarrow> bool" where
  "reap_due me = (\<lambda>(n, l). n \<noteq> me \<and> ml_state l = Dead \<and>
     REAP_AFTER_DEAD_TICKS \<le> saturating_add (dead_ticks l) 1)"

definition reap_one :: "nodeid \<Rightarrow> membership \<Rightarrow> membership" where
  "reap_one n m =
     m\<lparr>reaped := fmupd n 0 (reaped m), liveness := fmdrop n (liveness m),
       addrs := fmdrop n (addrs m), relay_down := relay_down m |-| {|n|},
       configured := configured m |-| {|n|},
       verifiers := fmmap (\<lambda>vs. vs |-| {|n|}) (fmdrop n (verifiers m))\<rparr>"

definition reap_dead :: "membership \<Rightarrow> nodeid list \<times> membership" where
  "reap_dead m =
     (let to_reap = map fst (filter (reap_due (self_id m)) (sorted_list_of_fmap (liveness m)));
          m1 = m\<lparr>reaped := age_tombstones (reaped m),
                  liveness := fmmap_keys (age_dead (self_id m)) (liveness m)\<rparr>;
          m2 = fold reap_one to_reap m1
      in (to_reap, if to_reap = [] then m2 else rebuild_placement m2))"

section \<open>Gossip\<close>

text \<open>The panic of the source where it does not track itself is \<open>m\<close> here; that it always does is
  \<open>self_tracked\<close> below.\<close>

definition refute_if_stale :: "u64 \<Rightarrow> member_state \<Rightarrow> membership \<Rightarrow> membership" where
  "refute_if_stale received s m =
     (case fmlookup (liveness m) (self_id m) of
        None \<Rightarrow> m
      | Some me \<Rightarrow>
          if incarnation me < received \<or> received = incarnation me \<and> s \<noteq> Alive then
            m\<lparr>liveness := fmupd (self_id m)
                (me\<lparr>incarnation := saturating_add (max received (incarnation me)) 1,
                    ml_state := Alive, failed_probes := 0\<rparr>) (liveness m)\<rparr>
          else m)"

definition merge_known :: "u64 \<Rightarrow> member_state \<Rightarrow> member_liveness \<Rightarrow> member_liveness" where
  "merge_known i s l =
     (if incarnation l < i then
        l\<lparr>incarnation := i, ml_state := s, failed_probes := 0, dead_ticks := 0\<rparr>
      else if i = incarnation l \<and> state_rank (ml_state l) < state_rank s then l\<lparr>ml_state := s\<rparr>
      else l)"

text \<open>The state of the merge: whether the placement must be rebuilt, the claims to record and the
  view.\<close>

type_synonym member_tuple = "bytes \<times> bytes \<times> u64 \<times> member_state \<times> bool"

definition merge_member ::
    "nodeid \<Rightarrow> u64 \<Rightarrow> member_state \<Rightarrow> bool \<times> membership \<Rightarrow> bool \<times> membership" where
  "merge_member n i s = (\<lambda>(rebuilt, m).
     if n |\<in>| fmdom (reaped m) \<and> s \<noteq> Alive then (rebuilt, m)
     else
       (let m = m\<lparr>reaped := fmdrop n (reaped m)\<rparr>
        in case fmlookup (liveness m) n of
             None \<Rightarrow> (True, learn n i s m)
           | Some l \<Rightarrow> (rebuilt, m\<lparr>liveness := fmupd n (merge_known i s l) (liveness m)\<rparr>)))"

definition merge_tuple ::
    "nodeid \<Rightarrow> member_tuple \<Rightarrow> bool \<times> nodeid list \<times> membership \<Rightarrow>
       bool \<times> nodeid list \<times> membership" where
  "merge_tuple sender = (\<lambda>(node, addr, i, s, verified) (rebuilt, claimed, m).
     case node_canonical node of
       None \<Rightarrow> (rebuilt, claimed, m)
     | Some n \<Rightarrow>
         (let claimed = (if verified \<and> n \<noteq> sender then claimed @ [n] else claimed)
          in if is_self m n then (rebuilt, claimed, refute_if_stale i s m)
             else case merge_member n i s (rebuilt, m) of
                    (rebuilt', m') \<Rightarrow> (rebuilt', claimed, m')))"

definition record_claim :: "nodeid \<Rightarrow> nodeid \<Rightarrow> bool \<times> membership \<Rightarrow> bool \<times> membership" where
  "record_claim sender n = (\<lambda>(rebuilt, m).
     if can_be_verified m n then
       (case add_verifier sender n m of (new, m') \<Rightarrow> (rebuilt \<or> new, m'))
     else (rebuilt, m))"

definition merge_liveness :: "nodeid \<Rightarrow> member_tuple list \<Rightarrow> membership \<Rightarrow> membership" where
  "merge_liveness sender payload m =
     (case fold (merge_tuple sender) payload (False, [], m) of
        (rebuilt, claimed, m1) \<Rightarrow>
          (case (if can_be_verified m1 sender then fold (record_claim sender) claimed (rebuilt, m1)
                 else (rebuilt, m1)) of
             (rebuilt, m2) \<Rightarrow> if rebuilt then rebuild_placement m2 else m2))"

end
