(* ===== verification/Leadership.thy ===== *)
theory Leadership
  imports Rooms Membership
begin

text \<open>
  \<^verbatim>\<open>leadership.rs\<close> and \<^verbatim>\<open>replication.rs\<close>: the leadership epoch of each room, by which a stale
  leader is fenced, and a leader's book of the frames it owes its followers and of the positions they
  have acknowledged.
\<close>

section \<open>Leadership epochs\<close>

record leadership =
  epoch_seen :: "(room, u64) fmap"
  epoch_led :: "(room, u64) fmap"

definition leadership_default :: leadership where
  "leadership_default = \<lparr>epoch_seen = fmempty, epoch_led = fmempty\<rparr>"

definition highest_seen :: "leadership \<Rightarrow> room \<Rightarrow> u64" where
  "highest_seen l r = (case fmlookup (epoch_seen l) r of None \<Rightarrow> 0 | Some e \<Rightarrow> e)"

definition observe :: "room \<Rightarrow> u64 \<Rightarrow> leadership \<Rightarrow> leadership" where
  "observe r e l = l\<lparr>epoch_seen := fmupd r (max (highest_seen l r) e) (epoch_seen l)\<rparr>"

text \<open>The addition wraps at the greatest epoch, as a release build does.\<close>

definition claim_leadership :: "room \<Rightarrow> leadership \<Rightarrow> u64 \<times> leadership" where
  "claim_leadership r l =
     (let seen = highest_seen l r;
          fresh = (let e = seen + 1
                   in (e, l\<lparr>epoch_led := fmupd r e (epoch_led l), epoch_seen := fmupd r e (epoch_seen l)\<rparr>))
      in case fmlookup (epoch_led l) r of
           Some e \<Rightarrow> if seen \<le> e then (e, l) else fresh
         | None \<Rightarrow> fresh)"

definition leads_below :: "leadership \<Rightarrow> room \<Rightarrow> u64 \<Rightarrow> bool" where
  "leads_below l r epoch = (case fmlookup (epoch_led l) r of None \<Rightarrow> False | Some e \<Rightarrow> e < epoch)"

definition supersede_if_leading :: "room \<Rightarrow> u64 \<Rightarrow> leadership \<Rightarrow> leadership" where
  "supersede_if_leading r epoch l =
     (if leads_below l r epoch then l\<lparr>epoch_led := fmdrop r (epoch_led l)\<rparr> else l)"

section \<open>The leader's book\<close>

text \<open>The messages between nodes that replication sends, with their fields.\<close>

record replicated_meta =
  md_creator :: "bytes option"
  md_governing :: "(bytes \<times> u32) option"
  md_max_version :: "u32 option"

datatype replica_message =
    Replicate room bytes "op list" u64 u64 replicated_meta
  | ReplicateMeta room u64 "bytes option"
  | ReplicateSnapshot room bytes u64 bytes u64 replicated_meta
  | FollowerHeads nodeid "(room \<times> u64) list"

record replication =
  pending_frames :: "(nodeid \<times> replica_message) list"
  acked :: "(room \<times> nodeid, u64) fmap"

definition replication_default :: replication where
  "replication_default = \<lparr>pending_frames = [], acked = fmempty\<rparr>"

definition enqueue :: "nodeid \<Rightarrow> replica_message \<Rightarrow> replication \<Rightarrow> replication" where
  "enqueue n f p = p\<lparr>pending_frames := pending_frames p @ [(n, f)]\<rparr>"

definition take_pending :: "replication \<Rightarrow> (nodeid \<times> replica_message) list \<times> replication" where
  "take_pending p = (pending_frames p, p\<lparr>pending_frames := []\<rparr>)"

definition watermark :: "replication \<Rightarrow> room \<Rightarrow> nodeid \<Rightarrow> u64" where
  "watermark p r n = (case fmlookup (acked p) (r, n) of None \<Rightarrow> 0 | Some q \<Rightarrow> q)"

definition record_ack :: "nodeid \<Rightarrow> room \<Rightarrow> u64 \<Rightarrow> replication \<Rightarrow> replication" where
  "record_ack n r q p = p\<lparr>acked := fmupd (r, n) (max (watermark p r n) q) (acked p)\<rparr>"

definition set_watermark :: "nodeid \<Rightarrow> room \<Rightarrow> u64 \<Rightarrow> replication \<Rightarrow> replication" where
  "set_watermark n r q p = p\<lparr>acked := fmupd (r, n) q (acked p)\<rparr>"

definition forget_members :: "nodeid list \<Rightarrow> replication \<Rightarrow> replication" where
  "forget_members ns p = p\<lparr>acked := fmfilter (\<lambda>(r, n). n \<notin> set ns) (acked p)\<rparr>"

section \<open>Laws of the fence\<close>

lemma observe_seen: "highest_seen (observe r e l) s = (if s = r then max (highest_seen l r) e else highest_seen l s)"
  by (simp add: observe_def highest_seen_def)

lemma supersede_seen [simp]: "highest_seen (supersede_if_leading r e l) s = highest_seen l s"
  by (simp add: supersede_if_leading_def highest_seen_def)

lemma observe_led [simp]: "epoch_led (observe r e l) = epoch_led l"
  by (simp add: observe_def)

text \<open>A claim keeps a leadership that nothing has passed, and otherwise opens the next epoch.\<close>

lemma claim_leadership_cases:
  assumes "claim_leadership r l = (e, l')"
  obtains (kept) "fmlookup (epoch_led l) r = Some e" "highest_seen l r \<le> e" "l' = l"
    | (fresh) "e = highest_seen l r + 1" "fmlookup (epoch_led l') r = Some e" "highest_seen l' r = e"
      "\<And>s. s \<noteq> r \<Longrightarrow> highest_seen l' s = highest_seen l s \<and> fmlookup (epoch_led l') s = fmlookup (epoch_led l) s"
  using assms
  by (auto simp: claim_leadership_def highest_seen_def Let_def split: option.splits if_splits)

end
