(* ===== verification/Membership_Adoption.thy ===== *)
theory Membership_Adoption
  imports Membership
begin

text \<open>
  Who is placed. The rounds of \<open>rebuild_placement\<close> compute the least set that holds the configured
  members and every roster member whom enough trust units of the set have verified; what a node
  can reach keeps its view well formed, with the placement always current.
\<close>

section \<open>The adopted set\<close>

definition vouches :: "membership \<Rightarrow> nodeid fset \<Rightarrow> nodeid \<Rightarrow> nodeid \<Rightarrow> rust_string \<Rightarrow> bool" where
  "vouches m A v n u \<longleftrightarrow> has_verified m v n \<and> v |\<in>| A \<and> member_trust_unit v = Some u \<and>
     (\<exists>own. member_trust_unit n = Some own \<and> u \<noteq> own)"

text \<open>The specification: closed under adoption, and the least such set.\<close>

definition adoption_closed :: "membership \<Rightarrow> nodeid fset \<Rightarrow> bool" where
  "adoption_closed m A \<longleftrightarrow> configured m |\<subseteq>| A \<and>
     (\<forall>n. is_member m n \<longrightarrow> adoption_bar m \<le> card {u. \<exists>v. vouches m A v n u} \<longrightarrow> n |\<in>| A)"

lemma set_map_filter_iff: "y \<in> set (List.map_filter f xs) \<longleftrightarrow> (\<exists>x \<in> set xs. f x = Some y)"
  by (force simp: List.map_filter_def image_iff)

lemma verifier_units_card: "verifier_units m A n = card {u. \<exists>v. vouches m A v n u}"
proof (cases "member_trust_unit n")
  case None
  then show ?thesis by (simp add: verifier_units_def vouches_def)
next
  case (Some own)
  show ?thesis
  proof (cases "fmlookup (verifiers m) n")
    case None
    then show ?thesis by (simp add: verifier_units_def vouches_def has_verified_def split: option.split)
  next
    case vs: (Some vs)
    let ?us = "filter (\<lambda>u. u \<noteq> own) (List.map_filter member_trust_unit
      (filter (\<lambda>v. v |\<in>| A) (sorted_list_of_fset vs)))"
    have "set ?us = {u. \<exists>v. vouches m A v n u}"
      using Some vs by (auto simp: set_map_filter_iff vouches_def has_verified_def)
    then have "length (remdups ?us) = card {u. \<exists>v. vouches m A v n u}"
      by (simp only: length_remdups_card_conv)
    with Some vs show ?thesis by (simp add: verifier_units_def)
  qed
qed

lemma finite_vouchers: "finite {u. \<exists>v. vouches m A v n u}"
proof (rule finite_subset)
  show "{u. \<exists>v. vouches m A v n u} \<subseteq> (the \<circ> member_trust_unit) ` fset A"
    by (force simp: vouches_def)
qed simp

lemma verifier_units_mono: "A |\<subseteq>| B \<Longrightarrow> verifier_units m A n \<le> verifier_units m B n"
  unfolding verifier_units_card by (intro card_mono finite_vouchers) (auto simp: vouches_def)

lemma in_newly_adopted:
  "n \<in> set (newly_adopted m A) \<longleftrightarrow>
    n |\<in>| fmdom (addrs m) \<and> n |\<notin>| A \<and> adoption_bar m \<le> verifier_units m A n"
  by (auto simp: newly_adopted_def roster_def)

lemma adopt_rounds_grows: "A |\<subseteq>| adopt_rounds m A"
proof (induction m A rule: adopt_rounds.induct)
  case (1 m A)
  then show ?case
    by (subst adopt_rounds.simps) (auto split: list.split)
qed

lemma adopt_rounds_closed: "newly_adopted m (adopt_rounds m A) = []"
proof (induction m A rule: adopt_rounds.induct)
  case (1 m A)
  then show ?case
    by (subst adopt_rounds.simps) (auto split: list.split)
qed

lemma adopt_rounds_least:
  assumes "A |\<subseteq>| B" "\<And>n. is_member m n \<Longrightarrow> adoption_bar m \<le> verifier_units m B n \<Longrightarrow> n |\<in>| B"
  shows "adopt_rounds m A |\<subseteq>| B"
  using assms
proof (induction m A rule: adopt_rounds.induct)
  case (1 m A)
  show ?case
  proof (cases "newly_adopted m A")
    case Nil
    with 1 show ?thesis by (subst adopt_rounds.simps) simp
  next
    case (Cons n ns)
    have "x |\<in>| B" if "x \<in> set (newly_adopted m A)" for x
      using that verifier_units_mono [OF "1.prems"(1), of m x]
      by (intro "1.prems"(2)) (auto simp: in_newly_adopted is_member_def)
    then have "A |\<union>| fset_of_list (n # ns) |\<subseteq>| B"
      using Cons "1.prems"(1) by (auto simp: fset_of_list_elem)
    then have "adopt_rounds m (A |\<union>| fset_of_list (n # ns)) |\<subseteq>| B"
      using "1.IH" [OF Cons] "1.prems"(2) by blast
    then show ?thesis unfolding adopt_rounds.simps [of m A] Cons list.case .
  qed
qed

lemma adopt_rounds_within: "adopt_rounds m A |\<subseteq>| A |\<union>| fmdom (addrs m)"
proof (induction m A rule: adopt_rounds.induct)
  case (1 m A)
  show ?case
  proof (cases "newly_adopted m A")
    case Nil
    then show ?thesis by (subst adopt_rounds.simps) auto
  next
    case (Cons n ns)
    have "x |\<in>| fmdom (addrs m)" if "x \<in> set (n # ns)" for x
      using in_newly_adopted [of x m A] that unfolding Cons by simp
    then have "fset_of_list (n # ns) |\<subseteq>| fmdom (addrs m)"
      by (auto simp: fset_of_list_elem)
    moreover note "1.IH" [OF Cons]
    ultimately show ?thesis unfolding adopt_rounds.simps [of m A] Cons list.case by blast
  qed
qed

lemma adopt_rounds_vouched:
  assumes "n |\<in>| adopt_rounds m A" "n |\<notin>| A"
  shows "adoption_bar m \<le> verifier_units m (adopt_rounds m A) n"
  using assms
proof (induction m A rule: adopt_rounds.induct)
  case (1 m A)
  show ?case
  proof (cases "newly_adopted m A")
    case Nil
    with 1 show ?thesis by (simp add: adopt_rounds.simps [of m A])
  next
    case (Cons x xs)
    let ?A = "A |\<union>| fset_of_list (x # xs)"
    have step: "adopt_rounds m A = adopt_rounds m ?A"
      using Cons by (simp add: adopt_rounds.simps [of m A])
    show ?thesis
    proof (cases "n |\<in>| ?A")
      case True
      with 1 Cons have "n \<in> set (newly_adopted m A)" by (auto simp: fset_of_list_elem)
      then have "adoption_bar m \<le> verifier_units m A n" by (simp add: in_newly_adopted)
      also have "\<dots> \<le> verifier_units m (adopt_rounds m A) n"
        by (rule verifier_units_mono [OF adopt_rounds_grows])
      finally show ?thesis .
    next
      case False
      with 1 Cons step show ?thesis by simp
    qed
  qed
qed

lemma adoption_closed_iff:
  "adoption_closed m A \<longleftrightarrow> configured m |\<subseteq>| A \<and> newly_adopted m A = []"
proof -
  have "newly_adopted m A = [] \<longleftrightarrow> (\<forall>n. n \<notin> set (newly_adopted m A))"
    by (metis list.set_intros(1) list.exhaust empty_iff list.set(1))
  then show ?thesis
    by (auto simp: adoption_closed_def in_newly_adopted is_member_def verifier_units_card)
qed

section \<open>What a node can reach\<close>

datatype member_event =
    EvAdd "bytes list"
  | EvGossip nodeid "member_tuple list"
  | EvVerified nodeid
  | EvReachable nodeid
  | EvUnreachable nodeid
  | EvLinkUp nodeid
  | EvLinkDown nodeid
  | EvReap

fun on_event :: "member_event \<Rightarrow> membership \<Rightarrow> membership" where
  "on_event (EvAdd ns) m = add_members ns m"
| "on_event (EvGossip s ts) m = merge_liveness s ts m"
| "on_event (EvVerified n) m = note_verified n m"
| "on_event (EvReachable n) m = note_gossip_reachable n m"
| "on_event (EvUnreachable n) m = note_gossip_unreachable n m"
| "on_event (EvLinkUp n) m = mark_node_live n m"
| "on_event (EvLinkDown n) m = mark_node_down n m"
| "on_event EvReap m = snd (reap_dead m)"

text \<open>The node tracks itself and is configured; every member is tracked and dialed at its id; no
  member is under a tombstone; evidence names members only, and no member vouches for itself; the
  placement is what the evidence gives.\<close>

definition roster_ok :: "membership \<Rightarrow> bool" where
  "roster_ok m \<longleftrightarrow> self_id m |\<in>| configured m \<and> configured m |\<subseteq>| fmdom (addrs m) \<and>
     fmdom (liveness m) = fmdom (addrs m) \<and> fmdom (reaped m) |\<inter>| fmdom (addrs m) = {||} \<and>
     (\<forall>n a. fmlookup (addrs m) n = Some a \<longrightarrow> a = n) \<and>
     (\<forall>n vs. fmlookup (verifiers m) n = Some vs \<longrightarrow>
        n |\<in>| fmdom (addrs m) \<and> vs |\<subseteq>| fmdom (addrs m) \<and> n |\<notin>| vs \<and> n \<noteq> self_id m)"

definition membership_ok :: "membership \<Rightarrow> bool" where
  "membership_ok m \<longleftrightarrow> roster_ok m \<and> rebuild_placement m = m"

lemma adopt_rounds_fields:
  assumes "addrs m = addrs m'" "solitary m = solitary m'" "verifiers m = verifiers m'"
  shows "adopt_rounds m A = adopt_rounds m' A"
proof -
  have units: "verifier_units m B n = verifier_units m' B n" for B n
    unfolding verifier_units_def assms(3) ..
  have "newly_adopted m B = newly_adopted m' B" for B
    using assms units by (simp add: newly_adopted_def roster_def adoption_bar_def)
  then show ?thesis
  proof (induction m A rule: adopt_rounds.induct)
    case (1 m A)
    then show ?case
      by (subst (1 2) adopt_rounds.simps) (auto split: list.split)
  qed
qed

lemma rebuild_idem: "rebuild_placement (rebuild_placement m) = rebuild_placement m"
proof -
  have "adopt_rounds (m\<lparr>adopted := A, stranded := b, placed := c\<rparr>) B = adopt_rounds m B" for A b c B
    by (rule adopt_rounds_fields) simp_all
  then show ?thesis by (simp add: rebuild_placement_def Let_def)
qed

lemma rebuild_fields [simp]:
  "self_id (rebuild_placement m) = self_id m" "configured (rebuild_placement m) = configured m"
  "addrs (rebuild_placement m) = addrs m" "liveness (rebuild_placement m) = liveness m"
  "reaped (rebuild_placement m) = reaped m" "verifiers (rebuild_placement m) = verifiers m"
  "solitary (rebuild_placement m) = solitary m" "relay_down (rebuild_placement m) = relay_down m"
  "replication_factor (rebuild_placement m) = replication_factor m"
  "adopted (rebuild_placement m) = adopt_rounds m (configured m)"
  by (simp_all add: rebuild_placement_def Let_def)

lemma rebuild_ring:
  "stranded (rebuild_placement m) = (\<not> solitary m \<and> fcard (adopt_rounds m (configured m)) = 1)"
  "placed (rebuild_placement m) = (if stranded (rebuild_placement m) then cluster_new []
    else cluster_new (sorted_list_of_fset (adopt_rounds m (configured m))))"
  by (simp_all add: rebuild_placement_def Let_def)

lemma roster_ok_rebuild [simp]: "roster_ok (rebuild_placement m) = roster_ok m"
  by (simp add: roster_ok_def)

lemma membership_ok_rebuild: "roster_ok m \<Longrightarrow> membership_ok (rebuild_placement m)"
  by (simp add: membership_ok_def rebuild_idem)

lemma membership_ok_ring:
  assumes "membership_ok m"
  shows "adopted m = adopt_rounds m (configured m)"
    and "stranded m = (\<not> solitary m \<and> fcard (adopted m) = 1)"
    and "placed m = (if stranded m then cluster_new [] else cluster_new (sorted_list_of_fset (adopted m)))"
proof -
  have current: "rebuild_placement m = m" using assms by (simp add: membership_ok_def)
  show rounds: "adopted m = adopt_rounds m (configured m)"
    using rebuild_fields(10) [of m] unfolding current .
  show "stranded m = (\<not> solitary m \<and> fcard (adopted m) = 1)"
    using rebuild_ring(1) [of m] unfolding current rounds .
  show "placed m = (if stranded m then cluster_new [] else cluster_new (sorted_list_of_fset (adopted m)))"
    using rebuild_ring(2) [of m] unfolding current rounds .
qed

text \<open>A change of the liveness alone keeps the placement current.\<close>

lemma membership_ok_same:
  assumes "membership_ok m" "roster_ok m'" "addrs m' = addrs m" "solitary m' = solitary m"
    "verifiers m' = verifiers m" "configured m' = configured m" "adopted m' = adopted m"
    "stranded m' = stranded m" "placed m' = placed m"
  shows "membership_ok m'"
proof -
  have "adopt_rounds m' (configured m') = adopt_rounds m (configured m)"
    using assms by (simp add: adopt_rounds_fields [of m' m])
  moreover note membership_ok_ring [OF assms(1)]
  ultimately have "rebuild_placement m' = m'"
    using assms by (simp add: rebuild_placement_def Let_def)
  with assms(2) show ?thesis by (simp add: membership_ok_def)
qed

section \<open>Every event keeps the view well formed\<close>

definition same_ring :: "membership \<Rightarrow> membership \<Rightarrow> bool" where
  "same_ring m m' \<longleftrightarrow> addrs m' = addrs m \<and> solitary m' = solitary m \<and> verifiers m' = verifiers m \<and>
     configured m' = configured m \<and> adopted m' = adopted m \<and> stranded m' = stranded m \<and>
     placed m' = placed m"

lemma same_ring_refl [simp]: "same_ring m m"
  by (simp add: same_ring_def)

lemma same_ring_trans: "same_ring a b \<Longrightarrow> same_ring b c \<Longrightarrow> same_ring a c"
  by (simp add: same_ring_def)

lemma membership_ok_same_ring:
  "membership_ok m \<Longrightarrow> roster_ok m' \<Longrightarrow> same_ring m m' \<Longrightarrow> membership_ok m'"
  by (rule membership_ok_same) (simp_all add: same_ring_def)

lemma membership_okD: "membership_ok m \<Longrightarrow> roster_ok m"
  by (simp add: membership_ok_def)

lemma roster_ok_liveness:
  "roster_ok m \<Longrightarrow> fmdom lv = fmdom (addrs m) \<Longrightarrow> roster_ok (m\<lparr>liveness := lv\<rparr>)"
  by (simp add: roster_ok_def)

lemma same_ring_liveness [simp]: "same_ring m (m\<lparr>liveness := lv\<rparr>)"
  by (simp add: same_ring_def)

lemma fmdom_upd_known: "fmlookup f n = Some l \<Longrightarrow> fmdom (fmupd n x f) = fmdom f"
  by (simp add: finsert_absorb fmdomI)

lemma roster_ok_learn: "roster_ok m \<Longrightarrow> n |\<notin>| fmdom (reaped m) \<Longrightarrow> roster_ok (learn n i s m)"
  unfolding roster_ok_def learn_def by simp blast

lemma learn_fields [simp]:
  "self_id (learn n i s m) = self_id m" "reaped (learn n i s m) = reaped m"
  by (simp_all add: learn_def)

lemma learn_all_ok:
  assumes "learn_all xs (added, m) = (added', m')" "roster_ok m"
  shows "roster_ok m' \<and> (\<not> added' \<longrightarrow> m' = m \<and> \<not> added)"
  using assms
proof (induction xs arbitrary: added m)
  case (Cons x xs)
  show ?case
  proof (cases "node_canonical x")
    case None
    with Cons.prems Cons.IH [of added m] show ?thesis by simp
  next
    case (Some n)
    with Cons.prems Cons.IH [of added m] Cons.IH [of True "learn n 0 Alive m"] show ?thesis
      by (auto simp: roster_ok_learn split: if_splits)
  qed
qed simp

lemma add_members_ok: "membership_ok m \<Longrightarrow> membership_ok (add_members ns m)"
  using learn_all_ok [of ns False m] membership_okD [of m]
  by (cases "learn_all ns (False, m)") (auto simp: add_members_def intro: membership_ok_rebuild)

lemma add_verifier_ok:
  assumes "roster_ok m" "n |\<in>| fmdom (addrs m)" "v |\<in>| fmdom (addrs m)" "v \<noteq> n" "n \<noteq> self_id m"
  shows "roster_ok (snd (add_verifier v n m))"
    and "\<not> fst (add_verifier v n m) \<Longrightarrow> snd (add_verifier v n m) = m"
proof -
  show "roster_ok (snd (add_verifier v n m))"
    using assms by (cases "fmlookup (verifiers m) n") (auto simp: roster_ok_def add_verifier_def Let_def)
  show "snd (add_verifier v n m) = m" if "\<not> fst (add_verifier v n m)"
  proof (cases "fmlookup (verifiers m) n")
    case None
    with that show ?thesis by (simp add: add_verifier_def)
  next
    case (Some vs)
    with that have "fmupd n (finsert v vs) (verifiers m) = verifiers m"
      by (intro fmap_ext) (auto simp: add_verifier_def finsert_absorb)
    with Some show ?thesis by (simp add: add_verifier_def)
  qed
qed

lemma note_verified_ok: "membership_ok m \<Longrightarrow> membership_ok (note_verified n m)"
proof (cases "can_be_verified m n")
  case True
  assume ok: "membership_ok m"
  then have r: "roster_ok m" by (rule membership_okD)
  with True have "roster_ok (snd (add_verifier (self_id m) n m))"
    and "\<not> fst (add_verifier (self_id m) n m) \<Longrightarrow> snd (add_verifier (self_id m) n m) = m"
    by (intro add_verifier_ok; force simp: can_be_verified_def is_self_def roster_ok_def)+
  with ok True show ?thesis
    by (auto simp: note_verified_def intro: membership_ok_rebuild split: prod.split)
qed (simp add: note_verified_def)

lemma note_gossip_ok:
  assumes "membership_ok m"
  shows "membership_ok (note_gossip_reachable n m)" and "membership_ok (note_gossip_unreachable n m)"
proof -
  have ok: "membership_ok (m\<lparr>liveness := fmupd n x (liveness m)\<rparr>)"
    if "fmlookup (liveness m) n = Some l" for x l
    using that assms membership_okD [OF assms] fmdomI [OF that]
    by (intro membership_ok_same_ring [OF assms] roster_ok_liveness)
      (auto simp: fmdom_upd_known [OF that] roster_ok_def)
  then show "membership_ok (note_gossip_reachable n m)" "membership_ok (note_gossip_unreachable n m)"
    using assms by (auto simp: note_gossip_reachable_def note_gossip_unreachable_def split: option.split)
qed

lemma mark_node_ok:
  assumes "membership_ok m"
  shows "membership_ok (mark_node_live n m)" and "membership_ok (mark_node_down n m)"
  using assms membership_okD [OF assms]
  by (auto simp: mark_node_live_def mark_node_down_def roster_ok_def same_ring_def
      intro!: membership_ok_same_ring [OF assms])

lemma refute_ok:
  assumes "roster_ok m"
  shows "roster_ok (refute_if_stale i s m)" and "same_ring m (refute_if_stale i s m)"
  using assms
  by (auto simp: refute_if_stale_def split: option.split
      intro!: roster_ok_liveness fmdom_upd_known [THEN trans]) (simp_all add: roster_ok_def)

lemma merge_member_ok:
  assumes "roster_ok m" "merge_member n i s (rebuilt, m) = (rebuilt', m')"
  shows "roster_ok m' \<and> (\<not> rebuilt' \<longrightarrow> same_ring m m' \<and> \<not> rebuilt) \<and> self_id m' = self_id m"
proof (cases "n |\<in>| fmdom (reaped m) \<and> s \<noteq> Alive")
  case True
  with assms show ?thesis by (simp add: merge_member_def)
next
  case False
  let ?m = "m\<lparr>reaped := fmdrop n (reaped m)\<rparr>"
  have ok: "roster_ok ?m" using assms(1) by (auto simp: roster_ok_def)
  have ring: "same_ring m ?m" by (simp add: same_ring_def)
  show ?thesis
  proof (cases "fmlookup (liveness m) n")
    case None
    with False assms(2) ok show ?thesis
      by (auto simp: merge_member_def Let_def intro!: roster_ok_learn)
  next
    case (Some l)
    have "roster_ok (?m\<lparr>liveness := fmupd n (merge_known i s l) (liveness m)\<rparr>)"
      using assms(1) ok fmdomI [OF Some]
      by (intro roster_ok_liveness) (auto simp: roster_ok_def finsert_absorb)
    with Some False assms(2) ring show ?thesis
      by (auto simp: merge_member_def Let_def same_ring_def)
  qed
qed

lemma merge_tuple_ok:
  assumes "roster_ok m" "sender \<notin> set claimed"
    and "merge_tuple sender t (rebuilt, claimed, m) = (rebuilt', claimed', m')"
  shows "roster_ok m' \<and> sender \<notin> set claimed' \<and> (\<not> rebuilt' \<longrightarrow> same_ring m m' \<and> \<not> rebuilt)"
proof -
  obtain node a i s v where t: "t = (node, a, i, s, v)" by (cases t)
  show ?thesis
  proof (cases "node_canonical node")
    case None
    with assms t show ?thesis by (simp add: merge_tuple_def)
  next
    case (Some n)
    show ?thesis
    proof (cases "is_self m n")
      case True
      with assms t Some refute_ok [OF assms(1)] show ?thesis
        by (auto simp: merge_tuple_def Let_def split: if_splits)
    next
      case False
      with assms t Some merge_member_ok [OF assms(1), of n i s rebuilt] show ?thesis
        by (auto simp: merge_tuple_def Let_def split: prod.splits if_splits)
    qed
  qed
qed

lemma fold_merge_tuple_ok:
  assumes "roster_ok m" "sender \<notin> set claimed"
    and "fold (merge_tuple sender) ts (rebuilt, claimed, m) = (rebuilt', claimed', m')"
  shows "roster_ok m' \<and> sender \<notin> set claimed' \<and> (\<not> rebuilt' \<longrightarrow> same_ring m m' \<and> \<not> rebuilt)"
  using assms
proof (induction ts arbitrary: rebuilt claimed m)
  case (Cons t ts)
  obtain r1 c1 m1 where one: "merge_tuple sender t (rebuilt, claimed, m) = (r1, c1, m1)"
    by (rule prod_cases3)
  note ok = merge_tuple_ok [OF Cons.prems(1,2) one]
  with Cons.IH [of m1 c1 r1] Cons.prems(3) one show ?case
    by (auto intro: same_ring_trans)
qed simp

lemma fold_record_claim_ok:
  assumes "roster_ok m" "sender \<notin> set claimed" "can_be_verified m sender"
    and "fold (record_claim sender) claimed (rebuilt, m) = (rebuilt', m')"
  shows "roster_ok m' \<and> (\<not> rebuilt' \<longrightarrow> m' = m \<and> \<not> rebuilt)"
  using assms
proof (induction claimed arbitrary: rebuilt m)
  case (Cons n ns)
  obtain r1 m1 where one: "record_claim sender n (rebuilt, m) = (r1, m1)" by (rule prod.exhaust)
  have "roster_ok m1 \<and> (\<not> r1 \<longrightarrow> m1 = m \<and> \<not> rebuilt) \<and> can_be_verified m1 sender"
  proof (cases "can_be_verified m n")
    case True
    with Cons.prems have "roster_ok (snd (add_verifier sender n m))"
      and "\<not> fst (add_verifier sender n m) \<Longrightarrow> snd (add_verifier sender n m) = m"
      by (intro add_verifier_ok; auto simp: can_be_verified_def is_self_def)+
    moreover have "can_be_verified (snd (add_verifier sender n m)) sender"
      using Cons.prems(3) by (simp add: can_be_verified_def is_self_def add_verifier_def Let_def)
    ultimately show ?thesis
      using one True by (auto simp: record_claim_def split: prod.splits)
  next
    case False
    with one Cons.prems show ?thesis by (simp add: record_claim_def)
  qed
  with Cons.IH [of m1 r1] Cons.prems one show ?case by auto
qed simp

lemma merge_liveness_ok:
  assumes "membership_ok m"
  shows "membership_ok (merge_liveness sender ts m)"
proof -
  obtain r1 c1 m1 where one: "fold (merge_tuple sender) ts (False, [], m) = (r1, c1, m1)"
    by (rule prod_cases3)
  have ok1: "roster_ok m1" "sender \<notin> set c1" "\<not> r1 \<Longrightarrow> same_ring m m1"
    using fold_merge_tuple_ok [OF membership_okD [OF assms] _ one] by auto
  obtain r2 m2 where two: "(if can_be_verified m1 sender then fold (record_claim sender) c1 (r1, m1)
      else (r1, m1)) = (r2, m2)" by (rule prod.exhaust)
  have ok2: "roster_ok m2 \<and> (\<not> r2 \<longrightarrow> m2 = m1 \<and> \<not> r1)"
    using two ok1 fold_record_claim_ok [OF ok1(1,2), of r1 r2 m2] by (auto split: if_splits)
  have "merge_liveness sender ts m = (if r2 then rebuild_placement m2 else m2)"
    using one two by (simp add: merge_liveness_def)
  with ok1(3) ok2 assms show ?thesis
    by (auto intro: membership_ok_rebuild membership_ok_same_ring)
qed

lemma reap_one_ok: "roster_ok m \<Longrightarrow> n \<noteq> self_id m \<Longrightarrow> roster_ok (reap_one n m)"
  unfolding roster_ok_def reap_one_def by (auto split: if_splits) (metis fminusD1 fsubsetD)

lemma fold_reap_one_ok:
  "roster_ok m \<Longrightarrow> self_id m \<notin> set ns \<Longrightarrow> roster_ok (fold reap_one ns m)"
proof (induction ns arbitrary: m)
  case (Cons n ns)
  have "self_id (reap_one n m) = self_id m" by (simp add: reap_one_def)
  with Cons reap_one_ok [of m n] show ?case by auto
qed simp

lemma reap_dead_ok:
  assumes "membership_ok m"
  shows "membership_ok (snd (reap_dead m))"
proof -
  let ?m1 = "m\<lparr>reaped := age_tombstones (reaped m),
    liveness := fmmap_keys (age_dead (self_id m)) (liveness m)\<rparr>"
  let ?due = "map fst (filter (reap_due (self_id m)) (sorted_list_of_fmap (liveness m)))"
  have "fmdom (age_tombstones r) |\<subseteq>| fmdom r" for r
    by (auto simp: age_tombstones_def)
  then have m1: "roster_ok ?m1"
    using membership_okD [OF assms] by (auto simp: roster_ok_def)
  then have "roster_ok (fold reap_one ?due ?m1)"
    by (intro fold_reap_one_ok) (auto simp: reap_due_def)
  moreover have "membership_ok ?m1"
    using assms m1 by (rule membership_ok_same_ring) (simp add: same_ring_def)
  ultimately show ?thesis
    by (auto simp: reap_dead_def Let_def intro: membership_ok_rebuild)
qed

lemma membership_new_ok: "membership_ok (membership_new self peers rf)"
proof -
  let ?m = "membership_new self peers rf"
  have lookup: "fmlookup (fmap_of_list (map (\<lambda>n. (n, f n)) ms)) k = (if k \<in> set ms then Some (f k) else None)"
    for f :: "nodeid \<Rightarrow> 'a" and ms k
    by (simp add: fmlookup_of_list map_of_map_keys [unfolded comp_def] map_of_eq_None_iff)
      (induction ms, auto)
  have "roster_ok ?m"
    by (auto simp: roster_ok_def membership_new_def Let_def fmdom_fmap_of_list fset_of_list_elem
        lookup fmlookup_dom_iff split: if_splits)
  moreover have "rebuild_placement ?m = ?m"
  proof -
    have "newly_adopted ?m A = []" for A
      by (simp add: newly_adopted_def filter_empty_conv verifier_units_def adoption_bar_def
          ADOPTION_VERIFIERS_def membership_new_def Let_def split: option.split)
    then have start: "adopt_rounds ?m (configured ?m) = fset_of_list (self # peers)"
      by (simp add: adopt_rounds.simps [of ?m]) (simp add: membership_new_def Let_def)
    have "fcard (fset_of_list (self # peers)) \<noteq> 1" if p: "p \<in> set peers" "p \<noteq> self" for p
    proof
      assume "fcard (fset_of_list (self # peers)) = 1"
      then have "card (set (self # peers)) = 1" by (simp add: fcard.rep_eq fset_of_list.rep_eq)
      then obtain x where "set (self # peers) = {x}" by (metis card_1_singletonE)
      with p show False by auto
    qed
    then have "\<not> (\<not> solitary ?m \<and> fcard (fset_of_list (self # peers)) = 1)"
      by (auto simp: membership_new_def Let_def list_ex_iff)
    moreover have "cluster_new (sorted_list_of_fset (fset_of_list (self # peers))) = cluster_new (self # peers)"
      by (rule cluster_new_cong) (simp add: fset_of_list.rep_eq)
    ultimately show ?thesis
      unfolding rebuild_placement_def start Let_def by (auto simp: membership_new_def Let_def)
  qed
  ultimately show ?thesis by (simp add: membership_ok_def)
qed

lemma on_event_ok: "membership_ok m \<Longrightarrow> membership_ok (on_event e m)"
  by (cases e) (simp_all add: add_members_ok merge_liveness_ok note_verified_ok note_gossip_ok
      mark_node_ok reap_dead_ok)

lemma run_events_ok: "membership_ok m \<Longrightarrow> membership_ok (fold on_event es m)"
  by (induction es arbitrary: m) (simp_all add: on_event_ok)

section \<open>Properties\<close>

lemma solitary_merge_tuple:
  "solitary (snd (snd (merge_tuple sender t rcm))) = solitary (snd (snd rcm))"
  by (cases t; cases rcm)
    (auto simp: merge_tuple_def merge_member_def refute_if_stale_def learn_def Let_def
      split: option.split prod.split)

lemma solitary_fold_merge_tuple:
  "solitary (snd (snd (fold (merge_tuple sender) ts rcm))) = solitary (snd (snd rcm))"
  by (induction ts arbitrary: rcm) (simp_all add: solitary_merge_tuple)

lemma solitary_fold_record_claim:
  "solitary (snd (fold (record_claim sender) ns rm)) = solitary (snd rm)"
proof (induction ns arbitrary: rm)
  case (Cons n ns)
  have "solitary (snd (record_claim sender n rm)) = solitary (snd rm)"
    by (cases rm) (simp add: record_claim_def add_verifier_def Let_def)
  with Cons show ?case by simp
qed simp

lemma solitary_learn_all: "solitary (snd (learn_all ns am)) = solitary (snd am)"
proof (induction ns am rule: learn_all.induct)
  case (2 x xs added m)
  then show ?case by (auto simp: learn_def split: option.split)
qed simp

lemma solitary_fold_reap: "solitary (fold reap_one ns m) = solitary m"
  by (induction ns arbitrary: m) (simp_all add: reap_one_def)

lemma solitary_on_event [simp]: "solitary (on_event e m) = solitary m"
proof (cases e)
  case (EvAdd ns)
  then show ?thesis
    using solitary_learn_all [of ns "(False, m)"] by (auto simp: add_members_def split: prod.split)
next
  case (EvGossip s ts)
  obtain r c m1 where one: "fold (merge_tuple s) ts (False, [], m) = (r, c, m1)" by (rule prod_cases3)
  with solitary_fold_merge_tuple [of s ts "(False, [], m)"] have "solitary m1 = solitary m" by simp
  with EvGossip one solitary_fold_record_claim [of s c "(r, m1)"] show ?thesis
    by (auto simp: merge_liveness_def split: prod.split)
next
  case EvReap
  then show ?thesis by (simp add: reap_dead_def Let_def solitary_fold_reap)
qed (simp_all add: note_verified_def add_verifier_def note_gossip_reachable_def
      note_gossip_unreachable_def mark_node_live_def mark_node_down_def Let_def split: option.split)

lemma solitary_run [simp]: "solitary (fold on_event es m) = solitary m"
  by (induction es arbitrary: m) simp_all

text \<open>C9. Whatever happens to a node - joins, gossip with anything in it, verified links, probes,
  link losses and reaps in any order - its view stays well formed: it tracks and configures itself,
  tracks exactly its roster and dials each member at its id, holds no member under a tombstone,
  keeps evidence about members by members only and by none about itself, and its ring is the one
  the evidence gives.\<close>
theorem membership_invariant:
  "membership_ok (fold on_event es (membership_new self peers rf))"
  by (rule run_events_ok [OF membership_new_ok])

text \<open>C10. Adoption is order independent: the rounds end, and with the least set that holds the
  configured members and every roster member whom enough trust units of that set have verified.\<close>
theorem adoption_least_fixpoint:
  "adoption_closed m (adopted (rebuild_placement m)) \<and>
    (\<forall>A. adoption_closed m A \<longrightarrow> adopted (rebuild_placement m) |\<subseteq>| A)"
proof -
  have "adopt_rounds m (configured m) |\<subseteq>| A" if "adoption_closed m A" for A
    using that by (intro adopt_rounds_least) (auto simp: adoption_closed_def verifier_units_card)
  then show ?thesis
    using adopt_rounds_grows [of "configured m" m] adopt_rounds_closed [of m "configured m"]
    by (simp add: adoption_closed_iff)
qed

lemma two_of_card: "2 \<le> card S \<Longrightarrow> \<exists>x \<in> S. \<exists>y \<in> S. x \<noteq> y"
proof (rule ccontr)
  assume "2 \<le> card S" and "\<not> (\<exists>x \<in> S. \<exists>y \<in> S. x \<noteq> y)"
  moreover from this have "card S \<le> Suc 0"
    by (cases "finite S") (auto simp: card_le_Suc0_iff_eq)
  ultimately show False by simp
qed

text \<open>C11. No single trust unit places a member. On a node that was configured with a peer, every
  member rooms are placed on was configured or has been verified by two placed members on different
  hosts, neither of them its own.\<close>
theorem placed_members_vouched:
  assumes "p \<in> set peers" and "p \<noteq> self"
    and "m = fold on_event es (membership_new self peers rf)"
    and "n \<in> set (adopted_members m)" and "n |\<notin>| configured m"
  shows "\<exists>v w host other. vouches m (adopted m) v n host \<and> vouches m (adopted m) w n other \<and> host \<noteq> other"
proof -
  have ok: "membership_ok m" using membership_invariant assms(3) by simp
  have "\<not> solitary m"
    using assms(1-3) by (auto simp: membership_new_def Let_def list_ex_iff)
  then have bar: "adoption_bar m = 2" by (simp add: adoption_bar_def ADOPTION_VERIFIERS_def)
  note ring = membership_ok_ring [OF ok]
  have "n |\<in>| adopted m"
    using assms(4) ring(3) by (auto simp: adopted_members_def split: if_splits)
  then have "2 \<le> verifier_units m (adopted m) n"
    using adopt_rounds_vouched [of n m "configured m"] assms(5) bar ring(1) by simp
  then show ?thesis
    using two_of_card [of "{u. \<exists>v. vouches m (adopted m) v n u}"] by (auto simp: verifier_units_card)
qed

definition join_events :: "member_event list" where
  "join_events = [EvGossip [121] [([120], [120], 0, Alive, True)], EvVerified [120]]"

lemma letters:
  "node_canonical [120] = Some [120]" "member_trust_unit [120] = Some [120]"
  "member_trust_unit [121] = Some [121]" "member_trust_unit [122] = Some [122]"
  using letter_node [of 120] letter_node [of 121] letter_node [of 122] by (simp_all add: letter_def)

lemma join_evidence:
  assumes "m = fold on_event join_events (membership_new [122] [[121]] 2)"
  shows "configured m = {|[122], [121]|}" and "is_member m [120]"
    and "fmlookup (verifiers m) [120] = Some {|[121], [122]|}"
  using assms
  by (simp_all add: join_events_def membership_new_def Let_def merge_liveness_def merge_tuple_def letters
      is_self_def merge_member_def can_be_verified_def record_claim_def add_verifier_def learn_def
      note_verified_def is_member_def finsert_commute)

lemma adoption_least_fixpoint_witness:
  "adopted (rebuild_placement (membership_new [122] [[121]] 2)) |\<subseteq>| {|[121], [122]|}"
proof -
  have "vouches (membership_new [122] [[121]] 2) A v n u \<longleftrightarrow> False" for A v n u
    by (simp add: vouches_def has_verified_def membership_new_def Let_def)
  then have "adoption_closed (membership_new [122] [[121]] 2) {|[121], [122]|}"
    by (simp add: adoption_closed_def adoption_bar_def ADOPTION_VERIFIERS_def)
      (simp add: membership_new_def Let_def)
  then show ?thesis using adoption_least_fixpoint [of "membership_new [122] [[121]] 2"] by blast
qed

lemma placed_members_vouched_witness:
  "\<exists>v w host other. let m = fold on_event join_events (membership_new [122] [[121]] 2) in
    vouches m (adopted m) v [120] host \<and> vouches m (adopted m) w [120] other \<and> host \<noteq> other"
proof -
  define m where "m = fold on_event join_events (membership_new [122] [[121]] 2)"
  note evidence = join_evidence [OF m_def]
  have ok: "membership_ok m" using membership_invariant m_def by simp
  note ring = membership_ok_ring [OF ok]
  have closed: "adoption_closed m (adopted m)"
    unfolding adoption_closed_iff ring(1) using adopt_rounds_grows adopt_rounds_closed by blast
  then have conf: "[121] |\<in>| adopted m" "[122] |\<in>| adopted m"
    using evidence(1) by (auto simp: adoption_closed_def)
  have "vouches m (adopted m) [121] [120] [121]" "vouches m (adopted m) [122] [120] [122]"
    using evidence(3) conf letters by (auto simp: vouches_def has_verified_def)
  then have "{[121], [122]} \<subseteq> {u. \<exists>v. vouches m (adopted m) v [120] u}" by auto
  from card_mono [OF finite_vouchers this] have "2 \<le> card {u. \<exists>v. vouches m (adopted m) v [120] u}"
    by simp
  moreover have sol: "\<not> solitary m"
    by (simp add: m_def membership_new_def Let_def)
  ultimately have x: "[120] |\<in>| adopted m"
    using closed evidence(2) by (auto simp: adoption_closed_def adoption_bar_def ADOPTION_VERIFIERS_def)
  have "fcard (adopted m) \<noteq> 1"
  proof
    assume "fcard (adopted m) = 1"
    then obtain x where "fset (adopted m) = {x}" unfolding fcard.rep_eq by (rule card_1_singletonE)
    with conf(1) have "[121] \<in> {x}" by metis
    moreover from conf(2) \<open>fset (adopted m) = {x}\<close> have "[122] \<in> {x}" by metis
    ultimately have "[121 :: u8] = [122]" by (metis singletonD)
    then show False by simp
  qed
  then have "placed m = cluster_new (sorted_list_of_fset (adopted m))"
    using ring(2,3) by argo
  then have "[120] \<in> set (adopted_members m)"
    using x by (simp add: adopted_members_def)
  from placed_members_vouched [OF _ _ m_def this] evidence(1) show ?thesis
    unfolding Let_def m_def [symmetric] by auto
qed

end
