(* ===== verification/Membership_Gossip.thy ===== *)
theory Membership_Gossip
  imports Membership_Adoption Convergence
begin

text \<open>
  Liveness. Gossip merges by the greatest incarnation and, at one incarnation, the most suspicious
  state, so views agree on every member but the node itself whatever the order of delivery; the
  node itself refutes a suspicion by a higher incarnation; and a member that stops answering is
  suspected, declared dead, reaped, and at last forgotten.
\<close>

text \<open>What is known of a member, as the merge compares it.\<close>

definition verdict :: "membership \<Rightarrow> nodeid \<Rightarrow> (u64 \<times> nat) option" where
  "verdict m n = map_option (\<lambda>l. (incarnation l, state_rank (ml_state l))) (fmlookup (liveness m) n)"

definition names :: "nodeid \<Rightarrow> member_tuple \<Rightarrow> bool" where
  "names n = (\<lambda>(node, a, i, s, v). node_canonical node = Some n)"

definition claims :: "member_tuple \<Rightarrow> (u64 \<times> nat) option" where
  "claims = (\<lambda>(node, a, i, s, v). Some (i, state_rank s))"

definition gossip_rounds :: "(nodeid \<times> member_tuple list) list \<Rightarrow> membership \<Rightarrow> membership" where
  "gossip_rounds rs m = fold (\<lambda>(sender, ts). merge_liveness sender ts) rs m"

section \<open>One tuple\<close>

lemma state_rank_inject [simp]: "state_rank s = state_rank t \<longleftrightarrow> s = t"
  by (cases s; cases t) simp_all

lemma gossip_state_verdict:
  "n \<noteq> self_id m \<Longrightarrow> verdict m n = verdict m' n \<Longrightarrow> n \<noteq> self_id m' \<Longrightarrow> gossip_state m n = gossip_state m' n"
  by (auto simp: gossip_state_def is_self_def verdict_def split: option.splits)

lemma incarnation_verdict: "verdict m n = verdict m' n \<Longrightarrow> incarnation_of m n = incarnation_of m' n"
  by (auto simp: incarnation_of_def verdict_def split: option.splits)

lemma merge_known_max:
  "(incarnation (merge_known i s l), state_rank (ml_state (merge_known i s l))) =
    max (incarnation l, state_rank (ml_state l)) (i, state_rank s)"
  by (auto simp: merge_known_def max_def less_eq_prod_def)

lemma refute_liveness:
  "n \<noteq> self_id m \<Longrightarrow> fmlookup (liveness (refute_if_stale i s m)) n = fmlookup (liveness m) n"
  "self_id (refute_if_stale i s m) = self_id m" "reaped (refute_if_stale i s m) = reaped m"
  by (auto simp: refute_if_stale_def split: option.split)

lemma merge_member_verdict:
  assumes "k |\<notin>| fmdom (reaped m)" "merge_member n i s (r, m) = (r', m')"
  shows "verdict m' k = (if k = n then max (verdict m k) (Some (i, state_rank s)) else verdict m k)"
    and "self_id m' = self_id m" and "fmdom (reaped m') |\<subseteq>| fmdom (reaped m)"
proof -
  show "verdict m' k = (if k = n then max (verdict m k) (Some (i, state_rank s)) else verdict m k)"
  proof (cases "k = n")
    case False
    with assms(2) show ?thesis
      by (auto simp: merge_member_def Let_def verdict_def learn_def split: option.splits if_splits)
  next
    case k: True
    show ?thesis
    proof (cases "fmlookup (liveness m) n")
      case None
      with assms k show ?thesis
        by (auto simp: merge_member_def Let_def verdict_def learn_def liveness_new_def max_def)
    next
      case (Some l)
      have "verdict m' n = Some (incarnation (merge_known i s l), state_rank (ml_state (merge_known i s l)))"
        using assms k Some by (auto simp: merge_member_def Let_def verdict_def)
      moreover have "verdict m n = Some (incarnation l, state_rank (ml_state l))"
        using Some by (simp add: verdict_def)
      ultimately show ?thesis
        using k unfolding merge_known_max by (auto simp: max_def)
    qed
  qed
  show "self_id m' = self_id m" "fmdom (reaped m') |\<subseteq>| fmdom (reaped m)"
    using assms by (auto simp: merge_member_def Let_def split: option.splits if_splits)
qed

lemma merge_tuple_verdict:
  assumes "k \<noteq> self_id m" "k |\<notin>| fmdom (reaped m)" "merge_tuple sender t (r, c, m) = (r', c', m')"
  shows "verdict m' k = (if names k t then max (verdict m k) (claims t) else verdict m k)"
    and "self_id m' = self_id m" and "fmdom (reaped m') |\<subseteq>| fmdom (reaped m)"
proof -
  obtain node a i s v where t: "t = (node, a, i, s, v)" by (cases t)
  have "verdict m' k = (if names k t then max (verdict m k) (claims t) else verdict m k) \<and>
    self_id m' = self_id m \<and> fmdom (reaped m') |\<subseteq>| fmdom (reaped m)"
  proof (cases "node_canonical node")
    case None
    with assms t show ?thesis by (simp add: merge_tuple_def names_def)
  next
    case (Some n)
    show ?thesis
    proof (cases "is_self m n")
      case True
      then have m': "m' = refute_if_stale i s m" and n: "n = self_id m"
        using assms(3) t Some by (auto simp: merge_tuple_def is_self_def)
      have "verdict m' k = verdict m k"
        unfolding m' verdict_def using assms(1) by (simp add: refute_liveness)
      moreover have "\<not> names k t"
        using assms(1) t Some n by (auto simp: names_def)
      ultimately show ?thesis by (auto simp: m' refute_liveness)
    next
      case False
      obtain r1 m1 where one: "merge_member n i s (r, m) = (r1, m1)" by (rule prod.exhaust)
      have m': "m' = m1" using assms(3) t Some False one by (simp add: merge_tuple_def)
      have "names k t \<longleftrightarrow> k = n" "claims t = Some (i, state_rank s)"
        using t Some by (auto simp: names_def claims_def)
      moreover note merge_member_verdict [OF assms(2) one]
      ultimately show ?thesis by (simp add: m')
    qed
  qed
  then show "verdict m' k = (if names k t then max (verdict m k) (claims t) else verdict m k)"
    and "self_id m' = self_id m" and "fmdom (reaped m') |\<subseteq>| fmdom (reaped m)"
    by simp_all
qed

section \<open>Rounds\<close>

definition heard :: "nodeid \<Rightarrow> member_tuple list \<Rightarrow> (u64 \<times> nat) option \<Rightarrow> (u64 \<times> nat) option" where
  "heard n ts start = fold max (map claims (filter (names n) ts)) start"

lemma fold_merge_tuple_verdict:
  assumes "k \<noteq> self_id m" "k |\<notin>| fmdom (reaped m)" "fold (merge_tuple sender) ts (r, c, m) = (r', c', m')"
  shows "verdict m' k = heard k ts (verdict m k) \<and> self_id m' = self_id m \<and>
    fmdom (reaped m') |\<subseteq>| fmdom (reaped m)"
  using assms
proof (induction ts arbitrary: r c m)
  case Nil
  then show ?case by (simp add: heard_def)
next
  case (Cons t ts)
  obtain r1 c1 m1 where one: "merge_tuple sender t (r, c, m) = (r1, c1, m1)"
    by (rule prod_cases3)
  note step = merge_tuple_verdict [OF Cons.prems(1,2) one]
  have "k \<noteq> self_id m1" "k |\<notin>| fmdom (reaped m1)"
    using Cons.prems(1,2) step(2,3) by (simp, blast)
  moreover have "fold (merge_tuple sender) ts (r1, c1, m1) = (r', c', m')"
    using Cons.prems(3) one by simp
  ultimately have "verdict m' k = heard k ts (verdict m1 k) \<and> self_id m' = self_id m1 \<and>
      fmdom (reaped m') |\<subseteq>| fmdom (reaped m1)"
    by (rule Cons.IH)
  with step show ?case by (auto simp: heard_def max.commute)
qed

lemma record_claims_liveness:
  "liveness (snd (fold (record_claim s) ns rm)) = liveness (snd rm) \<and>
   self_id (snd (fold (record_claim s) ns rm)) = self_id (snd rm) \<and>
   reaped (snd (fold (record_claim s) ns rm)) = reaped (snd rm)"
proof (induction ns arbitrary: rm)
  case (Cons n ns)
  have "liveness (snd (record_claim s n rm)) = liveness (snd rm) \<and>
      self_id (snd (record_claim s n rm)) = self_id (snd rm) \<and>
      reaped (snd (record_claim s n rm)) = reaped (snd rm)"
    by (cases rm) (simp add: record_claim_def add_verifier_def Let_def)
  with Cons show ?case by simp
qed simp

lemma merge_liveness_fields:
  assumes "fold (merge_tuple sender) ts (False, [], m) = (r, c, m1)"
  shows "liveness (merge_liveness sender ts m) = liveness m1"
    and "self_id (merge_liveness sender ts m) = self_id m1"
    and "reaped (merge_liveness sender ts m) = reaped m1"
  using assms record_claims_liveness [of sender c "(r, m1)"]
  by (auto simp: merge_liveness_def split: prod.split)

lemma merge_liveness_verdict:
  assumes "k \<noteq> self_id m" "k |\<notin>| fmdom (reaped m)"
  shows "verdict (merge_liveness sender ts m) k = heard k ts (verdict m k)"
    and "self_id (merge_liveness sender ts m) = self_id m"
    and "k |\<notin>| fmdom (reaped (merge_liveness sender ts m))"
proof -
  obtain r c m1 where one: "fold (merge_tuple sender) ts (False, [], m) = (r, c, m1)"
    by (rule prod_cases3)
  note f = fold_merge_tuple_verdict [OF assms one] and g = merge_liveness_fields [OF one]
  from f g show "verdict (merge_liveness sender ts m) k = heard k ts (verdict m k)"
    by (simp add: verdict_def)
  from f g assms(2) show "self_id (merge_liveness sender ts m) = self_id m"
    and "k |\<notin>| fmdom (reaped (merge_liveness sender ts m))"
    by auto
qed

lemma heard_append: "heard n (xs @ ys) v = heard n ys (heard n xs v)"
  by (simp add: heard_def)

lemma gossip_rounds_verdict:
  assumes "k \<noteq> self_id m" "k |\<notin>| fmdom (reaped m)"
  shows "verdict (gossip_rounds rs m) k = heard k (concat (map snd rs)) (verdict m k) \<and>
    self_id (gossip_rounds rs m) = self_id m"
  using assms
proof (induction rs arbitrary: m)
  case Nil
  then show ?case by (simp add: gossip_rounds_def heard_def)
next
  case (Cons x rs)
  obtain s ts where x: "x = (s, ts)" by (cases x)
  note step = merge_liveness_verdict [OF Cons.prems, of s ts]
  have "k \<noteq> self_id (merge_liveness s ts m)" using Cons.prems(1) step(2) by simp
  from Cons.IH [OF this step(3)] step x show ?case by (simp add: gossip_rounds_def heard_append)
qed

interpretation verdicts: idempotent_steps "max :: (u64 \<times> nat) option \<Rightarrow> _" "\<lambda>_. True" "\<lambda>_. True"
  by unfold_locales (auto simp: max_def)

lemma heard_cong: "set ts = set us \<Longrightarrow> heard n ts v = heard n us v"
  unfolding heard_def by (rule verdicts.fold_same_set) (auto simp: list_all_iff)

lemma roster_liveness: "membership_ok m \<Longrightarrow> is_member m n \<longleftrightarrow> verdict m n \<noteq> None"
  by (auto simp: membership_ok_def roster_ok_def is_member_def verdict_def fmlookup_dom_iff)

lemma gossip_rounds_ok: "membership_ok m \<Longrightarrow> membership_ok (gossip_rounds rs m)"
  by (induction rs arbitrary: m) (auto simp: gossip_rounds_def merge_liveness_ok)

section \<open>A member that stops answering\<close>

lemma unat_sat_inc: "unat (saturating_add (a :: u32) 1) = min (unat a + 1) (2 ^ 32 - 1)"
  by (simp add: unat_saturating_add)

lemma probe_failed_dead: "ml_state l = Dead \<Longrightarrow> probe_failed l = l"
  by (simp add: probe_failed_def)

lemma probe_failed_step:
  assumes "ml_state l \<noteq> Dead" "k \<le> unat (failed_probes l)" "k < 6"
  shows "if k = 5 then ml_state (probe_failed l) = Dead else Suc k \<le> unat (failed_probes (probe_failed l))"
proof -
  have "Suc k \<le> unat (saturating_add (failed_probes l) 1)"
    using assms(2,3) unfolding unat_sat_inc by simp
  with assms(1) show ?thesis
    by (auto simp: probe_failed_def Let_def DEAD_AFTER_FAILURES_def word_le_nat_alt)
qed

lemma probes_kill: "ml_state ((probe_failed ^^ 6) l) = Dead"
proof -
  have "ml_state ((probe_failed ^^ k) l) = Dead \<or> k \<le> unat (failed_probes ((probe_failed ^^ k) l)) \<and> k < 6"
    if "k \<le> 6" for k
    using that
  proof (induction k)
    case (Suc k)
    let ?l = "(probe_failed ^^ k) l"
    show ?case
    proof (cases "ml_state ?l = Dead")
      case True
      then show ?thesis by (simp add: probe_failed_dead)
    next
      case False
      with Suc have k: "k \<le> unat (failed_probes ?l)" "k < 6" by auto
      have "(probe_failed ^^ Suc k) l = probe_failed ?l" by simp
      then show ?thesis
        using probe_failed_step [OF False k] Suc.prems by (cases "k = 5") (simp_all only:, auto)
    qed
  qed simp
  from this [of 6] show ?thesis by simp
qed

lemma funpow_fold: "(f ^^ k) x = fold (\<lambda>_. f) (replicate k y) x"
  by (induction k arbitrary: x) (simp_all add: funpow_swap1)

lemma unreachable_probes:
  assumes "n \<noteq> self_id m" "fmlookup (liveness m) n = Some l"
  shows "fold on_event (replicate k (EvUnreachable n)) m =
    m\<lparr>liveness := fmupd n ((probe_failed ^^ k) l) (liveness m)\<rparr>"
  using assms
proof (induction k arbitrary: m l)
  case 0
  then have "fmupd n l (liveness m) = liveness m" by (intro fmap_ext) auto
  then show ?case by simp
next
  case (Suc k)
  let ?m = "m\<lparr>liveness := fmupd n (probe_failed l) (liveness m)\<rparr>"
  have "on_event (EvUnreachable n) m = ?m"
    using Suc.prems by (simp add: note_gossip_unreachable_def is_self_def)
  with Suc.IH [of ?m "probe_failed l"] Suc.prems show ?case
    by (simp add: funpow_swap1)
qed

text \<open>One reap round, from the view of one member.\<close>

lemma fold_reap_one_fields:
  "fmlookup (liveness (fold reap_one ns m)) n = (if n \<in> set ns then None else fmlookup (liveness m) n)"
  "n |\<in>| fmdom (addrs (fold reap_one ns m)) \<longleftrightarrow> n \<notin> set ns \<and> n |\<in>| fmdom (addrs m)"
  "fmlookup (reaped (fold reap_one ns m)) n = (if n \<in> set ns then Some 0 else fmlookup (reaped m) n)"
  "self_id (fold reap_one ns m) = self_id m"
  by (induction ns arbitrary: m) (auto simp: reap_one_def)

lemma reap_dead_view:
  fixes m :: membership and n :: nodeid
  defines "m' \<equiv> snd (reap_dead m)"
  defines "due \<equiv> \<exists>l. fmlookup (liveness m) n = Some l \<and> reap_due (self_id m) (n, l)"
  shows "self_id m' = self_id m"
    and "due \<Longrightarrow> \<not> is_member m' n \<and> fmlookup (reaped m') n = Some 0"
    and "\<not> due \<Longrightarrow> is_member m' n = is_member m n \<and>
      fmlookup (liveness m') n = map_option (age_dead (self_id m) n) (fmlookup (liveness m) n) \<and>
      fmlookup (reaped m') n = fmlookup (age_tombstones (reaped m)) n"
proof -
  let ?due = "map fst (filter (reap_due (self_id m)) (sorted_list_of_fmap (liveness m)))"
  let ?m1 = "m\<lparr>reaped := age_tombstones (reaped m),
    liveness := fmmap_keys (age_dead (self_id m)) (liveness m)\<rparr>"
  have due: "n \<in> set ?due \<longleftrightarrow> due"
    by (force simp: due_def sorted_list_of_fmap_def image_iff fmlookup_dom_iff)
  have fields: "self_id m' = self_id (fold reap_one ?due ?m1)" "addrs m' = addrs (fold reap_one ?due ?m1)"
    "liveness m' = liveness (fold reap_one ?due ?m1)" "reaped m' = reaped (fold reap_one ?due ?m1)"
    by (simp_all add: m'_def reap_dead_def Let_def)
  show "self_id m' = self_id m" unfolding fields fold_reap_one_fields by simp
  show "due \<Longrightarrow> \<not> is_member m' n \<and> fmlookup (reaped m') n = Some 0"
    unfolding fields is_member_def fold_reap_one_fields due by simp
  show "\<not> due \<Longrightarrow> is_member m' n = is_member m n \<and>
      fmlookup (liveness m') n = map_option (age_dead (self_id m) n) (fmlookup (liveness m) n) \<and>
      fmlookup (reaped m') n = fmlookup (age_tombstones (reaped m)) n"
    unfolding fields is_member_def fold_reap_one_fields due by simp
qed

definition dying :: "membership \<Rightarrow> nodeid \<Rightarrow> nat \<Rightarrow> bool" where
  "dying m n k \<longleftrightarrow> is_member m n \<and>
     (\<exists>l. fmlookup (liveness m) n = Some l \<and> ml_state l = Dead \<and> k \<le> unat (dead_ticks l))"

definition buried :: "membership \<Rightarrow> nodeid \<Rightarrow> nat \<Rightarrow> bool" where
  "buried m n k \<longleftrightarrow> \<not> is_member m n \<and> fmlookup (liveness m) n = None \<and>
     (\<exists>age. fmlookup (reaped m) n = Some age \<and> unat age \<le> k)"

lemma reap_dying:
  assumes "membership_ok m" "n \<noteq> self_id m" "dying m n k"
  shows "buried (snd (reap_dead m)) n 0 \<or> k + 1 < 30 \<and> dying (snd (reap_dead m)) n (k + 1)"
proof -
  obtain l where l: "fmlookup (liveness m) n = Some l" "ml_state l = Dead" "k \<le> unat (dead_ticks l)"
    using assms(3) by (auto simp: dying_def)
  have ok: "membership_ok (snd (reap_dead m))" by (rule reap_dead_ok [OF assms(1)])
  show ?thesis
  proof (cases "reap_due (self_id m) (n, l)")
    case True
    with reap_dead_view(2) [of m n] l(1) have "\<not> is_member (snd (reap_dead m)) n"
        "fmlookup (reaped (snd (reap_dead m))) n = Some 0" by auto
    with membership_okD [OF ok] show ?thesis
      by (auto simp: buried_def roster_ok_def is_member_def fmdom_notD)
  next
    case False
    with assms(2) l(2) have "unat (saturating_add (dead_ticks l) 1) < 30"
      by (simp add: reap_due_def REAP_AFTER_DEAD_TICKS_def word_le_nat_alt)
    then have "unat (dead_ticks l) + 1 < 30" "unat (saturating_add (dead_ticks l) 1) = unat (dead_ticks l) + 1"
      unfolding unat_sat_inc by simp_all
    with False reap_dead_view(3) [of m n] l assms(2,3) show ?thesis
      by (auto simp: dying_def age_dead_def)
  qed
qed

lemma unat_inc_le: "unat (a + 1) \<le> Suc (unat a)" for a :: u32
  by (simp add: unat_word_ariths)

lemma age_tombstones_lookup:
  "fmlookup (age_tombstones r) n = (case fmlookup r n of None \<Rightarrow> None
     | Some age \<Rightarrow> if unat age + 1 < 300 then Some (age + 1) else None)"
proof (cases "fmlookup r n")
  case (Some age)
  have "saturating_add age 1 < (300 :: u32) \<longleftrightarrow> unat age + 1 < 300"
    by (auto simp: word_less_nat_alt unat_sat_inc min_def)
  moreover have "saturating_add age 1 = age + 1" if "unat age + 1 < 300"
  proof -
    have "unat (age + 1) = unat age + 1" using that by (simp add: unat_plus_simple [THEN iffD1] no_olen_add_nat unat_add_lem [THEN iffD1])
    then have "unat (saturating_add age 1) = unat (age + 1)" using that by (simp add: unat_sat_inc)
    then show ?thesis by (rule word_unat_eq_iff [THEN iffD2])
  qed
  ultimately show ?thesis using Some by (simp add: age_tombstones_def TOMBSTONE_RETENTION_TICKS_def)
qed (simp add: age_tombstones_def)


text \<open>The rounds after.\<close>

lemma no_reap_when_gone:
  assumes "membership_ok m" "\<not> is_member m n"
  shows "\<not> is_member (snd (reap_dead m)) n"
    and "fmlookup (reaped (snd (reap_dead m))) n = fmlookup (age_tombstones (reaped m)) n"
proof -
  have "fmlookup (liveness m) n = None"
    using assms by (auto simp: membership_ok_def roster_ok_def is_member_def fmdom_notD)
  with reap_dead_view(3) [of m n] assms(2)
  show "\<not> is_member (snd (reap_dead m)) n"
    and "fmlookup (reaped (snd (reap_dead m))) n = fmlookup (age_tombstones (reaped m)) n" by simp_all
qed

lemma reaps_gone:
  assumes "membership_ok m" "\<not> is_member m n"
  shows "\<not> is_member (fold on_event (replicate k EvReap) m) n"
  using assms
  by (induction k arbitrary: m) (simp_all add: reap_dead_ok no_reap_when_gone)

lemma reaps_buried:
  assumes "membership_ok m" "buried m n k"
  shows "j + k < 300 \<Longrightarrow> buried (fold on_event (replicate j EvReap) m) n (j + k)"
  using assms
proof (induction j arbitrary: m k)
  case (Suc j)
  then obtain age where age: "fmlookup (reaped m) n = Some age" "unat age \<le> k" "\<not> is_member m n"
    by (auto simp: buried_def)
  have ok: "membership_ok (snd (reap_dead m))" by (rule reap_dead_ok [OF Suc.prems(2)])
  note gone = no_reap_when_gone [OF Suc.prems(2) age(3)]
  from gone(1) membership_okD [OF ok] have "fmlookup (liveness (snd (reap_dead m))) n = None"
    by (auto simp: roster_ok_def is_member_def fmdom_notD)
  moreover have "unat (age + 1) \<le> Suc k" using unat_inc_le [of age] age(2) by simp
  ultimately have "buried (snd (reap_dead m)) n (Suc k)"
    using gone age Suc.prems(1) by (simp add: buried_def age_tombstones_lookup)
  with Suc.IH [of "Suc k" "snd (reap_dead m)"] Suc.prems(1) ok show ?case by simp
qed simp


lemma self_id_on_event_reap [simp]: "self_id (snd (reap_dead m)) = self_id m"
  by (rule reap_dead_view)

lemma reaps_dying:
  assumes "membership_ok m" "n \<noteq> self_id m" "dying m n k" "k + j = 30" "k < 30"
  shows "\<exists>i \<le> j. buried (fold on_event (replicate i EvReap) m) n 0"
  using assms
proof (induction j arbitrary: m k)
  case 0
  then show ?case by simp
next
  case (Suc j)
  have ok: "membership_ok (snd (reap_dead m))" by (rule reap_dead_ok [OF Suc.prems(1)])
  consider "buried (snd (reap_dead m)) n 0" | "dying (snd (reap_dead m)) n (k + 1)" "k + 1 < 30"
    using reap_dying [OF Suc.prems(1-3)] by blast
  then show ?case
  proof cases
    case 1
    then show ?thesis by (intro exI [of _ "Suc 0"]) simp
  next
    case 2
    with Suc.IH [of "snd (reap_dead m)" "k + 1"] ok Suc.prems(2,4)
    obtain i where "i \<le> j" "buried (fold on_event (replicate i EvReap) (snd (reap_dead m))) n 0" by auto
    then show ?thesis by (intro exI [of _ "Suc i"]) simp
  qed
qed


lemma reaps_ok [simp]: "membership_ok m \<Longrightarrow> membership_ok (fold on_event es m)"
  by (rule run_events_ok)

lemma reaps_forget:
  assumes "membership_ok m" "\<not> is_member m n" "\<And>age. fmlookup (reaped m) n = Some age \<Longrightarrow> k \<le> unat age"
    and "fmlookup (reaped (fold on_event (replicate j EvReap) m)) n = Some age"
  shows "k + j \<le> unat age"
  using assms
proof (induction j arbitrary: m k)
  case (Suc j)
  note gone = no_reap_when_gone [OF Suc.prems(1,2)]
  have "Suc k \<le> unat age'" if "fmlookup (reaped (snd (reap_dead m))) n = Some age'" for age'
  proof -
    from that gone(2) obtain age where age: "fmlookup (reaped m) n = Some age" "unat age + 1 < 300" "age' = age + 1"
      by (auto simp: age_tombstones_lookup split: option.splits if_splits)
    then have "unat age' = Suc (unat age)"
      by (simp add: unat_plus_simple [THEN iffD1] no_olen_add_nat)
    with Suc.prems(3) [OF age(1)] show ?thesis by simp
  qed
  from Suc.IH [OF reap_dead_ok [OF Suc.prems(1)] gone(1) this] Suc.prems(4) show ?case by simp
qed simp

lemma tombstone_expires:
  assumes "membership_ok m" "\<not> is_member m n"
  shows "\<not> is_tombstoned (fold on_event (replicate 300 EvReap) m) n"
proof -
  define m1 where "m1 = fold on_event (replicate 299 EvReap) m"
  have "fold on_event (replicate 300 EvReap) m = fold on_event (replicate 299 EvReap @ [EvReap]) m"
    by (simp only: replicate_append_same flip: replicate_Suc) simp
  then have last: "fold on_event (replicate 300 EvReap) m = snd (reap_dead m1)"
    by (simp add: m1_def)
  have m1: "membership_ok m1" "\<not> is_member m1 n"
    unfolding m1_def by (rule run_events_ok [OF assms(1)], rule reaps_gone [OF assms])
  have "299 \<le> unat age" if "fmlookup (reaped m1) n = Some age" for age
    using reaps_forget [OF assms, of 0 299 age] that by (simp add: m1_def)
  then have "fmlookup (reaped (snd (reap_dead m1))) n = None"
    unfolding no_reap_when_gone(2) [OF m1] by (auto simp: age_tombstones_lookup split: option.split)
  then show ?thesis unfolding last is_tombstoned_def by (simp add: fmlookup_dom_iff)
qed

lemma replicas_are_members:
  assumes "membership_ok m" "n \<in> set (replicas_for m r)"
  shows "is_member m n"
proof -
  have "n \<in> set (cluster_nodes (placed m))"
    using assms(2) by (auto simp: replicas_for_def replicas_ranking dest: in_set_takeD)
  then have "n |\<in>| adopt_rounds m (configured m)"
    using membership_ok_ring [OF assms(1)] by (auto split: if_splits)
  then show ?thesis
    using adopt_rounds_within [of m "configured m"] membership_okD [OF assms(1)]
    by (auto simp: roster_ok_def is_member_def)
qed

lemma left_behind:
  assumes "membership_ok m" and "is_member m n" and "n \<noteq> self_id m"
  shows "is_tombstoned (fold on_event (replicate 6 (EvUnreachable n) @ replicate 30 EvReap) m) n"
    and "\<not> is_member (fold on_event (replicate 6 (EvUnreachable n) @ replicate 30 EvReap) m) n"
proof -
  let ?m = "fold on_event (replicate 6 (EvUnreachable n) @ replicate 30 EvReap) m"
  have "n |\<in>| fmdom (liveness m)"
    using assms(1,2) by (simp add: membership_ok_def roster_ok_def is_member_def)
  then obtain l where l: "fmlookup (liveness m) n = Some l" by (auto simp: fmlookup_dom_iff)
  define d where "d = fold on_event (replicate 6 (EvUnreachable n)) m"
  have d: "d = m\<lparr>liveness := fmupd n ((probe_failed ^^ 6) l) (liveness m)\<rparr>"
    unfolding d_def by (rule unreachable_probes [OF assms(3) l])
  have ok: "membership_ok d" unfolding d_def by (rule run_events_ok [OF assms(1)])
  have "dying d n 0" using assms(2) probes_kill [of l] by (simp add: d dying_def is_member_def)
  with reaps_dying [OF ok, of n 0 30] assms(3) d
  obtain i where i: "i \<le> 30" "buried (fold on_event (replicate i EvReap) d) n 0" by auto
  have "replicate 30 EvReap = replicate i EvReap @ replicate (30 - i) EvReap"
    using i(1) by (simp flip: replicate_add)
  then have m': "?m = fold on_event (replicate (30 - i) EvReap) (fold on_event (replicate i EvReap) d)"
    unfolding fold_append d_def comp_apply by simp
  have "buried ?m n (30 - i + 0)"
    unfolding m' using i by (intro reaps_buried run_events_ok [OF ok]) simp_all
  then show "is_tombstoned ?m n" "\<not> is_member ?m n"
    by (auto simp: buried_def is_tombstoned_def fmlookup_dom_iff)
qed

text \<open>C14. A member that stops answering leaves. On a well-formed view, six failed probes of a peer
  and thirty reap rounds, with no word of it in between, take it off the roster and out of every
  room's replicas and leave a tombstone; three hundred rounds more forget even that, and it can join
  anew.\<close>
theorem dead_member_reaped:
  assumes "membership_ok m" and "is_member m n" and "n \<noteq> self_id m"
    and "m' = fold on_event (replicate 6 (EvUnreachable n) @ replicate 30 EvReap) m"
  shows "\<not> is_member m' n \<and> is_tombstoned m' n \<and> (\<forall>r. n \<notin> set (replicas_for m' r)) \<and>
    \<not> is_tombstoned (fold on_event (replicate 300 EvReap) m') n"
proof -
  have gone: "\<not> is_member m' n" "is_tombstoned m' n"
    unfolding assms(4) by (rule left_behind [OF assms(1-3)])+
  have ok': "membership_ok m'" unfolding assms(4) by (rule run_events_ok [OF assms(1)])
  show ?thesis
    using gone tombstone_expires [OF ok' gone(1)] replicas_are_members [OF ok'] by blast
qed

lemma dead_member_reaped_witness:
  "is_tombstoned (fold on_event (replicate 6 (EvUnreachable [121]) @ replicate 30 EvReap)
    (membership_new [122] [[121]] 2)) [121]"
proof -
  have "is_member (membership_new [122] [[121]] 2) [121]"
    "[121] \<noteq> self_id (membership_new [122] [[121]] 2)"
    by (simp_all add: membership_new_def Let_def is_member_def)
  from dead_member_reaped [OF membership_new_ok this refl] show ?thesis by blast
qed

section \<open>Gossip converges\<close>

text \<open>C12. Gossip is order independent. Two runs of rounds that bring the same tuples, whoever sends
  them and however often and in whatever order, leave the same word of every member but the node
  itself that is not under a tombstone: whether it is a member, its incarnation and its state.\<close>
theorem gossip_order_independent:
  assumes "membership_ok m" and "n \<noteq> self_id m" and "\<not> is_tombstoned m n"
    and "set (concat (map snd rs)) = set (concat (map snd qs))"
  shows "is_member (gossip_rounds rs m) n = is_member (gossip_rounds qs m) n \<and>
    incarnation_of (gossip_rounds rs m) n = incarnation_of (gossip_rounds qs m) n \<and>
    gossip_state (gossip_rounds rs m) n = gossip_state (gossip_rounds qs m) n"
proof -
  have out: "n |\<notin>| fmdom (reaped m)" using assms(3) by (simp add: is_tombstoned_def)
  note r = gossip_rounds_verdict [OF assms(2) out, of rs]
    and q = gossip_rounds_verdict [OF assms(2) out, of qs]
  have same: "verdict (gossip_rounds rs m) n = verdict (gossip_rounds qs m) n"
    using r q heard_cong [OF assms(4)] by simp
  then show ?thesis
    using r q assms(2) roster_liveness [OF gossip_rounds_ok [OF assms(1)]]
    by (simp add: incarnation_verdict [OF same] gossip_state_verdict [OF _ same])
qed

lemma gossip_order_independent_witness:
  "gossip_state (gossip_rounds [([121], [([120], [120], 1, Suspect, False)]),
      ([121], [([120], [120], 1, Dead, False)])] (membership_new [122] [[121]] 2)) [120] =
    gossip_state (gossip_rounds [([120], [([120], [120], 1, Dead, False), ([120], [120], 1, Suspect, False)])]
      (membership_new [122] [[121]] 2)) [120]"
proof -
  have "[120] \<noteq> self_id (membership_new [122] [[121]] 2)"
    and "\<not> is_tombstoned (membership_new [122] [[121]] 2) [120]"
    by (simp_all add: membership_new_def Let_def is_tombstoned_def)
  from gossip_order_independent [OF membership_new_ok this] show ?thesis by auto
qed

section \<open>Refutation\<close>

definition self_incarnation :: "membership \<Rightarrow> u64" where
  "self_incarnation m = incarnation_of m (self_id m)"

lemma saturating_succ_above: "r < - 1 \<Longrightarrow> r < saturating_add (max r a) 1" for r a :: u64
  by (auto simp: word_less_nat_alt word_le_nat_alt unat_saturating_add max_def unsigned_minus_1_eq_mask
      mask_eq_exp_minus_1)

lemma saturating_succ_ge: "a \<le> saturating_add (max r a) 1" for r a :: u64
  using unat_lt_pow [of a] by (auto simp: word_le_nat_alt unat_saturating_add max_def)

definition self_tracked :: "membership \<Rightarrow> bool" where
  "self_tracked m \<longleftrightarrow> self_id m |\<in>| fmdom (liveness m)"

text \<open>What hearing of itself does to a node: its incarnation never falls, and passes an accusation's.\<close>

definition answers :: "member_tuple \<Rightarrow> membership \<Rightarrow> membership \<Rightarrow> bool" where
  "answers = (\<lambda>(node, a, i, s, v) m m'. node_canonical node = Some (self_id m) \<and> s \<noteq> Alive \<and> i < - 1 \<longrightarrow>
     i < self_incarnation m')"

definition outgrows :: "membership \<Rightarrow> membership \<Rightarrow> bool" where
  "outgrows m m' \<longleftrightarrow> self_id m' = self_id m \<and> self_tracked m' \<and> self_incarnation m \<le> self_incarnation m'"

lemma refute_outgrows:
  assumes "self_tracked m"
  shows "outgrows m (refute_if_stale i s m)"
    and "s \<noteq> Alive \<Longrightarrow> i < - 1 \<Longrightarrow> i < self_incarnation (refute_if_stale i s m)"
proof -
  obtain me where me: "fmlookup (liveness m) (self_id m) = Some me"
    using assms by (auto simp: self_tracked_def fmlookup_dom_iff)
  then show "outgrows m (refute_if_stale i s m)"
    by (simp add: outgrows_def self_tracked_def refute_if_stale_def self_incarnation_def incarnation_of_def
        saturating_succ_ge fmdomI)
  show "i < self_incarnation (refute_if_stale i s m)" if "s \<noteq> Alive" "i < - 1"
    using me that
    by (auto simp: refute_if_stale_def self_incarnation_def incarnation_of_def saturating_succ_above)
qed

lemma merge_member_self:
  assumes "n \<noteq> self_id m" "merge_member n i s (r, m) = (r', m')"
  shows "self_id m' = self_id m" and "fmlookup (liveness m') (self_id m) = fmlookup (liveness m) (self_id m)"
  using assms by (auto simp: merge_member_def learn_def Let_def split: if_splits option.splits)

lemma merge_tuple_outgrows:
  assumes "self_tracked m" "merge_tuple sender t (r, c, m) = (r', c', m')"
  shows "outgrows m m'" and "answers t m m'"
proof -
  obtain node a i s v where t: "t = (node, a, i, s, v)" by (cases t)
  have "outgrows m m' \<and> answers t m m'"
  proof (cases "node_canonical node = Some (self_id m)")
    case True
    then have "m' = refute_if_stale i s m"
      using assms(2) t by (simp add: merge_tuple_def is_self_def)
    with refute_outgrows [OF assms(1)] t show ?thesis by (auto simp: answers_def)
  next
    case False
    then have "self_id m' = self_id m \<and>
        fmlookup (liveness m') (self_id m) = fmlookup (liveness m) (self_id m)"
      using assms(2) t merge_member_self
      by (fastforce simp: merge_tuple_def is_self_def split: option.splits prod.splits)
    with assms(1) False t show ?thesis
      by (simp add: outgrows_def answers_def self_tracked_def self_incarnation_def incarnation_of_def
          fmlookup_dom_iff)
  qed
  then show "outgrows m m'" "answers t m m'" by simp_all
qed

lemma outgrows_trans: "outgrows a b \<Longrightarrow> outgrows b c \<Longrightarrow> outgrows a c"
  by (auto simp: outgrows_def)

lemma answers_mono: "answers t a b \<Longrightarrow> outgrows b c \<Longrightarrow> answers t a c"
  by (cases t) (auto simp: answers_def outgrows_def)

lemma fold_merge_tuple_outgrows:
  assumes "self_tracked m" "fold (merge_tuple sender) ts (r, c, m) = (r', c', m')"
  shows "outgrows m m' \<and> (\<forall>t \<in> set ts. answers t m m')"
  using assms
proof (induction ts arbitrary: r c m)
  case Nil
  then show ?case by (simp add: outgrows_def)
next
  case (Cons t ts)
  obtain r1 c1 m1 where one: "merge_tuple sender t (r, c, m) = (r1, c1, m1)"
    by (rule prod_cases3)
  note step = merge_tuple_outgrows [OF Cons.prems(1) one]
  have same: "answers u m1 m' \<Longrightarrow> answers u m m'" for u
    using step(1) by (cases u) (simp add: answers_def outgrows_def)
  have "outgrows m1 m' \<and> (\<forall>t \<in> set ts. answers t m1 m')"
    using step(1) Cons.prems(2) one by (intro Cons.IH) (simp_all add: outgrows_def)
  with step same show ?case by (auto intro: outgrows_trans answers_mono)
qed

lemma merge_liveness_outgrows:
  assumes "self_tracked m"
  shows "outgrows m (merge_liveness sender ts m)"
    and "t \<in> set ts \<Longrightarrow> answers t m (merge_liveness sender ts m)"
proof -
  obtain r c m1 where one: "fold (merge_tuple sender) ts (False, [], m) = (r, c, m1)"
    by (rule prod_cases3)
  note f = fold_merge_tuple_outgrows [OF assms one] and g = merge_liveness_fields [OF one]
  from f g show "outgrows m (merge_liveness sender ts m)"
    by (auto simp: outgrows_def self_tracked_def self_incarnation_def incarnation_of_def)
  from f g show "answers t m (merge_liveness sender ts m)" if "t \<in> set ts"
    using that by (cases t) (fastforce simp: answers_def outgrows_def self_incarnation_def incarnation_of_def)
qed

definition canonical_roster :: "membership \<Rightarrow> bool" where
  "canonical_roster m \<longleftrightarrow> list_all (\<lambda>n. node_canonical n = Some n) (roster m)"

lemma distinct_filter_eq: "distinct xs \<Longrightarrow> x \<in> set xs \<Longrightarrow> filter (\<lambda>y. y = x) xs = [x]"
  by (induction xs) (auto simp: filter_empty_conv)

lemma own_claim:
  assumes "canonical_roster m" "is_member m n"
  shows "map claims (filter (names n) (known_liveness m)) = [Some (incarnation_of m n, state_rank (gossip_state m n))]"
proof -
  have "names n (f k) \<longleftrightarrow> k = n" if "k \<in> set (roster m)" "f = (\<lambda>n. (n, case fmlookup (addrs m) n of
      Some a \<Rightarrow> a | None \<Rightarrow> n, incarnation_of m n, gossip_state m n, has_verified m (self_id m) n))" for k f
    using assms(1) that by (auto simp: canonical_roster_def list_all_iff names_def)
  then have "filter (names n \<circ> (\<lambda>n. (n, case fmlookup (addrs m) n of
      Some a \<Rightarrow> a | None \<Rightarrow> n, incarnation_of m n, gossip_state m n, has_verified m (self_id m) n))) (roster m) =
      filter (\<lambda>k. k = n) (roster m)"
    by (intro filter_cong) auto
  also have "\<dots> = [n]"
    using assms(2) by (intro distinct_filter_eq) (simp_all add: roster_def is_member_def sorted_list_of_fset.rep_eq)
  finally show ?thesis
    by (simp add: known_liveness_def filter_map claims_def)
qed

lemma canonical_roster_iff: "canonical_roster m \<longleftrightarrow> (\<forall>n. is_member m n \<longrightarrow> node_canonical n = Some n)"
  by (auto simp: canonical_roster_def list_all_iff roster_def is_member_def)

lemma merge_tuple_members:
  assumes "merge_tuple sender t (r, c, m) = (r', c', m')" "is_member m' k"
  shows "is_member m k \<or> names k t"
  using assms
  by (cases t) (auto simp: merge_tuple_def merge_member_def refute_if_stale_def learn_def names_def is_member_def
      Let_def split: option.splits if_splits prod.splits)

lemma merge_liveness_members:
  assumes "is_member (merge_liveness sender ts m) k"
  shows "is_member m k \<or> (\<exists>t \<in> set ts. names k t)"
proof -
  obtain r c m1 where one: "fold (merge_tuple sender) ts (False, [], m) = (r, c, m1)"
    by (rule prod_cases3)
  have "addrs (snd (fold (record_claim sender) ns rm)) = addrs (snd rm)" for ns rm
  proof (induction ns arbitrary: rm)
    case (Cons n ns)
    have "addrs (snd (record_claim sender n rm)) = addrs (snd rm)"
      by (cases rm) (simp add: record_claim_def add_verifier_def Let_def)
    with Cons show ?case by simp
  qed simp
  from this [of c "(r, m1)"] one assms have "is_member m1 k"
    by (auto simp: merge_liveness_def is_member_def split: prod.splits if_splits)
  moreover have "is_member m k \<or> (\<exists>t \<in> set ts. names k t)"
    if "fold (merge_tuple sender) ts (r0, c0, m) = (r, c, m1)" "is_member m1 k" for r0 c0
    using that
  proof (induction ts arbitrary: r0 c0 m)
    case (Cons t ts)
    obtain r2 c2 m2 where two: "merge_tuple sender t (r0, c0, m) = (r2, c2, m2)" by (rule prod_cases3)
    with Cons merge_tuple_members [OF two] show ?case by auto
  qed simp
  ultimately show ?thesis using one by blast
qed

lemma merge_known_canonical:
  assumes "canonical_roster a" "canonical_roster b"
  shows "canonical_roster (merge_liveness s (known_liveness b) a)"
  unfolding canonical_roster_iff
proof (intro allI impI)
  fix k assume "is_member (merge_liveness s (known_liveness b) a) k"
  then consider "is_member a k" | t where "t \<in> set (known_liveness b)" "names k t"
    using merge_liveness_members by blast
  then show "node_canonical k = Some k"
  proof cases
    case 1
    with assms(1) show ?thesis by (simp add: canonical_roster_iff)
  next
    case 2
    with assms(2) show ?thesis
      by (auto simp: canonical_roster_def list_all_iff known_liveness_def names_def)
  qed
qed


lemma new_roster: "is_member (membership_new self peers rf) n \<longleftrightarrow> n \<in> set (self # peers)"
  by (simp add: is_member_def membership_new_def Let_def fmdom_fmap_of_list fset_of_list_elem image_iff)


section \<open>Where gossip depends on the order, and where it is final\<close>

lemma fold_merge_tuple_self:
  "fold (merge_tuple sender) ts (r, c, m) = (r', c', m') \<Longrightarrow> self_id m' = self_id m"
proof (induction ts arbitrary: r c m)
  case (Cons t ts)
  obtain r1 c1 m1 where one: "merge_tuple sender t (r, c, m) = (r1, c1, m1)"
    by (rule prod_cases3)
  then have "self_id m1 = self_id m"
    by (cases t) (auto simp: merge_tuple_def refute_if_stale_def merge_member_def learn_def Let_def
        split: option.splits if_splits prod.splits)
  with Cons one show ?case by auto
qed simp

lemma heard_ge: "v \<le> heard n ts v"
proof (induction ts arbitrary: v)
  case (Cons t ts)
  from Cons [of "max (claims t) v"] Cons [of v] show ?case
    by (auto simp: heard_def)
qed (simp add: heard_def)

text \<open>The word at the incarnation ceiling is final. Once a node holds a peer suspect or dead at
  the greatest incarnation there is, no gossip brings it back to alive: the peer's own refutation
  saturates at the same incarnation, where the more suspicious state wins.\<close>
theorem ceiling_suspicion_final:
  assumes "n \<noteq> self_id m" and "\<not> is_tombstoned m n" and "is_member m n" and "membership_ok m"
    and "incarnation_of m n = - 1" and "gossip_state m n \<noteq> Alive"
  shows "gossip_state (gossip_rounds rs m) n \<noteq> Alive \<and> incarnation_of (gossip_rounds rs m) n = - 1"
proof -
  obtain k where k: "verdict m n = Some (- 1, state_rank k)" "k \<noteq> Alive"
    using assms roster_liveness [of m n]
    by (auto simp: verdict_def incarnation_of_def gossip_state_def is_self_def split: option.splits)
  have out: "n |\<notin>| fmdom (reaped m)" using assms(2) by (simp add: is_tombstoned_def)
  note g = gossip_rounds_verdict [OF assms(1) out, of rs]
  have "Some (- 1, state_rank k) \<le> verdict (gossip_rounds rs m) n"
    using g k(1) heard_ge [of "verdict m n" n "concat (map snd rs)"] by simp
  then obtain p where "verdict (gossip_rounds rs m) n = Some p" "(- 1, state_rank k) \<le> p"
    by (cases "verdict (gossip_rounds rs m) n") simp_all
  then obtain i s where v: "verdict (gossip_rounds rs m) n = Some (i, s)" "(- 1, state_rank k) \<le> (i, s)"
    by (cases p) simp
  then have "i = - 1" and s: "state_rank k \<le> s"
    by (auto simp: less_eq_prod_def word_order.extremum_unique)
  from k(2) have "0 < state_rank k" by (cases k) simp_all
  with s have "s \<noteq> 0" by simp
  with v(1) \<open>i = - 1\<close> g assms(1) show ?thesis
    by (auto simp: verdict_def gossip_state_def incarnation_of_def is_self_def)
qed

lemma ceiling_suspicion_final_witness:
  "gossip_state (gossip_rounds [([121], [([121], [121], - 1, Alive, True)])]
    (merge_liveness [120] [([121], [121], - 1, Suspect, False)] (membership_new [122] [[121]] 2))) [121] \<noteq> Alive"
proof -
  define m0 where "m0 = membership_new [122] [[121]] 2"
  let ?m = "merge_liveness [120] [([121], [121], - 1, Suspect, False)] m0"
  have f: "self_id m0 = [122]" "liveness m0 = fmap_of_list (map (\<lambda>n. (n, liveness_new 0 Alive)) [[122], [121]])"
    "reaped m0 = fmempty"
    by (simp_all add: m0_def membership_new_def Let_def)
  have ok: "membership_ok ?m" unfolding m0_def by (intro merge_liveness_ok membership_new_ok)
  have "names [121] ([121], [121], - 1, Suspect, False)" using letter_node [of 121] by (simp add: names_def letter_def)
  then have v: "verdict ?m [121] = Some (- 1, 1)" and m: "self_id ?m = [122]" "[121] |\<notin>| fmdom (reaped ?m)"
    using merge_liveness_verdict [of "[121]" m0 "[120]" "[([121], [121], - 1, Suspect, False)]"] f
      word_neq_0_conv [of "- 1 :: u64"]
    by (simp_all add: heard_def claims_def verdict_def liveness_new_def max_def)
  have "is_member ?m [121]" using roster_liveness [OF ok] v by simp
  moreover have "incarnation_of ?m [121] = - 1" "gossip_state ?m [121] \<noteq> Alive"
    using v m(1) by (auto simp: verdict_def gossip_state_def incarnation_of_def is_self_def)
  ultimately show ?thesis unfolding m0_def [symmetric]
    using ceiling_suspicion_final [of "[121]" ?m] ok m by (simp add: is_tombstoned_def)
qed

text \<open>A tombstone makes the order matter. Of a reaped member, a round that says it is alive and
  then that it is dead at a higher incarnation brings it back dead; the same two words in the other
  order bring it back alive, since the tombstone eats the word of its death.\<close>
theorem tombstone_order_matters:
  assumes "membership_ok m" and "is_tombstoned m n" and "node_canonical n = Some n" and "i < j"
  shows "gossip_state (merge_liveness s [(n, n, i, Alive, v), (n, n, j, Dead, v)] m) n = Dead \<and>
    gossip_state (merge_liveness s [(n, n, j, Dead, v), (n, n, i, Alive, v)] m) n = Alive"
proof -
  have r: "n |\<in>| fmdom (reaped m)" using assms(2) by (simp add: is_tombstoned_def)
  with assms(1) have self: "self_id m \<noteq> n" and fresh: "fmlookup (liveness m) n = None"
    by (auto simp: membership_ok_def roster_ok_def fmdom_notD)
  have verdict: "gossip_state (merge_liveness s ts m) n = x"
    if "fold (merge_tuple s) ts (False, [], m) = (r', c', m1)" "fmlookup (liveness m1) n = Some l" "ml_state l = x" for ts r' c' m1 l x
    using that merge_liveness_fields [OF that(1)] self fold_merge_tuple_self [OF that(1)]
    by (simp add: gossip_state_def is_self_def)
  note eval = merge_tuple_def assms(3) is_self_def self merge_member_def r fresh learn_def Let_def
    merge_known_def liveness_new_def assms(4)
  show ?thesis
    by (rule conjI; rule verdict) (simp add: eval | rule refl)+
qed

lemma tombstone_order_matters_witness:
  "gossip_state (merge_liveness [122] [([121], [121], 1, Dead, False), ([121], [121], 0, Alive, False)]
    (fold on_event (replicate 6 (EvUnreachable [121]) @ replicate 30 EvReap) (membership_new [122] [[121]] 2)))
    [121] = Alive"
proof -
  let ?m = "fold on_event (replicate 6 (EvUnreachable [121]) @ replicate 30 EvReap) (membership_new [122] [[121]] 2)"
  have "is_member (membership_new [122] [[121]] 2) [121]" "[121] \<noteq> self_id (membership_new [122] [[121]] 2)"
    by (simp_all add: new_roster) (simp add: membership_new_def Let_def)
  then have buried: "is_tombstoned ?m [121]" using left_behind membership_new_ok by blast
  have ok: "membership_ok ?m" by (intro run_events_ok membership_new_ok)
  from tombstone_order_matters [OF ok buried, of 0 1 "[122]" False] letter_node [of 121] show ?thesis
    by (simp add: letter_def)
qed

end
