(* ===== verification/Gossip_Round.thy ===== *)
theory Gossip_Round
  imports Membership_Gossip
begin

text \<open>
  \<^verbatim>\<open>gossip.rs\<close> without its sockets: an exchange of two views in one process, the choice of the peer
  and of the relays of a round, and the verdict a round carries back. The system entropy a choice
  draws is an argument.
\<close>

type_synonym gossip_tuple = "nodeid \<times> bytes \<times> u64 \<times> member_state \<times> bool"

definition INDIRECT_PROBE_COUNT :: nat where
  "INDIRECT_PROBE_COUNT = 3"

text \<open>The initiator pushes what the peer would take from the wire, and merges the reply.\<close>

definition exchange :: "membership \<times> membership \<Rightarrow> membership \<times> membership" where
  "exchange = (\<lambda>(initiator, peer).
     let pushed = filter (\<lambda>(n, a, _). is_member peer n \<or> (n = self_id initiator \<and> a = n))
                    (known_liveness initiator);
         peer' = merge_liveness (self_id initiator) pushed peer
     in (note_verified (self_id peer) (note_gossip_reachable (self_id peer)
           (merge_liveness (self_id peer) (known_liveness peer') initiator)), peer'))"

definition choose_peer :: "gossip_tuple list \<Rightarrow> nodeid \<Rightarrow> u64 \<Rightarrow> (nodeid \<times> bytes) option" where
  "choose_peer ms self drawn =
     (let peers = map (\<lambda>(n, a, _). (n, a)) (filter (\<lambda>(n, _). n \<noteq> self) ms)
      in if peers = [] then None else Some (peers ! unat (drawn mod word_of_nat (length peers))))"

definition swap_at :: "nat \<Rightarrow> nat \<Rightarrow> 'a list \<Rightarrow> 'a list" where
  "swap_at i j xs = xs[i := xs ! j, j := xs ! i]"

definition draw_step :: "(nat \<Rightarrow> u64) \<Rightarrow> nat \<Rightarrow> 'a list \<Rightarrow> 'a list" where
  "draw_step drawn i xs = swap_at i (i + unat (drawn i mod word_of_nat (length xs - i))) xs"

definition choose_relays ::
    "gossip_tuple list \<Rightarrow> nodeid \<Rightarrow> nodeid \<Rightarrow> nat \<Rightarrow> (nat \<Rightarrow> u64) \<Rightarrow> (nodeid \<times> bytes) list" where
  "choose_relays ms self probed k drawn =
     (let eligible = map (\<lambda>(n, a, _). (n, a))
            (filter (\<lambda>(n, _, _, s, _). n \<noteq> self \<and> n \<noteq> probed \<and> s \<noteq> Dead) ms);
          enough = min k (length eligible)
      in take enough (fold (draw_step drawn) [0..<enough] eligible))"

definition indirect_reachable :: "bool option list \<Rightarrow> bool" where
  "indirect_reachable results = list_ex (\<lambda>r. r = Some True) results"

definition probe_outcome :: "bool \<Rightarrow> bool option list \<Rightarrow> bool" where
  "probe_outcome direct indirect \<longleftrightarrow> direct \<or> indirect_reachable indirect"

datatype gossip_round_outcome = Direct | Relayed | Unreachable

definition outcome_of :: "bool \<Rightarrow> bool option list \<Rightarrow> gossip_round_outcome" where
  "outcome_of direct indirect =
     (case (direct, indirect_reachable indirect) of
        (True, _) \<Rightarrow> Direct | (False, True) \<Rightarrow> Relayed | (False, False) \<Rightarrow> Unreachable)"

definition reachable :: "gossip_round_outcome \<Rightarrow> bool" where
  "reachable v = (v \<noteq> Unreachable)"

section \<open>The draw of relays\<close>

lemma outcome_reachable: "reachable (outcome_of direct indirect) = probe_outcome direct indirect"
  by (simp add: reachable_def outcome_of_def probe_outcome_def split: bool.split)

lemma mset_swap_at: "i < length xs \<Longrightarrow> j < length xs \<Longrightarrow> mset (swap_at i j xs) = mset xs"
  unfolding swap_at_def by (rule mset_swap)

lemma draw_step_mset:
  assumes "i < length xs" "length xs < 2 ^ 64"
  shows "mset (draw_step drawn i xs) = mset xs"
proof -
  have "unat (word_of_nat (length xs - i) :: u64) = length xs - i"
    using assms by (simp add: unat_of_nat del: of_nat_diff)
  then have "unat (drawn i mod word_of_nat (length xs - i)) < length xs - i"
    using assms(1) by (simp add: unat_mod)
  with assms(1) show ?thesis unfolding draw_step_def by (intro mset_swap_at) auto
qed

lemma draws_mset:
  assumes "length xs < 2 ^ 64" "set is \<subseteq> {..<length xs}"
  shows "mset (fold (draw_step drawn) is xs) = mset xs"
  using assms
proof (induction "is" arbitrary: xs)
  case (Cons i "is")
  have one: "mset (draw_step drawn i xs) = mset xs" using Cons.prems by (intro draw_step_mset) auto
  then have "length (draw_step drawn i xs) = length xs" by (rule mset_eq_length)
  with Cons one show ?case by simp
qed simp

text \<open>The relays of an indirect probe. Whatever entropy is drawn, the relays asked are as many as
  asked for, or all that are eligible if they are fewer, each known member at most once, and none of
  them is the node itself, the probed member or a member held dead.\<close>
theorem relays_eligible:
  assumes "distinct (map fst ms)" "length ms < 2 ^ 64"
  shows "distinct (map fst (choose_relays ms self probed k drawn)) \<and>
    length (choose_relays ms self probed k drawn) =
      min k (length (filter (\<lambda>(n, _, _, s, _). n \<noteq> self \<and> n \<noteq> probed \<and> s \<noteq> Dead) ms)) \<and>
    (\<forall>(n, a) \<in> set (choose_relays ms self probed k drawn). n \<noteq> self \<and> n \<noteq> probed \<and>
      (\<exists>i s v. (n, a, i, s, v) \<in> set ms \<and> s \<noteq> Dead))"
proof -
  let ?es = "map (\<lambda>(n, a, _). (n, a)) (filter (\<lambda>(n, _, _, s, _). n \<noteq> self \<and> n \<noteq> probed \<and> s \<noteq> Dead) ms)"
  let ?k = "min k (length ?es)"
  let ?ys = "fold (draw_step drawn) [0..<?k] ?es"
  have "length ?es < 2 ^ 64" using le_less_trans [OF length_filter_le assms(2)] by simp
  then have perm: "mset ?ys = mset ?es" by (intro draws_mset) auto
  then have same: "set ?ys = set ?es" "length ?ys = length ?es"
    by (rule mset_eq_setD, rule mset_eq_length)
  have "map fst ?es = map fst (filter (\<lambda>(n, _, _, s, _). n \<noteq> self \<and> n \<noteq> probed \<and> s \<noteq> Dead) ms)"
    by auto
  then have "distinct (map fst ?es)" by (simp only: distinct_map_filter [OF assms(1)])
  moreover have "mset (map fst ?ys) = mset (map fst ?es)" by (simp only: mset_map perm)
  ultimately have "distinct (map fst ?ys)" using mset_eq_imp_distinct_iff by blast
  then have apart: "distinct (map fst (take ?k ?ys))" by (simp only: take_map [symmetric] distinct_take)
  have chosen: "choose_relays ms self probed k drawn = take ?k ?ys" by (simp only: choose_relays_def Let_def)
  have good: "n \<noteq> self \<and> n \<noteq> probed \<and> (\<exists>i s v. (n, a, i, s, v) \<in> set ms \<and> s \<noteq> Dead)" if "(n, a) \<in> set ?es" for n a
    using that by auto
  have "\<forall>x \<in> set (take ?k ?ys). x \<in> set ?es" using same(1) in_set_takeD by fast
  moreover have "length (take ?k ?ys) = ?k" by (simp only: length_take same(2) min.idem)
  moreover have "length ?es = length (filter (\<lambda>(n, _, _, s, _). n \<noteq> self \<and> n \<noteq> probed \<and> s \<noteq> Dead) ms)"
    by (rule length_map)
  ultimately have size: "length (take ?k ?ys) =
      min k (length (filter (\<lambda>(n, _, _, s, _). n \<noteq> self \<and> n \<noteq> probed \<and> s \<noteq> Dead) ms))"
    and from_es: "\<forall>x \<in> set (take ?k ?ys). x \<in> set ?es" by simp_all
  have "\<forall>(n, a) \<in> set (take ?k ?ys). n \<noteq> self \<and> n \<noteq> probed \<and> (\<exists>i s v. (n, a, i, s, v) \<in> set ms \<and> s \<noteq> Dead)"
  proof (intro ballI, rule case_prodI2)
    fix x n a
    assume "x \<in> set (take ?k ?ys)" "x = (n, a)"
    then have "(n, a) \<in> set ?es" using from_es by blast
    then show "n \<noteq> self \<and> n \<noteq> probed \<and> (\<exists>i s v. (n, a, i, s, v) \<in> set ms \<and> s \<noteq> Dead)" by (rule good)
  qed
  with apart size show ?thesis unfolding chosen by (intro conjI)
qed

lemma relays_eligible_witness:
  "choose_relays [([97], [97], 0, Alive, True), ([98], [98], 0, Dead, False), ([99], [99], 0, Suspect, False)]
    [97] [100] INDIRECT_PROBE_COUNT (\<lambda>_. 7) = [([99], [99])]"
proof -
  let ?ms = "[([97], [97], 0, Alive, True), ([98], [98], 0, Dead, False), ([99], [99], 0, Suspect, False)] ::
    gossip_tuple list"
  have "distinct (map fst ?ms)" "length ?ms < 2 ^ 64" by simp_all
  from relays_eligible [OF this, of "[97]" "[100]" INDIRECT_PROBE_COUNT "\<lambda>_. 7"] show ?thesis
    by (auto simp: INDIRECT_PROBE_COUNT_def length_Suc_conv)
qed

end
