(* ===== verification/Cluster.thy ===== *)
theory Cluster
  imports Leadership Gossip_Round
begin

text \<open>
  The cluster side of the server's \<^verbatim>\<open>registry.rs\<close>: how a node admits a peer, claims and fences the
  leadership of a room, mirrors its commits to the room's followers and catches them up, applies what
  a leader sends it, and holds back a client's acknowledgement until a majority of the room's
  replicas has the write.

  The redacted fan-out to the node's own subscribers, with the eviction of those a version lift has
  stranded, is an argument of the handlers that call it; it changes connections only. The store's
  best-effort record of the epochs is kept as written each time.
\<close>

type_synonym connid = u64

text \<open>What a node sends on a connection.\<close>

datatype outgoing =
    Accepted u32 u64
  | ReplicaAck room u64
  | PingAck bool
  | Gossip "gossip_tuple list"
  | OtherMessage bytes

record conn =
  outbox :: "outgoing list"
  peer :: "nodeid option"
  cert_hosts :: "bytes list option"

type_synonym conns = "(connid, conn) fmap"

record pending_ack =
  pa_room :: room
  pa_seq :: u64
  pa_conn :: connid
  pa_accepted :: outgoing

record 'd registry =
  rg_hub :: "'d hub"
  rg_conns :: conns
  rg_membership :: "membership option"
  cluster_secret :: "bytes option"
  require_peer_identity :: bool
  rg_replication :: replication
  rg_epochs :: leadership
  stored_epochs :: "(room, u64) fmap"
  room_apps :: "(room, bytes \<times> u32) fmap"
  pending_acks :: "pending_ack list"

definition push_to :: "connid \<Rightarrow> outgoing \<Rightarrow> conns \<Rightarrow> conns" where
  "push_to i m cs =
     (case fmlookup cs i of None \<Rightarrow> cs | Some c \<Rightarrow> fmupd i (c\<lparr>outbox := outbox c @ [m]\<rparr>) cs)"

text \<open>A registry over a loaded hub remembers the epochs the store carried.\<close>

definition from_hub :: "'d hub \<Rightarrow> 'd registry" where
  "from_hub h = \<lparr>rg_hub = h, rg_conns = fmempty, rg_membership = None, cluster_secret = None,
     require_peer_identity = False, rg_replication = replication_default,
     rg_epochs = fold (\<lambda>(r, e). observe r e) (sorted_list_of_fmap (loaded_epochs h)) leadership_default,
     stored_epochs = loaded_epochs h, room_apps = fmempty, pending_acks = []\<rparr>"

definition set_membership :: "membership \<Rightarrow> 'd registry \<Rightarrow> 'd registry" where
  "set_membership m g = g\<lparr>rg_membership := Some m\<rparr>"

definition set_cluster_secret :: "bytes \<Rightarrow> 'd registry \<Rightarrow> 'd registry" where
  "set_cluster_secret s g = g\<lparr>cluster_secret := (if s = [] then None else Some s)\<rparr>"

definition set_require_peer_identity :: "bool \<Rightarrow> 'd registry \<Rightarrow> 'd registry" where
  "set_require_peer_identity b g = g\<lparr>require_peer_identity := b\<rparr>"

definition set_peer_liveness :: "nodeid \<Rightarrow> bool \<Rightarrow> 'd registry \<Rightarrow> 'd registry" where
  "set_peer_liveness n live g =
     g\<lparr>rg_membership := map_option (if live then mark_node_live n else mark_node_down n) (rg_membership g)\<rparr>"

section \<open>Admission of peers\<close>

definition authenticate_peer :: "connid \<Rightarrow> bytes \<Rightarrow> bytes \<Rightarrow> 'd registry \<Rightarrow> bool \<times> 'd registry" where
  "authenticate_peer i claimed presented g =
     (case cluster_secret g of
        None \<Rightarrow> (False, g)
      | Some expected \<Rightarrow>
          if expected \<noteq> presented then (False, g)
          else case node_canonical claimed of
                 None \<Rightarrow> (False, g)
               | Some member \<Rightarrow>
                   (case fmlookup (rg_conns g) i of
                      None \<Rightarrow> (False, g)
                    | Some c \<Rightarrow>
                        if peer c \<noteq> None then (False, g)
                        else if (case cert_hosts c of
                                   None \<Rightarrow> require_peer_identity g
                                 | Some hosts \<Rightarrow> \<not> list_ex (\<lambda>h. cert_names_member h claimed) hosts)
                        then (False, g)
                        else (True, g\<lparr>rg_conns := fmupd i (c\<lparr>peer := Some member\<rparr>) (rg_conns g)\<rparr>)))"

definition peer_identity :: "'d registry \<Rightarrow> connid \<Rightarrow> nodeid option" where
  "peer_identity g i = (case fmlookup (rg_conns g) i of None \<Rightarrow> None | Some c \<Rightarrow> peer c)"

section \<open>Quorums and withheld acknowledgements\<close>

text \<open>A \<open>usize\<close> is a natural number below \<open>2^64\<close>; its maximum is the threshold of a stranded node.\<close>

definition quorum :: "'d registry \<Rightarrow> room \<Rightarrow> nat \<times> nodeid list" where
  "quorum g r =
     (case rg_membership g of
        None \<Rightarrow> (1, [])
      | Some m \<Rightarrow>
          if stranded m then (2 ^ 64 - 1, [])
          else (length (replicas_for m r) div 2 + 1, filter (\<lambda>n. \<not> is_self m n) (replicas_for m r)))"

definition quorum_met :: "'d registry \<Rightarrow> room \<Rightarrow> nat \<Rightarrow> nodeid list \<Rightarrow> u64 \<Rightarrow> bool" where
  "quorum_met g r majority followers q \<longleftrightarrow>
     majority \<le> 1 + length (filter (\<lambda>n. q \<le> watermark (rg_replication g) r n) followers)"

definition write_has_majority :: "'d registry \<Rightarrow> room \<Rightarrow> u64 \<Rightarrow> bool" where
  "write_has_majority g r q = (case quorum g r of (majority, followers) \<Rightarrow> quorum_met g r majority followers q)"

text \<open>The loop over the list with \<open>swap_remove\<close>: the last entry takes the place of a released one. What
  is released, in order, and what stays.\<close>

function release_loop :: "('a \<Rightarrow> bool) \<Rightarrow> 'a list \<Rightarrow> 'a list \<times> 'a list" where
  "release_loop P [] = ([], [])"
| "release_loop P (x # xs) =
     (if P x then
        (case release_loop P (if xs = [] then [] else last xs # butlast xs) of (out, kept) \<Rightarrow> (x # out, kept))
      else (case release_loop P xs of (out, kept) \<Rightarrow> (out, x # kept)))"
  by pat_completeness auto
termination by (relation "measure (\<lambda>(P, xs). length xs)") auto

definition release_pending_acks :: "room \<Rightarrow> 'd registry \<Rightarrow> 'd registry" where
  "release_pending_acks r g =
     (case quorum g r of
        (majority, followers) \<Rightarrow>
          (case release_loop (\<lambda>a. pa_room a = r \<and> quorum_met g r majority followers (pa_seq a)) (pending_acks g) of
             (out, kept) \<Rightarrow>
               g\<lparr>pending_acks := kept,
                 rg_conns := fold (\<lambda>a. push_to (pa_conn a) (pa_accepted a)) out (rg_conns g)\<rparr>))"

definition record_replica_ack :: "nodeid \<Rightarrow> room \<Rightarrow> u64 \<Rightarrow> 'd registry \<Rightarrow> 'd registry" where
  "record_replica_ack follower r through g =
     (if (case rg_membership g of None \<Rightarrow> False | Some m \<Rightarrow> \<not> is_member m follower) then g
      else release_pending_acks r (g\<lparr>rg_replication := record_ack follower r through (rg_replication g)\<rparr>))"

text \<open>The acknowledgement of a client's write, from \<open>deliver\<close>: on the main stream with fresh ops it is
  held back until a majority has the write.\<close>

definition MAIN_BRANCH :: bytes where
  "MAIN_BRANCH = [109, 97, 105, 110]"

definition gate_ack ::
    "connid \<Rightarrow> room option \<Rightarrow> bytes option \<Rightarrow> op list \<Rightarrow> outgoing \<Rightarrow> 'd registry \<Rightarrow> 'd registry" where
  "gate_ack i r branch fresh accepted g =
     (case (case r of
              Some r \<Rightarrow>
                if branch = Some MAIN_BRANCH \<and> fresh \<noteq> [] \<and> \<not> write_has_majority g r (hub_seq (rg_hub g) r)
                then Some (r, hub_seq (rg_hub g) r) else None
            | None \<Rightarrow> None) of
        Some (r, q) \<Rightarrow>
          g\<lparr>pending_acks := pending_acks g @ [\<lparr>pa_room = r, pa_seq = q, pa_conn = i, pa_accepted = accepted\<rparr>]\<rparr>
      | None \<Rightarrow> g\<lparr>rg_conns := push_to i accepted (rg_conns g)\<rparr>)"

definition replica_watermark :: "'d registry \<Rightarrow> room \<Rightarrow> nodeid \<Rightarrow> u64" where
  "replica_watermark g r n = watermark (rg_replication g) r n"

section \<open>Leadership\<close>

definition highest_epoch :: "'d registry \<Rightarrow> room \<Rightarrow> u64" where
  "highest_epoch g r = highest_seen (rg_epochs g) r"

definition persist_epoch_if_advanced :: "room \<Rightarrow> u64 \<Rightarrow> 'd registry \<Rightarrow> 'd registry" where
  "persist_epoch_if_advanced r was g =
     (let now = highest_seen (rg_epochs g) r
      in if was < now then g\<lparr>stored_epochs := fmupd r now (stored_epochs g)\<rparr> else g)"

definition claim_and_persist_epoch :: "room \<Rightarrow> 'd registry \<Rightarrow> u64 \<times> 'd registry" where
  "claim_and_persist_epoch r g =
     (let was = highest_seen (rg_epochs g) r
      in case claim_leadership r (rg_epochs g) of
           (e, l) \<Rightarrow> (e, persist_epoch_if_advanced r was (g\<lparr>rg_epochs := l\<rparr>)))"

text \<open>What a frame is decided on, and the decision.\<close>

record replica_frame =
  fr_sender :: nodeid
  fr_room :: room
  fr_branch :: bytes
  fr_epoch :: u64

datatype replica_gate = Reject | Fenced | Apply

definition gate_replica_frame :: "replica_frame \<Rightarrow> 'd registry \<Rightarrow> replica_gate \<times> 'd registry" where
  "gate_replica_frame f g =
     (let r = fr_room f; e = fr_epoch f; l = rg_epochs g
      in case rg_membership g of
           None \<Rightarrow> (Reject, g)
         | Some m \<Rightarrow>
             if is_self m (fr_sender f) \<or> fr_sender f \<notin> set (replicas_for m r) then (Reject, g)
             else if e < highest_seen l r then (Fenced, g)
             else if \<not> owns m r \<or> (is_effective_primary_for m r \<and> \<not> leads_below l r e) \<or>
                 fr_branch f \<noteq> MAIN_BRANCH then (Reject, g)
             else (Apply, persist_epoch_if_advanced r (highest_seen l r)
                     (g\<lparr>rg_epochs := observe r e (supersede_if_leading r e l)\<rparr>)))"

end
