(* ===== verification/Cluster_Replication.thy ===== *)
theory Cluster_Replication
  imports Cluster Gossip_Round
begin

text \<open>
  Replication between the nodes of a cluster, from \<^verbatim>\<open>registry.rs\<close>: what a leader sends for a
  commit and for a follower that reconnects, what a follower applies, and the node's part in gossip.
\<close>

section \<open>Room metadata\<close>

definition governing_binding :: "'d registry \<Rightarrow> room \<Rightarrow> (bytes \<times> u32) option" where
  "governing_binding g r =
     (case fmlookup (room_apps g) r of Some b \<Rightarrow> Some b | None \<Rightarrow> governing_app (rg_hub g) r)"

definition replicated_room_meta :: "'d registry \<Rightarrow> room \<Rightarrow> replicated_meta" where
  "replicated_room_meta g r =
     \<lparr>md_creator = room_creator (rg_hub g) r, md_governing = governing_binding g r,
      md_max_version = max_op_version (rg_hub g) r\<rparr>"

definition bind_room_app :: "room \<Rightarrow> bytes \<Rightarrow> u32 \<Rightarrow> 'd registry \<Rightarrow> 'd registry" where
  "bind_room_app r app v g =
     (let bound = (case governing_binding g r of
                     Some (bapp, bv) \<Rightarrow> if bapp = app then (app, max v bv) else (bapp, bv)
                   | None \<Rightarrow> (app, v))
      in g\<lparr>rg_hub := bind_governing r (fst bound) (snd bound) (rg_hub g),
           room_apps := fmupd r bound (room_apps g)\<rparr>)"

definition adopt_replicated_binding :: "room \<Rightarrow> (bytes \<times> u32) option \<Rightarrow> 'd registry \<Rightarrow> 'd registry" where
  "adopt_replicated_binding r b g = (case b of None \<Rightarrow> g | Some (app, v) \<Rightarrow> bind_room_app r app v g)"

definition adopt_replicated_meta :: "room \<Rightarrow> replicated_meta \<Rightarrow> 'd registry \<Rightarrow> 'd registry" where
  "adopt_replicated_meta r m g =
     (let g1 = adopt_replicated_binding r (md_governing m) g;
          g2 = (case md_creator m of
                  None \<Rightarrow> g1 | Some a \<Rightarrow> g1\<lparr>rg_hub := snd (ensure_creator r a (rg_hub g1))\<rparr>)
      in case (governing_binding g2 r, md_governing m) of
           (Some (incumbent, _), Some (app, _)) \<Rightarrow>
             if incumbent = app then g2\<lparr>rg_hub := raise_max_op_version r (md_max_version m) (rg_hub g2)\<rparr>
             else g2
         | _ \<Rightarrow> g2)"

section \<open>The leader's side\<close>

definition replication_followers :: "'d registry \<Rightarrow> room \<Rightarrow> nodeid list" where
  "replication_followers g r =
     (case rg_membership g of
        None \<Rightarrow> []
      | Some m \<Rightarrow> if is_effective_primary_for m r then snd (quorum g r) else [])"

definition enqueue_all :: "nodeid list \<Rightarrow> replica_message \<Rightarrow> 'd registry \<Rightarrow> 'd registry" where
  "enqueue_all ns f g = g\<lparr>rg_replication := fold (\<lambda>n. enqueue n f) ns (rg_replication g)\<rparr>"

definition enqueue_root_replication :: "room \<Rightarrow> 'd registry \<Rightarrow> 'd registry" where
  "enqueue_root_replication r g =
     (case room_creator (rg_hub g) r of
        None \<Rightarrow> g
      | Some creator \<Rightarrow>
          (let followers = replication_followers g r
           in if followers = [] then g
              else case claim_and_persist_epoch r g of
                     (e, g') \<Rightarrow> enqueue_all followers (ReplicateMeta r e (Some creator)) g'))"

definition enqueue_replication :: "room \<Rightarrow> bytes \<Rightarrow> op list \<Rightarrow> 'd registry \<Rightarrow> 'd registry" where
  "enqueue_replication r branch ops g =
     (if branch \<noteq> MAIN_BRANCH then g
      else (let followers = replication_followers g r
            in if followers = [] then g
               else case claim_and_persist_epoch r g of
                      (e, g') \<Rightarrow>
                        enqueue_all followers
                          (Replicate r branch ops (hub_base_seq (rg_hub g) r) e (replicated_room_meta g r)) g'))"

definition rooms_led_for :: "'d registry \<Rightarrow> nodeid \<Rightarrow> room list" where
  "rooms_led_for g follower =
     (case rg_membership g of
        None \<Rightarrow> []
      | Some m \<Rightarrow>
          if is_self m follower then []
          else filter (\<lambda>r. is_effective_primary_for m r \<and> follower \<in> set (replicas_for m r))
                 (room_ids (rg_hub g)))"

definition catch_up_room_frame ::
    "'d document \<Rightarrow> room \<Rightarrow> u64 \<Rightarrow> 'd registry \<Rightarrow> replica_message option \<times> 'd registry" where
  "catch_up_room_frame D r floor_seq g =
     (let meta = replicated_room_meta g r
      in case catch_up D r floor_seq (rg_hub g) of
           CatchupOps records \<Rightarrow>
             if records = [] then
               if md_creator meta = None \<or> hub_seq (rg_hub g) r = 0 then (None, g)
               else (case claim_and_persist_epoch r g of
                       (e, g') \<Rightarrow> (Some (ReplicateMeta r e (md_creator meta)), g'))
             else (case claim_and_persist_epoch r g of
                     (e, g') \<Rightarrow>
                       (Some (Replicate r MAIN_BRANCH (map so_op records) (hub_base_seq (rg_hub g) r) e meta), g'))
         | CatchupSnapshot q state \<Rightarrow>
             (case claim_and_persist_epoch r g of
                (e, g') \<Rightarrow> (Some (ReplicateSnapshot r MAIN_BRANCH q state e meta), g'))
         | CatchupUnavailable \<Rightarrow> (None, g))"

text \<open>The frames of one dial, the deltas before the roots.\<close>

record dial_frames =
  deltas :: "replica_message list"
  roots :: "replica_message list"

definition dial_push :: "replica_message option \<Rightarrow> dial_frames \<Rightarrow> dial_frames" where
  "dial_push f d =
     (case f of
        None \<Rightarrow> d
      | Some (ReplicateMeta r e c) \<Rightarrow> d\<lparr>roots := roots d @ [ReplicateMeta r e c]\<rparr>
      | Some f \<Rightarrow> d\<lparr>deltas := deltas d @ [f]\<rparr>)"

definition dial_enqueue :: "nodeid \<Rightarrow> dial_frames \<Rightarrow> 'd registry \<Rightarrow> 'd registry" where
  "dial_enqueue n d g = g\<lparr>rg_replication := fold (enqueue n) (deltas d @ roots d) (rg_replication g)\<rparr>"

fun dial_rooms ::
    "'d document \<Rightarrow> ('d registry \<Rightarrow> room \<Rightarrow> u64 \<times> 'd registry) \<Rightarrow> room list \<Rightarrow> dial_frames \<times> 'd registry \<Rightarrow>
       dial_frames \<times> 'd registry" where
  "dial_rooms D position [] dg = dg"
| "dial_rooms D position (r # rs) (d, g) =
     (case position g r of
        (floor_seq, g1) \<Rightarrow>
          (case catch_up_room_frame D r floor_seq g1 of
             (f, g2) \<Rightarrow> dial_rooms D position rs (dial_push f d, g2)))"

definition catch_up_follower :: "'d document \<Rightarrow> nodeid \<Rightarrow> 'd registry \<Rightarrow> 'd registry" where
  "catch_up_follower D follower g =
     (case dial_rooms D (\<lambda>g r. (watermark (rg_replication g) r follower, g)) (rooms_led_for g follower)
             (\<lparr>deltas = [], roots = []\<rparr>, g) of
        (d, g') \<Rightarrow> dial_enqueue follower d g')"

text \<open>A report with a room twice counts its last entry; a room it does not name is at zero.\<close>

definition reported_head :: "(room \<times> u64) list \<Rightarrow> room \<Rightarrow> u64" where
  "reported_head heads r = (case map_of (rev heads) r of None \<Rightarrow> 0 | Some q \<Rightarrow> q)"

definition credited :: "nodeid \<Rightarrow> (room \<times> u64) list \<Rightarrow> 'd registry \<Rightarrow> room \<Rightarrow> u64 \<times> 'd registry" where
  "credited follower heads g r =
     (let floor_seq = min (reported_head heads r) (hub_seq (rg_hub g) r)
      in (floor_seq, g\<lparr>rg_replication := set_watermark follower r floor_seq (rg_replication g)\<rparr>))"

definition catch_up_follower_reporting ::
    "'d document \<Rightarrow> nodeid \<Rightarrow> (room \<times> u64) list \<Rightarrow> 'd registry \<Rightarrow> 'd registry" where
  "catch_up_follower_reporting D follower heads g =
     (case dial_rooms D (credited follower heads) (rooms_led_for g follower) (\<lparr>deltas = [], roots = []\<rparr>, g) of
        (d, g') \<Rightarrow> dial_enqueue follower d g')"

definition durable_heads :: "'d registry \<Rightarrow> (room \<times> u64) list" where
  "durable_heads g =
     (case rg_membership g of
        None \<Rightarrow> []
      | Some m \<Rightarrow> map (\<lambda>r. (r, hub_seq (rg_hub g) r)) (filter (owns m) (room_ids (rg_hub g))))"

definition report_heads_to :: "nodeid \<Rightarrow> 'd registry \<Rightarrow> 'd registry" where
  "report_heads_to leader g =
     (case rg_membership g of
        None \<Rightarrow> g
      | Some m \<Rightarrow>
          if is_self m leader then g
          else enqueue_all [leader] (FollowerHeads (self_id m) (durable_heads g)) g)"

definition take_replication :: "'d registry \<Rightarrow> (nodeid \<times> replica_message) list \<times> 'd registry" where
  "take_replication g =
     (case take_pending (rg_replication g) of (fs, p) \<Rightarrow> (fs, g\<lparr>rg_replication := p\<rparr>))"

section \<open>The follower's side\<close>

text \<open>What the node does to its own subscribers' connections: the eviction after a version lift, from
  the high-water before, and the fan-out of the ops.\<close>

record 'd audience =
  evict_by_lift :: "room \<Rightarrow> u32 option \<Rightarrow> 'd registry \<Rightarrow> conns"
  fan_out :: "room \<Rightarrow> bytes \<Rightarrow> op list \<Rightarrow> 'd registry \<Rightarrow> conns"

definition ack_head :: "connid \<Rightarrow> room \<Rightarrow> 'd registry \<Rightarrow> 'd registry" where
  "ack_head i r g = g\<lparr>rg_conns := push_to i (ReplicaAck r (hub_seq (rg_hub g) r)) (rg_conns g)\<rparr>"

definition apply_replicate ::
    "'d document \<Rightarrow> 'd audience \<Rightarrow> store_answers \<Rightarrow> connid \<Rightarrow> replica_frame \<Rightarrow> op list \<Rightarrow> replicated_meta \<Rightarrow>
       'd registry \<Rightarrow> bool \<times> 'd registry" where
  "apply_replicate D A io i f ops meta g =
     (case gate_replica_frame f g of
        (Reject, g) \<Rightarrow> (False, g)
      | (Fenced, g) \<Rightarrow> (True, g)
      | (Apply, g) \<Rightarrow>
          (let r = fr_room f; pre = max_op_version (rg_hub g) r
           in case ingest D io r ops None (rg_hub g) of
                (Inl _, h) \<Rightarrow> (False, g\<lparr>rg_hub := h\<rparr>)
              | (Inr applied, h) \<Rightarrow>
                  (let g = adopt_replicated_meta r meta (g\<lparr>rg_hub := h\<rparr>);
                       g = g\<lparr>rg_conns := evict_by_lift A r pre g\<rparr>;
                       g = (if applied = [] then g else g\<lparr>rg_conns := fan_out A r (fr_branch f) applied g\<rparr>)
                   in (True, ack_head i r g))))"

definition apply_replicate_meta :: "replica_frame \<Rightarrow> bytes option \<Rightarrow> 'd registry \<Rightarrow> bool \<times> 'd registry" where
  "apply_replicate_meta f creator g =
     (case creator of
        None \<Rightarrow> (True, g)
      | Some a \<Rightarrow>
          if \<not> holds_room (rg_hub g) (fr_room f) then (True, g)
          else (case gate_replica_frame f g of
                  (Reject, g) \<Rightarrow> (False, g)
                | (Fenced, g) \<Rightarrow> (True, g)
                | (Apply, g) \<Rightarrow> (True, g\<lparr>rg_hub := snd (ensure_creator (fr_room f) a (rg_hub g))\<rparr>)))"

definition apply_replicate_snapshot ::
    "'d document \<Rightarrow> 'd audience \<Rightarrow> store_answers \<Rightarrow> connid \<Rightarrow> replica_frame \<Rightarrow> u64 \<Rightarrow> bytes \<Rightarrow>
       replicated_meta \<Rightarrow> 'd registry \<Rightarrow> bool \<times> 'd registry" where
  "apply_replicate_snapshot D A io i f q state meta g =
     (case gate_replica_frame f g of
        (Reject, g) \<Rightarrow> (False, g)
      | (Fenced, g) \<Rightarrow> (True, g)
      | (Apply, g) \<Rightarrow>
          (let r = fr_room f; pre = max_op_version (rg_hub g) r
           in case install_snapshot D io r state q (md_creator meta) (rg_hub g) of
                (Inl _, h) \<Rightarrow> (False, g\<lparr>rg_hub := h\<rparr>)
              | (Inr _, h) \<Rightarrow>
                  (let g = adopt_replicated_meta r meta (g\<lparr>rg_hub := h\<rparr>);
                       g = g\<lparr>rg_conns := evict_by_lift A r pre g\<rparr>
                   in (True, ack_head i r g))))"

definition apply_follower_heads ::
    "'d document \<Rightarrow> nodeid \<Rightarrow> nodeid \<Rightarrow> (room \<times> u64) list \<Rightarrow> 'd registry \<Rightarrow> bool \<times> 'd registry" where
  "apply_follower_heads D sender reporter heads g =
     (if rg_membership g = None \<or> reporter \<noteq> sender then (False, g)
      else (True, catch_up_follower_reporting D sender heads g))"

section \<open>Gossip\<close>

definition registry_known_liveness :: "'d registry \<Rightarrow> gossip_tuple list" where
  "registry_known_liveness g = (case rg_membership g of None \<Rightarrow> [] | Some m \<Rightarrow> known_liveness m)"

definition dial_establishes_identity :: "'d registry \<Rightarrow> nodeid \<Rightarrow> bool" where
  "dial_establishes_identity g n \<longleftrightarrow> \<not> require_peer_identity g \<or>
     (case rg_membership g of None \<Rightarrow> False | Some m \<Rightarrow> advertises_tls n)"

definition note_peer_verified :: "nodeid \<Rightarrow> 'd registry \<Rightarrow> 'd registry" where
  "note_peer_verified n g =
     (if dial_establishes_identity g n then g\<lparr>rg_membership := map_option (note_verified n) (rg_membership g)\<rparr>
      else g)"

definition note_gossip_probe :: "nodeid \<Rightarrow> bool \<Rightarrow> 'd registry \<Rightarrow> 'd registry" where
  "note_gossip_probe n up g =
     g\<lparr>rg_membership :=
       map_option (if up then note_gossip_reachable n else note_gossip_unreachable n) (rg_membership g)\<rparr>"

definition note_gossip_round :: "nodeid \<Rightarrow> gossip_round_outcome \<Rightarrow> 'd registry \<Rightarrow> 'd registry" where
  "note_gossip_round n v g =
     (let g = note_gossip_probe n (reachable v) g in if v = Direct then note_peer_verified n g else g)"

definition merge_gossip_attributed ::
    "nodeid \<Rightarrow> gossip_tuple list \<Rightarrow> bool \<Rightarrow> 'd registry \<Rightarrow> 'd registry" where
  "merge_gossip_attributed sender ts attributable g =
     g\<lparr>rg_membership :=
       map_option (merge_liveness sender (map (\<lambda>(n, a, i, s, v). (n, a, i, s, v \<and> attributable)) ts))
         (rg_membership g)\<rparr>"

definition merge_gossip :: "nodeid \<Rightarrow> gossip_tuple list \<Rightarrow> 'd registry \<Rightarrow> 'd registry" where
  "merge_gossip sender ts g = merge_gossip_attributed sender ts (dial_establishes_identity g sender) g"

definition apply_gossip ::
    "connid \<Rightarrow> nodeid \<Rightarrow> gossip_tuple list \<Rightarrow> 'd registry \<Rightarrow> bool \<times> 'd registry" where
  "apply_gossip i sender ts g =
     (case rg_membership g of
        None \<Rightarrow> (False, g)
      | Some m \<Rightarrow>
          (let known = filter (\<lambda>(n, a, _). is_member m n \<or> (n = sender \<and> a = n)) ts;
               g = merge_gossip_attributed sender known (dial_establishes_identity g sender) g
           in (True, g\<lparr>rg_conns := push_to i (Gossip (registry_known_liveness g)) (rg_conns g)\<rparr>)))"

definition apply_ping_req :: "connid \<Rightarrow> nodeid \<Rightarrow> 'd registry \<Rightarrow> bool \<times> 'd registry" where
  "apply_ping_req i probed g =
     (case rg_membership g of
        None \<Rightarrow> (False, g)
      | Some m \<Rightarrow> (True, g\<lparr>rg_conns := push_to i (PingAck (is_member m probed \<and> is_live m probed)) (rg_conns g)\<rparr>))"

definition reap_dead_members :: "'d registry \<Rightarrow> 'd registry" where
  "reap_dead_members g =
     (case rg_membership g of
        None \<Rightarrow> g
      | Some m \<Rightarrow>
          (case reap_dead m of
             (gone, m') \<Rightarrow>
               if gone = [] then g\<lparr>rg_membership := Some m'\<rparr>
               else g\<lparr>rg_membership := Some m', rg_replication := forget_members gone (rg_replication g)\<rparr>))"

section \<open>The peer plane\<close>

text \<open>The messages of the peer plane. \<open>None\<close> is a message that goes on to the client plane: any other
  message, and one of these on a connection that was not admitted as a member.\<close>

datatype peer_message =
    PeerAuth bytes bytes
  | PeerFrame replica_message
  | PeerGossip "gossip_tuple list"
  | PingReq bytes
  | PeerPingAck bool
  | ClientMessage bytes

definition deliver_peer ::
    "'d document \<Rightarrow> 'd audience \<Rightarrow> store_answers \<Rightarrow> connid \<Rightarrow> peer_message \<Rightarrow> 'd registry \<Rightarrow>
       (bool \<times> 'd registry) option" where
  "deliver_peer D A io i msg g =
     (case msg of
        PeerAuth claimed secret \<Rightarrow> Some (authenticate_peer i claimed secret g)
      | _ \<Rightarrow>
          (case peer_identity g i of
             None \<Rightarrow> None
           | Some sender \<Rightarrow>
               (case msg of
                  PeerFrame (Replicate r branch ops _ e meta) \<Rightarrow>
                    Some (apply_replicate D A io i
                      \<lparr>fr_sender = sender, fr_room = r, fr_branch = branch, fr_epoch = e\<rparr> ops meta g)
                | PeerFrame (ReplicateSnapshot r branch q state e meta) \<Rightarrow>
                    Some (apply_replicate_snapshot D A io i
                      \<lparr>fr_sender = sender, fr_room = r, fr_branch = branch, fr_epoch = e\<rparr> q state meta g)
                | PeerFrame (ReplicateMeta r e creator) \<Rightarrow>
                    Some (apply_replicate_meta
                      \<lparr>fr_sender = sender, fr_room = r, fr_branch = MAIN_BRANCH, fr_epoch = e\<rparr> creator g)
                | PeerFrame (FollowerHeads reporter heads) \<Rightarrow>
                    Some (apply_follower_heads D sender reporter heads g)
                | PeerGossip ts \<Rightarrow> Some (apply_gossip i sender ts g)
                | PingReq probed \<Rightarrow> Some (apply_ping_req i probed g)
                | PeerPingAck _ \<Rightarrow> Some (False, g)
                | _ \<Rightarrow> None)))"

end
