(* ===== verification/Cluster_Quorum.thy ===== *)
theory Cluster_Quorum
  imports Cluster Membership_Adoption "HOL-Library.Multiset"
begin

text \<open>
  What an acknowledgement to a client is worth. It is released when a majority of the room's replicas
  has the write, and any two majorities of a replica set share a replica: so whichever majority a later
  leader hears from, one of them has every acknowledged write.
\<close>

section \<open>Majorities\<close>

locale quorums =
  fixes members :: "'n set" and majority :: "'n set \<Rightarrow> bool"
  assumes within: "majority P \<Longrightarrow> P \<subseteq> members"
    and meet: "majority P \<Longrightarrow> majority Q \<Longrightarrow> P \<inter> Q \<noteq> {}"
begin

lemma inhabited: "majority P \<Longrightarrow> \<exists>n \<in> P. n \<in> members"
  using meet [of P P] within [of P] by blast

lemma survives: "majority P \<Longrightarrow> majority Q \<Longrightarrow> (\<And>n. n \<in> P \<Longrightarrow> has n) \<Longrightarrow> \<exists>n \<in> Q. n \<in> members \<and> has n"
  using meet [of P Q] within [of P] by blast

text \<open>No two majorities decide differently.\<close>

lemma agree: "majority P \<Longrightarrow> majority Q \<Longrightarrow> (\<And>n. n \<in> P \<Longrightarrow> vote n = v) \<Longrightarrow> (\<And>n. n \<in> Q \<Longrightarrow> vote n = w) \<Longrightarrow> v = w"
  using meet [of P Q] by blast

end

definition replica_majority :: "membership \<Rightarrow> room \<Rightarrow> nodeid set \<Rightarrow> bool" where
  "replica_majority m r Q \<longleftrightarrow> Q \<subseteq> set (replicas_for m r) \<and> length (replicas_for m r) < 2 * card Q"

interpretation rq: quorums "set (replicas_for m r)" "replica_majority m r" for m r
proof
  fix P Q
  assume P: "replica_majority m r P" and Q: "replica_majority m r Q"
  show "P \<subseteq> set (replicas_for m r)" using P by (simp add: replica_majority_def)
  show "P \<inter> Q \<noteq> {}"
  proof
    assume "P \<inter> Q = {}"
    moreover have "finite P" "finite Q"
      using P Q finite_subset [OF _ finite_set] by (auto simp: replica_majority_def)
    ultimately have "card P + card Q = card (P \<union> Q)" by (simp add: card_Un_disjoint)
    also have "\<dots> \<le> card (set (replicas_for m r))"
      using P Q by (intro card_mono) (auto simp: replica_majority_def)
    also have "\<dots> \<le> length (replicas_for m r)" by (rule card_length)
    finally show False using P Q by (simp add: replica_majority_def)
  qed
qed

section \<open>Who has a write\<close>

definition holders :: "'d registry \<Rightarrow> membership \<Rightarrow> room \<Rightarrow> u64 \<Rightarrow> nodeid set" where
  "holders g m r q = {n \<in> set (replicas_for m r). is_self m n \<or> q \<le> watermark (rg_replication g) r n}"

lemma holders_majority:
  assumes "rg_membership g = Some m" "\<not> stranded m" "owns m r" "distinct (replicas_for m r)"
  shows "write_has_majority g r q \<longleftrightarrow> replica_majority m r (holders g m r q)"
proof -
  let ?fs = "filter (\<lambda>n. q \<le> watermark (rg_replication g) r n) (filter (\<lambda>n. \<not> is_self m n) (replicas_for m r))"
  have "holders g m r q = insert (self_id m) (set ?fs)"
    using assms(3) by (auto simp: holders_def is_self_def owns_def)
  moreover have "self_id m \<notin> set ?fs" by (simp add: is_self_def)
  moreover have "card (set ?fs) = length ?fs" by (rule distinct_card) (simp add: assms(4))
  ultimately have "card (holders g m r q) = 1 + length ?fs" by simp
  moreover have "holders g m r q \<subseteq> set (replicas_for m r)" by (auto simp: holders_def)
  ultimately show ?thesis
    using assms(1,2) by (simp add: write_has_majority_def quorum_def quorum_met_def replica_majority_def) linarith
qed

section \<open>Releasing\<close>

lemma swapped: "xs \<noteq> [] \<Longrightarrow> mset (last xs # butlast xs) = mset xs"
  by (metis append_butlast_last_id mset.simps(2) mset_append union_mset_add_mset_right add.right_neutral mset_zero_iff)

lemma release_loop_spec:
  "release_loop P xs = (out, kept) \<Longrightarrow> mset xs = mset kept + mset out \<and> (\<forall>x \<in> set out. P x) \<and> (\<forall>x \<in> set kept. \<not> P x)"
proof (induction P xs arbitrary: out kept rule: release_loop.induct)
  case (2 P x xs)
  let ?ys = "if xs = [] then [] else last xs # butlast xs"
  have ys: "mset ?ys = mset xs" using swapped [of xs] by simp
  show ?case
  proof (cases "P x")
    case True
    obtain o1 k1 where rec: "release_loop P ?ys = (o1, k1)" by (rule prod.exhaust)
    from "2.IH"(1) [OF True rec] "2.prems" True rec ys show ?thesis by auto
  next
    case False
    obtain o1 k1 where rec: "release_loop P xs = (o1, k1)" by (rule prod.exhaust)
    from "2.IH"(2) [OF False rec] "2.prems" False rec show ?thesis by auto
  qed
qed simp

lemma release_pending_view:
  "\<exists>out. mset (pending_acks g) = mset (pending_acks (release_pending_acks r g)) + mset out \<and>
    rg_conns (release_pending_acks r g) = fold (\<lambda>a. push_to (pa_conn a) (pa_accepted a)) out (rg_conns g) \<and>
    (\<forall>a \<in> set out. pa_room a = r \<and> write_has_majority g r (pa_seq a)) \<and>
    (\<forall>a \<in> set (pending_acks (release_pending_acks r g)). pa_room a = r \<longrightarrow> \<not> write_has_majority g r (pa_seq a))"
proof -
  obtain majority followers where q: "quorum g r = (majority, followers)" by (rule prod.exhaust)
  obtain out kept where rel: "release_loop (\<lambda>a. pa_room a = r \<and> quorum_met g r majority followers (pa_seq a))
      (pending_acks g) = (out, kept)" by (rule prod.exhaust)
  from release_loop_spec [OF rel] show ?thesis
    by (intro exI [of _ out]) (auto simp: release_pending_acks_def q rel write_has_majority_def)
qed

lemma release_pending_fields [simp]:
  "rg_replication (release_pending_acks r g) = rg_replication g"
  "rg_membership (release_pending_acks r g) = rg_membership g"
  by (simp_all add: release_pending_acks_def split: prod.split)

lemma majority_same: "rg_replication g' = rg_replication g \<Longrightarrow> rg_membership g' = rg_membership g \<Longrightarrow>
    write_has_majority g' = write_has_majority g"
  by (intro ext) (simp add: write_has_majority_def quorum_def quorum_met_def)

lemma record_replica_ack_view:
  assumes "rg_membership g = Some m" "is_member m n"
  shows "watermark (rg_replication (record_replica_ack n r q g)) s k =
    (if s = r \<and> k = n then max (watermark (rg_replication g) r n) q else watermark (rg_replication g) s k)"
  using assms by (simp add: record_replica_ack_def) (simp add: record_ack_def watermark_def)

section \<open>Properties\<close>

text \<open>C4. An acknowledgement of a replica releases exactly the writes that now have a majority. Of the
  acknowledgements held back, those of the room whose writes a majority of the replicas now has go to
  their authors, each once; every other one is kept; and none that has its majority is left behind.\<close>
theorem ack_releases_majority_writes:
  assumes "rg_membership g = Some m" "is_member m n" "g' = record_replica_ack n r q g"
  shows "\<exists>out. mset (pending_acks g) = mset (pending_acks g') + mset out \<and>
    rg_conns g' = fold (\<lambda>a. push_to (pa_conn a) (pa_accepted a)) out (rg_conns g) \<and>
    (\<forall>a \<in> set out. pa_room a = r \<and> write_has_majority g' r (pa_seq a)) \<and>
    (\<forall>a \<in> set (pending_acks g'). pa_room a = r \<longrightarrow> \<not> write_has_majority g' r (pa_seq a)) \<and>
    watermark (rg_replication g') r n = max (watermark (rg_replication g) r n) q"
proof -
  let ?g = "g\<lparr>rg_replication := record_ack n r q (rg_replication g)\<rparr>"
  have g': "g' = release_pending_acks r ?g" using assms by (simp add: record_replica_ack_def)
  have same: "write_has_majority g' = write_has_majority ?g" by (rule majority_same) (simp_all add: g')
  have "watermark (rg_replication g') r n = max (watermark (rg_replication g) r n) q"
    using record_replica_ack_view [OF assms(1,2), of r q r n] assms(3) by simp
  then show ?thesis
    using release_pending_view [of ?g r] unfolding same unfolding g' by simp
qed

lemma replicas_distinct: "membership_ok m \<Longrightarrow> distinct (replicas_for m r)"
  using cluster_new_canonical ranking_distinct
  by (metis adopted_members_def distinct_take membership_ok_ring(3) replicas_for_def replicas_ranking)

lemma stranded_no_majority:
  "rg_membership g = Some m \<Longrightarrow> stranded m \<Longrightarrow> \<not> write_has_majority g r q"
  by (simp add: write_has_majority_def quorum_def quorum_met_def)

text \<open>C3. An acknowledged write survives a change of leader. When a leader that replicates the room
  counts a write as held by a majority, every majority of the room's replicas - so also the one a later
  leader works with - has a replica that holds the write: the leader itself, or one that acknowledged
  the write's sequence.\<close>
theorem acknowledged_write_survives:
  assumes "rg_membership g = Some m" "membership_ok m" "owns m r"
    and "write_has_majority g r q" "replica_majority m r Q"
  shows "\<exists>n \<in> Q. n \<in> set (replicas_for m r) \<and> (n = self_id m \<or> q \<le> watermark (rg_replication g) r n)"
proof -
  have "replica_majority m r (holders g m r q)"
    using holders_majority [OF assms(1) _ assms(3) replicas_distinct [OF assms(2)]] assms(4)
      stranded_no_majority [OF assms(1)] by blast
  from rq.survives [OF this assms(5), of "\<lambda>n. n = self_id m \<or> q \<le> watermark (rg_replication g) r n"]
  show ?thesis by (auto simp: holders_def is_self_def)
qed

section \<open>Instances\<close>

text \<open>A cluster of two, seen by its first member.\<close>

definition pair :: membership where
  "pair = membership_new [97] [[98]] 2"

definition pair_registry :: "'d hub \<Rightarrow> 'd registry" where
  "pair_registry h = set_membership pair (from_hub h)"

lemma pair_ok: "membership_ok pair"
  by (simp add: pair_def membership_new_ok)

lemma pair_members: "self_id pair = [97]" "is_member pair [98]" "placed pair = cluster_new [[97], [98]]"
    "replication_factor pair = 2" "\<not> stranded pair"
  by (simp_all add: pair_def membership_new_def Let_def is_member_def fmdom_fmap_of_list)

lemma pair_ranked: "replicas_for pair r = [[97], [98]] \<or> replicas_for pair r = [[98], [97]]"
proof -
  have "replicas_for pair r = ranking (cluster_new [[97], [98]]) r"
    by (simp add: replicas_for_def replicas_ranking pair_members ranking_def cluster_new_def)
  then show ?thesis by (simp add: ranking_def cluster_new_def split: if_splits)
qed

lemma pair_replicas: "set (replicas_for pair r) = {[97], [98]}" "length (replicas_for pair r) = 2"
  using pair_ranked [of r] by auto

lemma pair_owns: "owns pair r"
  by (simp add: owns_def pair_replicas pair_members)

definition withheld :: "bytes registry" where
  "withheld = (pair_registry (hub_new (ClientId 1)))
     \<lparr>pending_acks := [\<lparr>pa_room = [114], pa_seq = 1, pa_conn = 5, pa_accepted = Accepted 1 1\<rparr>]\<rparr>"

lemma pair_majority:
  assumes "rg_membership g = Some pair"
  shows "write_has_majority g r q \<longleftrightarrow> q \<le> watermark (rg_replication g) r [98]"
  using assms pair_ranked [of r]
  by (auto simp: write_has_majority_def quorum_def quorum_met_def pair_members is_self_def split: if_splits)

lemma ack_releases_majority_writes_witness:
  "pending_acks (record_replica_ack [98] [114] 1 withheld) = []"
proof -
  let ?g = "record_replica_ack [98] [114] 1 withheld"
  have m: "rg_membership withheld = Some pair" "rg_membership ?g = Some pair"
    by (simp_all add: withheld_def pair_registry_def set_membership_def record_replica_ack_def)
  from ack_releases_majority_writes [OF m(1) pair_members(2) refl, of "[114]" 1]
  obtain out where out: "mset (pending_acks withheld) = mset (pending_acks ?g) + mset out"
    "\<forall>a \<in> set (pending_acks ?g). pa_room a = [114] \<longrightarrow> \<not> write_has_majority ?g [114] (pa_seq a)"
    "watermark (rg_replication ?g) [114] [98] = max (watermark (rg_replication withheld) [114] [98]) 1"
    by blast
  have held: "write_has_majority ?g [114] 1"
    unfolding pair_majority [OF m(2)] out(3) by (simp add: le_max_iff_disj)
  have "a \<notin> set (pending_acks ?g)" for a
  proof
    assume a: "a \<in> set (pending_acks ?g)"
    then have "a \<in> set (pending_acks withheld)" using out(1) by (metis in_multiset_in_set union_iff)
    then have "pa_room a = [114]" "pa_seq a = 1" by (simp_all add: withheld_def)
    with out(2) a held show False by auto
  qed
  then show ?thesis by (metis last_in_set)
qed

lemma acknowledged_write_survives_witness:
  "\<exists>n \<in> {[97], [98]}. n = self_id pair \<or> (1 :: u64) \<le>
     watermark (rg_replication (record_replica_ack [98] [114] 1 withheld)) [114] n"
proof -
  let ?g = "record_replica_ack [98] [114] 1 withheld"
  have m: "rg_membership ?g = Some pair"
    by (simp add: withheld_def pair_registry_def set_membership_def record_replica_ack_def)
  have "watermark (rg_replication ?g) [114] [98] \<ge> 1"
    using record_replica_ack_view [OF _ pair_members(2), of withheld "[114]" 1 "[114]" "[98]"]
    by (simp add: withheld_def pair_registry_def set_membership_def)
  then have held: "write_has_majority ?g [114] 1" by (simp add: pair_majority [OF m])
  have "replica_majority pair [114] {[97], [98]}" by (simp add: replica_majority_def pair_replicas)
  from acknowledged_write_survives [OF m pair_ok pair_owns held this] show ?thesis by blast
qed

end
