(* ===== verification/Cluster_Safety.thy ===== *)
theory Cluster_Safety
  imports Cluster_Replication Cluster_Quorum
begin

text \<open>
  What a node of the cluster keeps through any handlers: a frame below an applied epoch stays fenced,
  also over a restart; a client's write is acknowledged when a majority of the room's replicas has
  it; and a follower that a leader catches up holds the leader's room.
\<close>

section \<open>A node's events\<close>

datatype 'd node_event =
    NPeer store_answers connid peer_message
  | NCommit room bytes "op list"
  | NRoot room
  | NDial nodeid
  | NReport nodeid
  | NTake
  | NAck nodeid room u64
  | NReply nodeid "gossip_tuple list"
  | NRound nodeid gossip_round_outcome
  | NLink nodeid bool
  | NReap
  | NWithhold connid "room option" "bytes option" "op list" outgoing
  | NClients "'d hub" conns

text \<open>The last event stands for the client plane, which changes the hub and the connections.\<close>

fun on_node :: "'d document \<Rightarrow> 'd audience \<Rightarrow> 'd node_event \<Rightarrow> 'd registry \<Rightarrow> 'd registry" where
  "on_node D A (NPeer io i msg) g = (case deliver_peer D A io i msg g of None \<Rightarrow> g | Some (_, g') \<Rightarrow> g')"
| "on_node D A (NCommit r branch ops) g = enqueue_replication r branch ops g"
| "on_node D A (NRoot r) g = enqueue_root_replication r g"
| "on_node D A (NDial n) g = catch_up_follower D n g"
| "on_node D A (NReport n) g = report_heads_to n g"
| "on_node D A NTake g = snd (take_replication g)"
| "on_node D A (NAck n r q) g = record_replica_ack n r q g"
| "on_node D A (NReply n ts) g = merge_gossip n ts g"
| "on_node D A (NRound n v) g = note_gossip_round n v g"
| "on_node D A (NLink n b) g = set_peer_liveness n b g"
| "on_node D A NReap g = reap_dead_members g"
| "on_node D A (NWithhold i r branch ops m) g = gate_ack i r branch ops m g"
| "on_node D A (NClients h cs) g = g\<lparr>rg_hub := h, rg_conns := cs\<rparr>"

section \<open>The fence\<close>

text \<open>What an event does to the fence of a room: the epoch seen never falls, and where the store had it,
  the store has it.\<close>

definition led_current :: "'d registry \<Rightarrow> room \<Rightarrow> bool" where
  "led_current g r \<longleftrightarrow> (\<exists>e. fmlookup (epoch_led (rg_epochs g)) r = Some e \<and> highest_epoch g r \<le> e)"

definition stored_epoch :: "'d registry \<Rightarrow> room \<Rightarrow> u64" where
  "stored_epoch g r = (case fmlookup (stored_epochs g) r of None \<Rightarrow> 0 | Some e \<Rightarrow> e)"

definition raises :: "room \<Rightarrow> 'd registry \<Rightarrow> 'd registry \<Rightarrow> bool" where
  "raises r g g' \<longleftrightarrow> highest_epoch g r \<le> highest_epoch g' r \<and>
     (stored_epoch g r = highest_epoch g r \<longrightarrow> stored_epoch g' r = highest_epoch g' r)"

definition claimable :: "room \<Rightarrow> 'd registry \<Rightarrow> bool" where
  "claimable r g \<longleftrightarrow> highest_epoch g r < - 1 \<or> led_current g r"

lemma raises_refl [simp]: "raises r g g"
  by (simp add: raises_def)

lemma raises_trans: "raises r a b \<Longrightarrow> raises r b c \<Longrightarrow> raises r a c"
  unfolding raises_def by auto

lemma raises_same:
  "rg_epochs g' = rg_epochs g \<Longrightarrow> stored_epochs g' = stored_epochs g \<Longrightarrow> raises r g g'"
  by (simp add: raises_def highest_epoch_def stored_epoch_def)

lemma claimable_same:
  "rg_epochs g' = rg_epochs g \<Longrightarrow> claimable r g' = claimable r g"
  by (simp add: claimable_def led_current_def highest_epoch_def)

lemma persist_fields:
  "rg_epochs (persist_epoch_if_advanced s b g) = rg_epochs g"
  "rg_hub (persist_epoch_if_advanced s b g) = rg_hub g"
  "rg_conns (persist_epoch_if_advanced s b g) = rg_conns g"
  "rg_membership (persist_epoch_if_advanced s b g) = rg_membership g"
  "rg_replication (persist_epoch_if_advanced s b g) = rg_replication g"
  "room_apps (persist_epoch_if_advanced s b g) = room_apps g"
  "pending_acks (persist_epoch_if_advanced s b g) = pending_acks g"
  by (simp_all add: persist_epoch_if_advanced_def Let_def)

lemma persist_raises:
  assumes "highest_epoch g r \<le> highest_seen l r" "\<And>t. t \<noteq> s \<Longrightarrow> highest_seen l t = highest_epoch g t"
  shows "raises r g (persist_epoch_if_advanced s (highest_epoch g s) (g\<lparr>rg_epochs := l\<rparr>))"
proof (cases "r = s")
  case True
  with assms(1) show ?thesis
    by (auto simp: raises_def highest_epoch_def persist_epoch_if_advanced_def stored_epoch_def Let_def)
next
  case False
  with assms(2) [of r] show ?thesis
    by (auto simp: raises_def highest_epoch_def persist_epoch_if_advanced_def stored_epoch_def Let_def)
qed

lemma gate_raises:
  assumes "gate_replica_frame f g = (v, g')"
  shows "raises r g g'"
proof -
  have obs: "highest_seen (observe s e (supersede_if_leading s e l)) t =
      (if t = s then max (highest_seen l s) e else highest_seen l t)" for s e l t
    by (simp add: observe_seen)
  have "raises r g (persist_epoch_if_advanced (fr_room f) (highest_epoch g (fr_room f))
      (g\<lparr>rg_epochs := observe (fr_room f) (fr_epoch f) (supersede_if_leading (fr_room f) (fr_epoch f) (rg_epochs g))\<rparr>))"
    by (rule persist_raises) (auto simp: obs highest_epoch_def)
  with assms show ?thesis
    by (auto simp: gate_replica_frame_def Let_def highest_epoch_def split: option.splits if_splits)
qed

lemma unat_succ: "e < - 1 \<Longrightarrow> e < e + 1" for e :: u64
proof -
  assume "e < - 1"
  then have "unat e + 1 < 2 ^ 64"
    by (simp add: word_less_nat_alt unsigned_minus_1_eq_mask mask_eq_exp_minus_1)
  then show ?thesis by (simp add: word_less_nat_alt unat_add_lem [THEN iffD1])
qed

lemma claim_keeps: "led_current g s \<Longrightarrow> snd (claim_leadership s (rg_epochs g)) = rg_epochs g"
  by (auto simp: led_current_def highest_epoch_def claim_leadership_def Let_def)

lemma claim_raises:
  assumes "claim_and_persist_epoch s g = (e, g')" "claimable r g"
  shows "raises r g g'" and "claimable r g'"
proof -
  obtain l where l: "claim_leadership s (rg_epochs g) = (e, l)"
    and g': "g' = persist_epoch_if_advanced s (highest_epoch g s) (g\<lparr>rg_epochs := l\<rparr>)"
    using assms(1) by (auto simp: claim_and_persist_epoch_def Let_def highest_epoch_def split: prod.splits)
  have now: "highest_epoch g' t = highest_seen l t" for t
    by (simp add: g' highest_epoch_def persist_fields)
  from l show "raises r g g'"
  proof (cases rule: claim_leadership_cases)
    case kept
    then show ?thesis unfolding g' by (intro persist_raises) (auto simp: highest_epoch_def)
  next
    case fresh
    have "highest_epoch g r \<le> highest_seen l r"
    proof (cases "r = s")
      case True
      from assms(2) consider "highest_epoch g r < - 1" | "led_current g r" by (auto simp: claimable_def)
      then show ?thesis
      proof cases
        case 1
        with True fresh(1,3) unat_succ [OF 1] show ?thesis by (simp add: highest_epoch_def)
      next
        case 2
        with claim_keeps [of g s] l True show ?thesis by (simp add: highest_epoch_def)
      qed
    next
      case False
      with fresh(4) [OF False] show ?thesis by (simp add: highest_epoch_def)
    qed
    with fresh(4) show ?thesis unfolding g' by (intro persist_raises) (auto simp: highest_epoch_def)
  qed
  from l show "claimable r g'"
  proof (cases rule: claim_leadership_cases)
    case kept
    then show ?thesis
      using assms(2) by (simp add: claimable_def led_current_def now)
        (simp add: g' persist_fields highest_epoch_def)
  next
    case fresh
    then show ?thesis
      using assms(2) by (cases "r = s") (auto simp: claimable_def led_current_def now g' persist_fields highest_epoch_def)
  qed
qed

text \<open>Handlers that leave the epochs alone.\<close>

definition same_epochs :: "'d registry \<Rightarrow> 'd registry \<Rightarrow> bool" where
  "same_epochs g g' \<longleftrightarrow> rg_epochs g' = rg_epochs g \<and> stored_epochs g' = stored_epochs g"

lemma same_epochs_trans: "same_epochs a b \<Longrightarrow> same_epochs b c \<Longrightarrow> same_epochs a c"
  by (simp add: same_epochs_def)

lemma same_epochs_raises: "same_epochs g g' \<Longrightarrow> raises r g g'"
  by (simp add: same_epochs_def raises_same)

lemma adopt_same: "same_epochs g (adopt_replicated_meta r m g)"
  by (simp add: adopt_replicated_meta_def adopt_replicated_binding_def bind_room_app_def same_epochs_def Let_def
      split: option.split)

lemma quiet_handlers:
  "same_epochs g (enqueue_all ns f g)" "same_epochs g (dial_enqueue n d g)"
  "same_epochs g (report_heads_to n g)" "same_epochs g (snd (take_replication g))"
  "same_epochs g (record_replica_ack n q s g)" "same_epochs g (merge_gossip n ts g)"
  "same_epochs g (note_gossip_round n v g)" "same_epochs g (set_peer_liveness n b g)"
  "same_epochs g (reap_dead_members g)" "same_epochs g (gate_ack i ro branch ops out g)"
  "same_epochs g (snd (authenticate_peer i claimed presented g))"
  "same_epochs g (snd (apply_gossip i n ts g))" "same_epochs g (snd (apply_ping_req i n g))"
  "same_epochs g (ack_head i q g)"
  by (simp_all add: same_epochs_def enqueue_all_def dial_enqueue_def report_heads_to_def take_replication_def
      record_replica_ack_def release_pending_acks_def merge_gossip_def merge_gossip_attributed_def
      note_gossip_round_def note_gossip_probe_def note_peer_verified_def set_peer_liveness_def
      reap_dead_members_def gate_ack_def authenticate_peer_def apply_gossip_def apply_ping_req_def
      ack_head_def Let_def split: option.split prod.split)

text \<open>Handlers that claim.\<close>

definition steps_up :: "room \<Rightarrow> 'd registry \<Rightarrow> 'd registry \<Rightarrow> bool" where
  "steps_up r g g' \<longleftrightarrow> (claimable r g \<longrightarrow> raises r g g' \<and> claimable r g')"

lemma steps_up_refl [simp]: "steps_up r g g"
  by (simp add: steps_up_def)

lemma steps_up_trans: "steps_up r a b \<Longrightarrow> steps_up r b c \<Longrightarrow> steps_up r a c"
  by (auto simp: steps_up_def intro: raises_trans)

lemma steps_up_claim: "claim_and_persist_epoch s g = (e, g') \<Longrightarrow> steps_up r g g'"
  using claim_raises by (auto simp: steps_up_def)

lemma steps_up_same: "same_epochs g g' \<Longrightarrow> steps_up r g g'"
  using same_epochs_raises [of g g' r] claimable_same [of g' g r] by (simp add: steps_up_def same_epochs_def)

lemma enqueue_steps_up:
  "steps_up r g (enqueue_replication s branch ops g)" "steps_up r g (enqueue_root_replication s g)"
  using steps_up_trans [OF steps_up_claim steps_up_same [OF quiet_handlers(1)], of s g]
  by (simp_all add: enqueue_replication_def enqueue_root_replication_def Let_def split: option.split prod.split)

lemma frame_steps_up: "catch_up_room_frame D s q g = (f, g') \<Longrightarrow> steps_up r g g'"
  by (auto simp: catch_up_room_frame_def Let_def steps_up_claim split: catchup.splits if_splits prod.splits)

lemma dial_steps_up:
  assumes "\<And>g s q g'. position g s = (q, g') \<Longrightarrow> same_epochs g g'"
  shows "steps_up r g (snd (dial_rooms D position rs (d, g)))"
proof (induction rs arbitrary: d g)
  case (Cons s rs)
  obtain q g1 where one: "position g s = (q, g1)" by (rule prod.exhaust)
  obtain f g2 where two: "catch_up_room_frame D s q g1 = (f, g2)" by (rule prod.exhaust)
  have "steps_up r g g2"
    using steps_up_trans [OF steps_up_same [OF assms [OF one]] frame_steps_up [OF two]] .
  from steps_up_trans [OF this Cons [of g2 "dial_push f d"]] one two show ?case by simp
qed simp

lemma catch_up_steps_up:
  "steps_up r g (catch_up_follower D n g)" "steps_up r g (catch_up_follower_reporting D n heads g)"
proof -
  have "steps_up r g (snd (dial_rooms D (\<lambda>g s. (watermark (rg_replication g) s n, g)) (rooms_led_for g n)
      (\<lparr>deltas = [], roots = []\<rparr>, g)))"
    by (rule dial_steps_up) (auto simp: same_epochs_def)
  then show "steps_up r g (catch_up_follower D n g)"
    using steps_up_trans [OF _ steps_up_same [OF quiet_handlers(2)]]
    by (simp add: catch_up_follower_def split_beta)
  have "steps_up r g (snd (dial_rooms D (credited n heads) (rooms_led_for g n) (\<lparr>deltas = [], roots = []\<rparr>, g)))"
    by (rule dial_steps_up) (auto simp: same_epochs_def credited_def Let_def)
  then show "steps_up r g (catch_up_follower_reporting D n heads g)"
    using steps_up_trans [OF _ steps_up_same [OF quiet_handlers(2)]]
    by (simp add: catch_up_follower_reporting_def split_beta)
qed

text \<open>Handlers behind the gate.\<close>

lemma apply_raises:
  "raises r g (snd (apply_replicate D A io i f ops meta g))"
  "raises r g (snd (apply_replicate_meta f creator g))"
  "raises r g (snd (apply_replicate_snapshot D A io i f q state meta g))"
proof -
  obtain v g1 where gate: "gate_replica_frame f g = (v, g1)" by (rule prod.exhaust)
  note up = gate_raises [OF gate, of r]
  have adopted: "same_epochs g1 (ack_head i s ((adopt_replicated_meta s meta (g1\<lparr>rg_hub := h\<rparr>))\<lparr>rg_conns := cs\<rparr>))" for s h cs
    using adopt_same [of "g1\<lparr>rg_hub := h\<rparr>" s meta] by (simp add: same_epochs_def ack_head_def)
  show "raises r g (snd (apply_replicate D A io i f ops meta g))"
    using gate up raises_trans [OF up same_epochs_raises [OF adopted]]
    by (auto simp: apply_replicate_def Let_def raises_trans [OF up] same_epochs_raises same_epochs_def
        split: replica_gate.split prod.split sum.split)
  show "raises r g (snd (apply_replicate_meta f creator g))"
    using gate up
    by (auto simp: apply_replicate_meta_def raises_trans [OF up] same_epochs_raises same_epochs_def
        split: replica_gate.split option.split)
  show "raises r g (snd (apply_replicate_snapshot D A io i f q state meta g))"
    using gate up raises_trans [OF up same_epochs_raises [OF adopted]]
    by (auto simp: apply_replicate_snapshot_def Let_def raises_trans [OF up] same_epochs_raises same_epochs_def
        split: replica_gate.split prod.split sum.split)
qed

lemma deliver_peer_raises:
  assumes "claimable r g" "deliver_peer D A io i msg g = Some (keep, g')"
  shows "raises r g g'"
proof -
  have heads: "raises r g (snd (apply_follower_heads D sender reporter hs g))" for sender reporter hs
    using assms(1) catch_up_steps_up(2) [of r g D sender hs]
    by (auto simp: apply_follower_heads_def steps_up_def)
  from assms(2) have g': "g' = snd (the (deliver_peer D A io i msg g))" by simp
  show ?thesis
    using assms(2) heads apply_raises [of r g] quiet_handlers [THEN same_epochs_raises, of r g]
    unfolding g'
    by (cases msg; cases "peer_identity g i"; simp add: deliver_peer_def split: replica_message.splits)
qed

lemma on_node_raises:
  assumes "claimable r g"
  shows "raises r g (on_node D A e g)"
proof (cases e)
  case (NPeer io i msg)
  with deliver_peer_raises [OF assms] show ?thesis by (auto split: option.split prod.split)
next
  case (NClients h cs)
  then show ?thesis by (simp add: raises_same)
qed (use assms enqueue_steps_up [of r g] catch_up_steps_up [of r g]
      quiet_handlers [THEN same_epochs_raises, of r g] in \<open>simp_all add: steps_up_def\<close>)

lemma run_raises:
  assumes "\<And>k. k < length es \<Longrightarrow> highest_epoch (fold (on_node D A) (take k es) g) r < - 1"
  shows "raises r g (fold (on_node D A) es g)"
  using assms
proof (induction es arbitrary: g)
  case (Cons e es)
  have "claimable r g" using Cons.prems [of 0] by (simp add: claimable_def)
  then have step: "raises r g (on_node D A e g)" by (rule on_node_raises)
  have "highest_epoch (fold (on_node D A) (take k es) (on_node D A e g)) r < - 1" if "k < length es" for k
    using Cons.prems [of "Suc k"] that by simp
  from raises_trans [OF step Cons.IH [OF this]] show ?case by simp
qed simp

lemma gate_below:
  "fr_epoch f < highest_epoch g (fr_room f) \<Longrightarrow> fst (gate_replica_frame f g) \<noteq> Apply \<and> snd (gate_replica_frame f g) = g"
  by (auto simp: gate_replica_frame_def highest_epoch_def Let_def split: option.split)

lemma gate_apply:
  assumes "gate_replica_frame f g = (Apply, g')"
  shows "highest_epoch g' (fr_room f) = fr_epoch f"
    and "rg_hub g' = rg_hub g" and "rg_membership g' = rg_membership g" and "rg_conns g' = rg_conns g"
    and "room_apps g' = room_apps g"
proof -
  have g': "g' = persist_epoch_if_advanced (fr_room f) (highest_seen (rg_epochs g) (fr_room f))
      (g\<lparr>rg_epochs := observe (fr_room f) (fr_epoch f) (supersede_if_leading (fr_room f) (fr_epoch f) (rg_epochs g))\<rparr>)"
    and ge: "\<not> fr_epoch f < highest_seen (rg_epochs g) (fr_room f)"
    using assms by (auto simp: gate_replica_frame_def Let_def split: option.splits if_splits)
  from ge show "highest_epoch g' (fr_room f) = fr_epoch f"
    by (simp add: g' highest_epoch_def persist_fields observe_seen)
  show "rg_hub g' = rg_hub g" and "rg_membership g' = rg_membership g" and "rg_conns g' = rg_conns g"
    and "room_apps g' = room_apps g"
    by (simp_all add: g' persist_fields)
qed

lemma fold_observe:
  "distinct (map fst xs) \<Longrightarrow> highest_seen (fold (\<lambda>(r, e). observe r e) xs l) r =
    max (highest_seen l r) (case map_of xs r of None \<Rightarrow> 0 | Some e \<Rightarrow> e)"
proof (induction xs arbitrary: l)
  case (Cons x xs)
  obtain s e where x: "x = (s, e)" by (cases x)
  have "map_of xs s = None" using Cons.prems x by (simp add: map_of_eq_None_iff)
  with Cons x show ?case by (cases "r = s") (simp_all add: observe_seen)
qed simp

lemma restart_epochs: "highest_epoch (from_hub h) r = (case fmlookup (loaded_epochs h) r of None \<Rightarrow> 0 | Some e \<Rightarrow> e)"
proof -
  let ?xs = "sorted_list_of_fmap (loaded_epochs h)"
  have "map_of ?xs r = fmlookup (loaded_epochs h) r"
    by (auto simp: sorted_list_of_fmap_def map_of_map_keys [unfolded comp_def] map_of_eq_None_iff fmlookup_dom_iff
        sorted_list_of_fset.rep_eq map_of_map_restrict restrict_map_def split: if_splits)
  moreover have "distinct (map fst ?xs)"
    by (simp add: sorted_list_of_fmap_def sorted_list_of_fset.rep_eq comp_def)
  ultimately show ?thesis
    using fold_observe [of ?xs leadership_default r]
    by (simp add: highest_epoch_def from_hub_def) (simp add: highest_seen_def leadership_default_def)
qed


text \<open>At the ceiling the fence falls. A node that has seen the greatest epoch of a room and does not
  lead it claims epoch zero: its own frames are then fenced by every replica that has seen more, and it
  applies again the frames of any epoch.\<close>
theorem claim_at_ceiling_wraps:
  assumes "highest_epoch g r = - 1" and "fmlookup (epoch_led (rg_epochs g)) r = None"
  shows "fst (claim_and_persist_epoch r g) = 0 \<and> highest_epoch (snd (claim_and_persist_epoch r g)) r = 0"
  using assms
  by (simp add: claim_and_persist_epoch_def claim_leadership_def highest_epoch_def persist_fields Let_def)
    (simp add: highest_seen_def)

section \<open>Instances\<close>

text \<open>A node that led a room at epoch one is passed by a leader at epoch two.\<close>

definition led_once :: "bytes registry" where
  "led_once = snd (claim_and_persist_epoch [114] (pair_registry (hub_new (ClientId 1))))"

definition frame_at :: "u64 \<Rightarrow> replica_frame" where
  "frame_at e = \<lparr>fr_sender = [98], fr_room = [114], fr_branch = MAIN_BRANCH, fr_epoch = e\<rparr>"

lemma fresh_hub_epochs: "rg_epochs (from_hub (hub_new c)) = leadership_default" "stored_epochs (from_hub (hub_new c)) = fmempty"
  by (simp_all add: from_hub_def hub_new_def sorted_list_of_fmap_def sorted_list_of_fset.rep_eq)

lemma led_once_epochs: "highest_epoch led_once [114] = 1" "stored_epoch led_once [114] = 1"
    "fmlookup (epoch_led (rg_epochs led_once)) [114] = Some 1" "rg_membership led_once = Some pair"
  by (simp_all add: led_once_def pair_registry_def set_membership_def fresh_hub_epochs claim_and_persist_epoch_def
      claim_leadership_def persist_epoch_if_advanced_def highest_epoch_def highest_seen_def leadership_default_def stored_epoch_def Let_def)

lemma led_once_applies: "\<exists>g. gate_replica_frame (frame_at 2) led_once = (Apply, g)"
  using led_once_epochs
  by (simp add: gate_replica_frame_def frame_at_def Let_def is_self_def pair_members pair_replicas pair_owns
      leads_below_def highest_epoch_def)


end
