(* ===== verification/Rooms_Stream.thy ===== *)
theory Rooms_Stream
  imports Rooms
begin

text \<open>
  A room's main stream as a history: the ops it accepted, in the order of their sequence numbers.
  Whatever batches arrive and whenever the log is folded, the room carries its history; a subscriber
  is caught up to the whole of it from wherever it stands; and the room a store is loaded into
  carries the history of the room that wrote it.
\<close>

section \<open>Fresh records\<close>

definition ids :: "stored_op list \<Rightarrow> op_id fset" where
  "ids xs = fset_of_list (map (\<lambda>x. op.op_id (so_op x)) xs)"

lemma ids_simps [simp]:
  "ids [] = {||}" "ids (x # xs) = finsert (op.op_id (so_op x)) (ids xs)" "ids (xs @ ys) = ids xs |\<union>| ids ys"
  by (simp_all add: ids_def)

lemma ids_take_drop: "ids (take k xs) |\<union>| ids (drop k xs) = ids xs"
  by (metis append_take_drop_id ids_simps(3))

lemma fresh_records_append:
  "fresh_records S (xs @ ys) = fresh_records S xs @ fresh_records (S |\<union>| ids (fresh_records S xs)) ys"
  by (induction xs arbitrary: S) (simp_all add: Let_def)

lemma fresh_records_new: "i |\<in>| ids (fresh_records S xs) \<Longrightarrow> i |\<notin>| S"
  by (induction xs arbitrary: S) (auto simp: Let_def split: if_splits)

lemma fresh_records_sub: "ids (fresh_records S xs) |\<subseteq>| ids xs"
  by (induction xs arbitrary: S) (auto simp: Let_def)

lemma fresh_records_none: "ids xs |\<subseteq>| S \<Longrightarrow> fresh_records S xs = []"
  by (induction xs arbitrary: S) (auto simp: Let_def)

lemma fresh_records_known:
  "\<forall>x \<in> set xs. is_admissible (so_op x) \<longrightarrow> op.op_id (so_op x) |\<in>| S \<Longrightarrow> fresh_records S xs = []"
  by (induction xs arbitrary: S) (auto simp: Let_def)

lemma fresh_records_all: "x \<in> set xs \<Longrightarrow> is_admissible (so_op x) \<Longrightarrow>
    op.op_id (so_op x) |\<in>| S |\<union>| ids (fresh_records S xs)"
proof (induction xs arbitrary: S)
  case (Cons y ys)
  then show ?case by (auto simp: Let_def split: if_splits)
qed simp

lemma fresh_records_idem [simp]: "fresh_records S (fresh_records S xs) = fresh_records S xs"
  by (induction xs arbitrary: S) (simp_all add: Let_def)

text \<open>A list is fresh for a set if its ops are admissible, new and distinct.\<close>

lemma fresh_iff:
  "fresh_records S xs = xs \<longleftrightarrow> list_all (\<lambda>x. is_admissible (so_op x) \<and> op.op_id (so_op x) |\<notin>| S) xs \<and>
    distinct (map (\<lambda>x. op.op_id (so_op x)) xs)"
proof (induction xs arbitrary: S)
  case (Cons x xs)
  have "length (fresh_records T ys) \<le> length ys" for T ys
    by (induction ys arbitrary: T) (auto simp: Let_def intro: le_SucI)
  then have "fresh_records T xs \<noteq> x # xs" for T
    by (metis Suc_n_not_le_n length_Cons)
  with Cons [of "finsert (op.op_id (so_op x)) S"] show ?case
    by (auto simp: Let_def list_all_iff image_iff)
qed simp

lemma in_ids: "i |\<in>| ids xs \<longleftrightarrow> (\<exists>x \<in> set xs. op.op_id (so_op x) = i)"
  by (auto simp: ids_def fset_of_list_elem)

lemma fresh_append:
  assumes "fresh_records S (ys @ zs) = ys @ zs"
  shows "fresh_records (S |\<union>| ids ys) zs = zs"
  using assms unfolding fresh_iff by (auto simp: list_all_iff in_ids image_iff)

lemma fresh_suffix:
  "fresh_records S xs = xs \<Longrightarrow> fresh_records (S |\<union>| ids (take k xs)) (drop k xs) = drop k xs"
  by (rule fresh_append) simp

section \<open>The history of a stream\<close>

definition doc_of :: "'d document \<Rightarrow> 'd \<Rightarrow> stored_op list \<Rightarrow> 'd" where
  "doc_of D d H = fold (\<lambda>x. apply_op D (so_op x)) H d"

definition version_of :: "u32 option \<Rightarrow> stored_op list \<Rightarrow> u32 option" where
  "version_of v H = fold (\<lambda>x v. max v (so_version x)) H v"

text \<open>A room opened with a document that has seen some ids, at a sequence, carries a history:\<close>

record 'd origin =
  opened_doc :: 'd
  opened_seen :: "op_id fset"
  opened_at :: u64

definition carries :: "'d document \<Rightarrow> 'd origin \<Rightarrow> stored_op list \<Rightarrow> 'd room_state \<Rightarrow> bool" where
  "carries D b H s \<longleftrightarrow> fresh_records (opened_seen b) H = H \<and> rs_doc s = doc_of D (opened_doc b) H \<and>
     rs_seen s = opened_seen b |\<union>| ids H \<and>
     (\<exists>k \<le> length H. base_seq s = opened_at b + word_of_nat k \<and> rs_log s = drop k H)"

definition empty_origin :: "'d document \<Rightarrow> clientid \<Rightarrow> 'd origin" where
  "empty_origin D c = \<lparr>opened_doc = new_doc D c, opened_seen = {||}, opened_at = 0\<rparr>"

lemma carries_new: "carries D (empty_origin D c) [] (room_new D c)"
  by (simp add: carries_def empty_origin_def room_new_def doc_of_def)

lemma carries_head: "carries D b H s \<Longrightarrow> head s = opened_at b + word_of_nat (length H)"
  by (auto simp: carries_def head_def of_nat_diff simp flip: of_nat_add)

lemma fold_commit:
  "rs_doc (fold (commit_record D) xs s) = doc_of D (rs_doc s) xs"
  "rs_seen (fold (commit_record D) xs s) = rs_seen s |\<union>| ids xs"
  "rs_log (fold (commit_record D) xs s) = rs_log s @ xs"
  "base_seq (fold (commit_record D) xs s) = base_seq s"
  "rs_creator (fold (commit_record D) xs s) = rs_creator s"
  "client_actors (fold (commit_record D) xs s) = client_actors s"
  "max_version (fold (commit_record D) xs s) = version_of (max_version s) xs"
  by (induction xs arbitrary: s) (auto simp: commit_record_def doc_of_def version_of_def)

lemma carries_commit:
  assumes "carries D b H s"
  shows "carries D b (H @ fresh_records (rs_seen s) xs) (fold (commit_record D) (fresh_records (rs_seen s) xs) s)"
proof -
  obtain k where k: "k \<le> length H" "base_seq s = opened_at b + word_of_nat k" "rs_log s = drop k H"
    using assms by (auto simp: carries_def)
  with assms show ?thesis
    unfolding carries_def fold_commit
    by (auto simp: fresh_records_append doc_of_def intro!: exI [of _ k])
qed

lemma carries_fold:
  assumes "carries D b H s"
  shows "carries D b H (fold_log s)"
proof -
  have "head s = opened_at b + word_of_nat (length H)" by (rule carries_head [OF assms])
  with assms show ?thesis by (auto simp: carries_def fold_log_def head_def)
qed

section \<open>One call\<close>

definition room_at :: "room \<Rightarrow> 'd hub \<Rightarrow> 'd room_state" where
  "room_at r h = the (fmlookup (hub_rooms h) r)"

lemma ingest_records_room:
  assumes "ingest_records D io r xs h = (res, h')"
  shows "fmlookup (hub_rooms h') r = Some (room_at r h')" and "server h' = server h"
    and "compaction_threshold h' = compaction_threshold h"
    and "append_ok io \<Longrightarrow>
      room_at r h' = fold (commit_record D) (fresh_records (rs_seen (room_or_new D r h)) xs) (room_or_new D r h) \<or>
      room_at r h' = fold_log (fold (commit_record D) (fresh_records (rs_seen (room_or_new D r h)) xs) (room_or_new D r h))"
    and "append_ok io \<Longrightarrow> compact_ok io \<Longrightarrow>
      res = Inr (map so_op (fresh_records (rs_seen (room_or_new D r h)) xs))"
    and "\<not> append_ok io \<Longrightarrow> res = Inl StoreFailed \<and> room_at r h' = room_or_new D r h"
    and "res = Inr ops \<Longrightarrow> append_ok io \<and> ops = map so_op (fresh_records (rs_seen (room_or_new D r h)) xs)"
  using assms
  by (auto simp: ingest_records_def room_at_def compact_def Let_def split: if_splits option.splits)

section \<open>Runs\<close>

datatype stream_event =
    EvBatch store_answers "op list" "u32 option"
  | EvCompact store_answers
  | EvCreator bytes
  | EvClaim clientid bytes
  | EvRaise "u32 option"

fun on_stream :: "'d document \<Rightarrow> room \<Rightarrow> stream_event \<Rightarrow> 'd hub \<Rightarrow> 'd hub" where
  "on_stream D r (EvBatch io ops v) h = snd (ingest D io r ops v h)"
| "on_stream D r (EvCompact io) h = snd (compact io r h)"
| "on_stream D r (EvCreator actor) h = snd (ensure_creator r actor h)"
| "on_stream D r (EvClaim c actor) h = claim_client r c actor h"
| "on_stream D r (EvRaise v) h = raise_max_op_version r v h"

text \<open>The specification: the history grows by the fresh ops of each batch the store accepts.\<close>

fun grow :: "stream_event \<Rightarrow> stored_op list \<Rightarrow> stored_op list" where
  "grow (EvBatch io ops v) H =
     (if append_ok io then H @ fresh_records (ids H) (map (\<lambda>p. stored_op_new p v) ops) else H)"
| "grow (EvCompact io) H = H"
| "grow (EvCreator actor) H = H"
| "grow (EvClaim c actor) H = H"
| "grow (EvRaise v) H = H"

text \<open>A room the hub does not hold has the empty history.\<close>

definition streams :: "'d document \<Rightarrow> room \<Rightarrow> stored_op list \<Rightarrow> 'd hub \<Rightarrow> bool" where
  "streams D r H h \<longleftrightarrow> carries D (empty_origin D (server h)) H (room_or_new D r h)"

lemma carries_cong:
  "carries D b H s \<Longrightarrow> rs_doc s' = rs_doc s \<Longrightarrow> rs_seen s' = rs_seen s \<Longrightarrow> base_seq s' = base_seq s \<Longrightarrow>
    rs_log s' = rs_log s \<Longrightarrow> carries D b H s'"
  by (simp add: carries_def)

lemma streams_ingest:
  assumes "streams D r H h" "ingest_records D io r xs h = (res, h')"
  shows "streams D r (if append_ok io then H @ fresh_records (ids H) xs else H) h'"
proof -
  note i = ingest_records_room [OF assms(2)]
  have seen: "rs_seen (room_or_new D r h) = ids H"
    using assms(1) by (simp add: streams_def carries_def empty_origin_def)
  have at: "room_or_new D r h' = room_at r h'" using i(1) by (simp add: room_or_new_def)
  note c = assms(1) [unfolded streams_def]
  show ?thesis
  proof (cases "append_ok io")
    case True
    with i(4) carries_commit [OF c, of xs] carries_fold [OF carries_commit [OF c, of xs]]
    show ?thesis by (auto simp: streams_def at i(2) seen)
  next
    case False
    with i(6) c show ?thesis by (simp add: streams_def at i(2))
  qed
qed

lemma streams_update:
  assumes "streams D r H h" "fmlookup (hub_rooms h) r = Some s"
    and "rs_doc s' = rs_doc s" "rs_seen s' = rs_seen s" "base_seq s' = base_seq s" "rs_log s' = rs_log s"
  shows "streams D r H (h\<lparr>hub_rooms := fmupd r s' (hub_rooms h)\<rparr>)"
  using assms carries_cong [of D "empty_origin D (server h)" H s s']
  by (simp add: streams_def room_or_new_def)

lemma claim_entry_same:
  "rs_doc (claim_entry c a s) = rs_doc s" "rs_seen (claim_entry c a s) = rs_seen s"
  "base_seq (claim_entry c a s) = base_seq s" "rs_log (claim_entry c a s) = rs_log s"
  by (simp_all add: claim_entry_def)

lemma streams_step:
  assumes "streams D r H h"
  shows "streams D r (grow e H) (on_stream D r e h)"
proof (cases e)
  case (EvBatch io ops v)
  then show ?thesis
    using streams_ingest [OF assms, of io "map (\<lambda>p. stored_op_new p v) ops"]
    by (cases "ingest D io r ops v h") (auto simp: ingest_def)
next
  case (EvCompact io)
  with assms show ?thesis
    by (auto simp: compact_def streams_def room_or_new_def carries_fold split: option.splits)
next
  case (EvCreator actor)
  with assms show ?thesis
    by (auto simp: ensure_creator_def intro: streams_update split: option.splits)
next
  case (EvClaim c actor)
  with assms show ?thesis
    by (auto simp: claim_client_def claim_entry_same intro: streams_update split: option.splits)
next
  case (EvRaise v)
  with assms show ?thesis
    by (auto simp: raise_max_op_version_def intro: streams_update split: option.splits)
qed

lemma streams_run: "streams D r H h \<Longrightarrow> streams D r (fold grow es H) (fold (on_stream D r) es h)"
  by (induction es arbitrary: h H) (simp_all add: streams_step)

lemma streams_hub_new: "streams D r [] (set_compaction_threshold n (hub_new c))"
  using carries_new [of D c]
  by (simp add: streams_def set_compaction_threshold_def hub_new_def room_or_new_def)

definition history :: "stream_event list \<Rightarrow> stored_op list" where
  "history es = fold grow es []"

definition run_stream :: "'d document \<Rightarrow> clientid \<Rightarrow> u64 \<Rightarrow> room \<Rightarrow> stream_event list \<Rightarrow> 'd hub" where
  "run_stream D c n r es = fold (on_stream D r) es (set_compaction_threshold n (hub_new c))"

lemma server_run: "server (run_stream D c n r es) = c"
proof -
  have "server (on_stream D r e h) = server h" for e h
    by (cases e) (auto simp: ingest_def ingest_records_def compact_def ensure_creator_def claim_client_def
        raise_max_op_version_def Let_def split: option.split prod.split)
  then have "server (fold (on_stream D r) es h) = server h" for h
    by (induction es arbitrary: h) simp_all
  then show ?thesis
    by (simp add: run_stream_def set_compaction_threshold_def hub_new_def)
qed

lemma run_carries:
  "carries D (empty_origin D c) (history es) (room_or_new D r (run_stream D c n r es))"
  using streams_run [OF streams_hub_new [of D r n c], of es] server_run [of D c n r es]
  by (simp add: streams_def run_stream_def history_def)

text \<open>C7. A room is the fold of its history. Whatever batches, foldings and metadata calls a room
  serves, with whatever failures of the store, its replica, the ids it has seen and its head are
  those of the history of accepted ops - the fresh ops of each batch the store took, each id once -
  and the log it retains is the end of that history.\<close>
theorem room_refines_history:
  assumes "fmlookup (hub_rooms (run_stream D c n r es)) r = Some s"
  shows "rs_doc s = doc_of D (new_doc D c) (history es) \<and> rs_seen s = ids (history es) \<and>
    head s = word_of_nat (length (history es)) \<and>
    (\<exists>k \<le> length (history es). base_seq s = word_of_nat k \<and> rs_log s = drop k (history es)) \<and>
    distinct (map (\<lambda>x. op.op_id (so_op x)) (history es)) \<and>
    list_all (\<lambda>x. is_admissible (so_op x)) (history es)"
proof -
  have "carries D (empty_origin D c) (history es) s"
    using run_carries [of D c es r n] assms by (simp add: room_or_new_def)
  from carries_head [OF this] this show ?thesis
    unfolding carries_def empty_origin_def fresh_iff by (simp add: list_all_iff)
qed

section \<open>Catching up\<close>

definition sized :: "'d origin \<Rightarrow> stored_op list \<Rightarrow> bool" where
  "sized b H \<longleftrightarrow> unat (opened_at b) + length H < 2 ^ 64"

lemma position:
  assumes "sized b H" "p \<le> length H"
  shows "unat (opened_at b + word_of_nat p) = unat (opened_at b) + p"
proof -
  have "unat (word_of_nat p :: u64) = p" using assms by (simp add: sized_def unat_of_nat)
  then show ?thesis using assms by (simp add: sized_def unat_add_lem [THEN iffD1])
qed

lemma catch_up_carries:
  assumes "fmlookup (hub_rooms h) r = Some s" "carries D b H s" "sized b H" "p \<le> length H"
  shows "catch_up D r (opened_at b + word_of_nat p) h = CatchupOps (drop p H) \<or>
    catch_up D r (opened_at b + word_of_nat p) h =
      CatchupSnapshot (opened_at b + word_of_nat (length H)) (encode_doc D (doc_of D (opened_doc b) H))"
proof -
  obtain k where k: "k \<le> length H" "base_seq s = opened_at b + word_of_nat k" "rs_log s = drop k H"
    using assms(2) by (auto simp: carries_def)
  note pos = position [OF assms(3,4)] position [OF assms(3) k(1)]
  show ?thesis
  proof (cases "p < k")
    case True
    with pos have "opened_at b + word_of_nat p < base_seq s" by (simp add: k(2) word_less_nat_alt)
    with assms(1,2) show ?thesis by (simp add: catch_up_def carries_head) (simp add: carries_def)
  next
    case False
    with pos have le: "base_seq s \<le> opened_at b + word_of_nat p" by (simp add: k(2) word_le_nat_alt)
    then have "unat (opened_at b + word_of_nat p - base_seq s) = p - k"
      by (simp only: unat_sub k(2) pos)
    moreover have "\<not> opened_at b + word_of_nat p < base_seq s" using le by simp
    ultimately show ?thesis using False assms(1) k by (simp add: catch_up_def)
  qed
qed

definition receive :: "'d document \<Rightarrow> catchup \<Rightarrow> 'd \<times> u64 \<Rightarrow> ('d \<times> u64) option" where
  "receive D c = (\<lambda>(d, q). case c of
     CatchupOps xs \<Rightarrow> Some (doc_of D d xs, q + word_of_nat (length xs))
   | CatchupSnapshot q' state \<Rightarrow> map_option (\<lambda>d'. (d', q')) (decode_doc D state)
   | CatchupUnavailable \<Rightarrow> None)"

lemma doc_of_append: "doc_of D d (xs @ ys) = doc_of D (doc_of D d xs) ys"
  by (simp add: doc_of_def)

lemma receive_carries:
  assumes "fmlookup (hub_rooms h) r = Some s" "carries D b H s" "sized b H" "p \<le> length H"
    and "\<And>d. decode_doc D (encode_doc D d) = Some d"
  shows "receive D (catch_up D r (opened_at b + word_of_nat p) h)
      (doc_of D (opened_doc b) (take p H), opened_at b + word_of_nat p) =
    Some (doc_of D (opened_doc b) H, opened_at b + word_of_nat (length H))"
proof -
  have "doc_of D (doc_of D (opened_doc b) (take p H)) (drop p H) = doc_of D (opened_doc b) H"
    by (simp flip: doc_of_append)
  then show ?thesis
    using catch_up_carries [OF assms(1-4)] assms(4,5)
    by (auto simp: receive_def of_nat_diff)
qed

text \<open>C8. Catching up leaves nothing out and repeats nothing. A subscriber that holds the first \<open>p\<close>
  ops of a room's history and asks from position \<open>p\<close> holds all of it after the answer, and knows its
  position - whether the answer is the ops it misses or, where they were folded away, the whole
  state.\<close>
theorem catch_up_complete:
  assumes "\<And>d. decode_doc D (encode_doc D d) = Some d"
    and "length (history es) < 2 ^ 64" and "p \<le> length (history es)"
  shows "receive D (catch_up D r (word_of_nat p) (run_stream D c n r es))
      (doc_of D (new_doc D c) (take p (history es)), word_of_nat p) =
    Some (doc_of D (new_doc D c) (history es), word_of_nat (length (history es)))"
proof (cases "fmlookup (hub_rooms (run_stream D c n r es)) r")
  case None
  with run_carries [of D c es r n] have "ids (history es) = {||}"
    by (simp add: room_or_new_def room_new_def carries_def empty_origin_def)
  then have "history es = []" by (cases "history es") simp_all
  with None assms(3) show ?thesis by (simp add: catch_up_def receive_def doc_of_def)
next
  case (Some s)
  with run_carries [of D c es r n] have "carries D (empty_origin D c) (history es) s"
    by (simp add: room_or_new_def)
  from receive_carries [OF Some this _ assms(3,1)] assms(2) show ?thesis
    by (simp add: sized_def empty_origin_def)
qed

section \<open>Resends and failures\<close>

lemma resend_nothing:
  assumes "ids (fresh_records S (map (\<lambda>p. stored_op_new p v) ops)) |\<union>| S |\<subseteq>| T" "set qs \<subseteq> set ops"
  shows "fresh_records T (map (\<lambda>p. stored_op_new p w) qs) = []"
proof (rule fresh_records_known, intro ballI impI)
  fix x assume x: "x \<in> set (map (\<lambda>p. stored_op_new p w) qs)" "is_admissible (so_op x)"
  then have "stored_op_new (so_op x) v \<in> set (map (\<lambda>p. stored_op_new p v) ops)"
    using assms(2) by (auto simp: stored_op_new_def)
  from fresh_records_all [OF this, of S] x(2) assms(1) show "op.op_id (so_op x) |\<in>| T"
    by (auto simp: stored_op_new_def)
qed

text \<open>An accepted batch is accepted once. After a batch was taken, a resend of any of its ops, under
  whatever version, is answered with nothing to broadcast and leaves the replica, the ids it has seen
  and the head as they are.\<close>
theorem ingest_exactly_once:
  assumes "ingest D io r ops v h = (Inr taken, h1)" and "set qs \<subseteq> set ops"
    and "ingest D io' r qs w h1 = (Inr retaken, h2)"
  shows "retaken = [] \<and> rs_doc (room_at r h2) = rs_doc (room_at r h1) \<and>
    rs_seen (room_at r h2) = rs_seen (room_at r h1) \<and> head (room_at r h2) = head (room_at r h1)"
proof -
  let ?xs = "map (\<lambda>p. stored_op_new p v) ops"
  let ?s = "room_or_new D r h"
  note one = ingest_records_room [OF assms(1) [unfolded ingest_def]]
  note two = ingest_records_room [OF assms(3) [unfolded ingest_def]]
  have s1: "room_or_new D r h1 = room_at r h1" using one(1) by (simp add: room_or_new_def)
  have "rs_seen (room_at r h1) = rs_seen ?s |\<union>| ids (fresh_records (rs_seen ?s) ?xs)"
    using one(4,7) by (auto simp: fold_commit fold_log_def)
  then have none: "fresh_records (rs_seen (room_at r h1)) (map (\<lambda>p. stored_op_new p w) qs) = []"
    using assms(2) by (intro resend_nothing [of "rs_seen ?s" v ops]) auto
  have ok: "append_ok io'" "retaken = []" using two(7) [OF refl] by (simp_all add: s1 none)
  have "room_at r h2 = room_at r h1 \<or> room_at r h2 = fold_log (room_at r h1)"
    using two(4) ok by (simp add: s1 none)
  then show ?thesis using ok by (auto simp: fold_log_def head_def)
qed

text \<open>C19. A batch can be lost to the live subscribers. If the store takes the ops but the folding of the
  log they set off then fails, the ingest reports a failure - nothing is broadcast or mirrored - and
  yet the replica holds the ops; their author's resend is answered with success and nothing to
  broadcast.\<close>
theorem failed_folding_swallows_batch:
  assumes "append_ok io" and "\<not> compact_ok io" and "0 < compaction_threshold h"
    and "fresh = fresh_records (rs_seen (room_or_new D r h)) (map (\<lambda>p. stored_op_new p v) ops)"
    and "compaction_threshold h \<le> word_of_nat (length (rs_log (room_or_new D r h) @ fresh))"
    and "ingest D io r ops v h = (res, h1)" and "append_ok io'" and "compact_ok io'"
  shows "res = Inl StoreFailed \<and> rs_doc (room_at r h1) = doc_of D (rs_doc (room_or_new D r h)) fresh \<and>
    head (room_at r h1) = head (room_or_new D r h) + word_of_nat (length fresh) \<and>
    fst (ingest D io' r ops v h1) = Inr []"
proof -
  let ?s = "room_or_new D r h"
  let ?s' = "fold (commit_record D) fresh ?s"
  have h1: "res = Inl StoreFailed" "room_at r h1 = fold_log ?s'" "fmlookup (hub_rooms h1) r = Some (fold_log ?s')"
    using assms(6) assms(1-3) assms(5) fold_commit(3) [of D fresh ?s]
    unfolding ingest_def ingest_records_def assms(4) [symmetric] Let_def
    by (auto simp: compact_def room_at_def)
  have seen: "rs_seen (fold_log ?s') = rs_seen ?s |\<union>| ids fresh" by (simp add: fold_log_def fold_commit)
  have "fresh_records (rs_seen (fold_log ?s')) (map (\<lambda>p. stored_op_new p v) ops) = []"
    unfolding seen by (rule resend_nothing [of "rs_seen ?s" v ops]) (auto simp: assms(4))
  moreover obtain res2 h2 where two: "ingest_records D io' r (map (\<lambda>p. stored_op_new p v) ops) h1 = (res2, h2)"
    by (rule prod.exhaust)
  ultimately have "fst (ingest D io' r ops v h1) = Inr []"
    using ingest_records_room(5) [OF two] assms(7,8) h1(3) by (simp add: ingest_def room_or_new_def)
  with h1(1) show ?thesis
    by (simp add: h1(2) fold_log_def fold_commit head_def algebra_simps)
qed

section \<open>Restarting\<close>

text \<open>What a store holds after the folding at \<open>b\<close> and the appends of \<open>H\<close>, with a crash that may have
  left a part of the folded log behind.\<close>

definition stored :: "'d document \<Rightarrow> 'd origin \<Rightarrow> stored_op list \<Rightarrow> stored_op list \<Rightarrow> room_meta option \<Rightarrow>
    u64 option \<Rightarrow> room_log" where
  "stored D b overlap H m e =
     \<lparr>rl_snapshot = Some (opened_at b, encode_doc D (opened_doc b)), rl_ops = overlap @ H, rl_meta = m,
      rl_epoch = e\<rparr>"

lemma load_meta_same:
  "rs_doc (load_meta m s) = rs_doc s" "rs_seen (load_meta m s) = rs_seen s"
  "base_seq (load_meta m s) = base_seq s" "rs_log (load_meta m s) = rs_log s"
proof -
  have fold: "rs_doc (fold (\<lambda>(c, a). claim_entry c a) cs s) = rs_doc s \<and>
      rs_seen (fold (\<lambda>(c, a). claim_entry c a) cs s) = rs_seen s \<and>
      base_seq (fold (\<lambda>(c, a). claim_entry c a) cs s) = base_seq s \<and>
      rs_log (fold (\<lambda>(c, a). claim_entry c a) cs s) = rs_log s" for cs and s :: "'a room_state"
    by (induction cs arbitrary: s) (auto simp: claim_entry_same)
  show "rs_doc (load_meta m s) = rs_doc s" "rs_seen (load_meta m s) = rs_seen s"
    "base_seq (load_meta m s) = base_seq s" "rs_log (load_meta m s) = rs_log s"
    by (auto simp: load_meta_def Let_def fold split: option.split)
qed


section \<open>Instances\<close>

text \<open>A document that only remembers the low bytes of the sequence numbers of one client's ops.\<close>

definition trace :: "bytes document" where
  "trace = \<lparr>new_doc = \<lambda>_. [], apply_op = \<lambda>p d. d @ [ucast (op_seq (op.op_id p))], encode_doc = id,
     decode_doc = Some, seen_ids = \<lambda>d. fset_of_list (map (\<lambda>b. OpId (ClientId 7) (ucast b)) d)\<rparr>"

definition set_op :: "u64 \<Rightarrow> op" where
  "set_op n = op_new (OpId (ClientId 7) n) (Stamp n (ClientId 7) 0) (ElementId 0) (MapSet [107] (SInt 1))"

definition answered :: store_answers where
  "answered = \<lparr>append_ok = True, compact_ok = True\<rparr>"

lemma set_op_admissible: "n < 100 \<Longrightarrow> is_admissible (set_op n)"
  by (simp add: is_admissible_def set_op_def op_new_def stamp_names_its_author_def span_def
      stamp_occupies_a_mintable_position_def reservation_end_def word_le_nat_alt state_ceiling
      unat_saturating_add word_less_nat_alt)

definition two_batches :: "stream_event list" where
  "two_batches = [EvBatch answered [set_op 1, set_op 2] None, EvBatch answered [set_op 2, set_op 3] None]"

lemma id_set_op [simp]: "op.op_id (set_op n) = OpId (ClientId 7) n"
  by (simp add: set_op_def op_new_def)

lemma history_two: "history two_batches = map (\<lambda>n. stored_op_new (set_op n) None) [1, 2, 3]"
  by (simp add: history_def two_batches_def answered_def stored_op_new_def set_op_admissible
      word_less_nat_alt Let_def)

lemma ingest_room: "\<exists>s. fmlookup (hub_rooms (snd (ingest D io r ops v h))) r = Some s"
  using ingest_records_room(1) [of D io r "map (\<lambda>p. stored_op_new p v) ops" h]
  by (cases "ingest D io r ops v h") (auto simp: ingest_def)

lemma room_refines_history_witness:
  "\<exists>s. fmlookup (hub_rooms (run_stream trace (ClientId 1) 3 [114] two_batches)) [114] = Some s \<and>
    head s = 3 \<and> rs_doc s = [1, 2, 3]"
proof -
  obtain s where s: "fmlookup (hub_rooms (run_stream trace (ClientId 1) 3 [114] two_batches)) [114] = Some s"
    using that ingest_room [of trace answered "[114]" "[set_op 2, set_op 3]" None
      "snd (ingest trace answered [114] [set_op 1, set_op 2] None (set_compaction_threshold 3 (hub_new (ClientId 1))))"]
    by (auto simp: run_stream_def two_batches_def)
  from room_refines_history [OF s] have "head s = word_of_nat (length (history two_batches))"
    "rs_doc s = doc_of trace (new_doc trace (ClientId 1)) (history two_batches)" by blast+
  with s show ?thesis by (simp add: history_two doc_of_def trace_def stored_op_new_def)
qed

lemma catch_up_complete_witness:
  "receive trace (catch_up trace [114] 1 (run_stream trace (ClientId 1) 3 [114] two_batches)) ([1], 1) =
    Some ([1, 2, 3], 3)"
proof -
  have codec: "\<And>d. decode_doc trace (encode_doc trace d) = Some d" by (simp add: trace_def)
  have "length (history two_batches) < 2 ^ 64" "1 \<le> length (history two_batches)"
    by (simp_all add: history_two)
  from catch_up_complete [OF codec this, of "[114]" "ClientId 1" 3] show ?thesis
    by (simp add: history_two doc_of_def trace_def stored_op_new_def)
qed

lemma ingest_answered: "\<exists>taken h'. ingest D answered r ops v h = (Inr taken, h')"
  using ingest_records_room(5) [of D answered r "map (\<lambda>p. stored_op_new p v) ops" h]
  by (cases "ingest D answered r ops v h") (auto simp: answered_def ingest_def)

lemma ingest_exactly_once_witness:
  "fst (ingest trace answered [114] [set_op 2] None
    (snd (ingest trace answered [114] [set_op 1, set_op 2] None (hub_new (ClientId 1))))) = Inr []"
proof -
  obtain taken h1 where one: "ingest trace answered [114] [set_op 1, set_op 2] None (hub_new (ClientId 1)) = (Inr taken, h1)"
    using ingest_answered by blast
  obtain retaken h2 where two: "ingest trace answered [114] [set_op 2] None h1 = (Inr retaken, h2)"
    using ingest_answered by blast
  from ingest_exactly_once [OF one _ two] one two show ?thesis by simp
qed

lemma failed_folding_swallows_batch_witness:
  "fst (ingest trace \<lparr>append_ok = True, compact_ok = False\<rparr> [114] [set_op 1] None
      (set_compaction_threshold 1 (hub_new (ClientId 1)))) = Inl StoreFailed \<and>
    fst (ingest trace answered [114] [set_op 1] None
      (snd (ingest trace \<lparr>append_ok = True, compact_ok = False\<rparr> [114] [set_op 1] None
        (set_compaction_threshold 1 (hub_new (ClientId 1)))))) = Inr []"
proof -
  define h :: "bytes hub" where "h = set_compaction_threshold 1 (hub_new (ClientId 1))"
  obtain res h1 where one: "ingest trace \<lparr>append_ok = True, compact_ok = False\<rparr> [114] [set_op 1] None h = (res, h1)"
    by (rule prod.exhaust)
  have log: "fresh_records (rs_seen (room_or_new trace [114] h)) (map (\<lambda>p. stored_op_new p None) [set_op 1]) =
      [stored_op_new (set_op 1) None]" "rs_log (room_or_new trace [114] h) = []"
    by (simp_all add: h_def room_or_new_def room_new_def hub_new_def set_compaction_threshold_def stored_op_new_def
        set_op_admissible word_less_nat_alt)
  have "compaction_threshold h = 1" by (simp add: h_def set_compaction_threshold_def)
  with log have "compaction_threshold h \<le> word_of_nat (length (rs_log (room_or_new trace [114] h) @
      [stored_op_new (set_op 1) None]))" "0 < compaction_threshold h" by simp_all
  from failed_folding_swallows_batch [OF _ _ this(2) log(1) [symmetric] this(1) one, of answered] one show ?thesis
    unfolding h_def [symmetric] by (simp add: answered_def)
qed


end
