(* ===== verification/Cluster_Catch_Up.thy ===== *)
theory Cluster_Catch_Up
  imports Cluster_Safety Rooms_Stream
begin

text \<open>
  The frame a leader makes for a follower, delivered: the follower stands where the leader stands and
  says so. And what a follower's report of its heads does to the leader's book.
\<close>

section \<open>Standing in a history\<close>

text \<open>A room stands at a position of a history: its replica, the ids it has seen and its head are those of
  the history up to there. What its log retains, and under which versions, is its own.\<close>

definition stands :: "'d document \<Rightarrow> 'd origin \<Rightarrow> stored_op list \<Rightarrow> nat \<Rightarrow> 'd room_state \<Rightarrow> bool" where
  "stands D b H p s \<longleftrightarrow> rs_doc s = doc_of D (opened_doc b) (take p H) \<and>
     rs_seen s = opened_seen b |\<union>| ids (take p H) \<and> head s = opened_at b + word_of_nat p"

lemma carries_stands: "carries D b H s \<Longrightarrow> stands D b H (length H) s"
  using carries_head [of D b H s] by (simp add: stands_def carries_def)

lemma stands_cong:
  "stands D b H p s \<Longrightarrow> rs_doc s' = rs_doc s \<Longrightarrow> rs_seen s' = rs_seen s \<Longrightarrow> head s' = head s \<Longrightarrow> stands D b H p s'"
  by (simp add: stands_def)

lemma stands_fold_log [simp]: "stands D b H p (fold_log s) = stands D b H p s"
  by (simp add: stands_def head_def fold_log_def)

text \<open>Ops that travel lose the version they were accepted under, and nothing else that counts.\<close>

definition travelled :: "stored_op \<Rightarrow> stored_op" where
  "travelled x = stored_op_new (so_op x) None"

lemma travelled_op [simp]: "so_op (travelled x) = so_op x"
  by (simp add: travelled_def stored_op_new_def)

lemma travelled_records: "map (\<lambda>p. stored_op_new p v) (map so_op xs) = map (\<lambda>x. stored_op_new (so_op x) v) xs"
  by simp

lemma fresh_travelled: "fresh_records S (map travelled xs) = map travelled (fresh_records S xs)"
  by (induction xs arbitrary: S) (simp_all add: Let_def)

lemma doc_of_travelled: "doc_of D d (map travelled xs) = doc_of D d xs"
  by (simp add: doc_of_def fold_map comp_def)

lemma ids_travelled: "ids (map travelled xs) = ids xs"
  by (induction xs) simp_all

lemma ingest_stands:
  assumes "stands D b H p (room_or_new D r h)" "fresh_records (opened_seen b) H = H" "p \<le> length H"
    and "append_ok io" "compact_ok io"
  shows "\<exists>applied h'. ingest D io r (map so_op (drop p H)) None h = (Inr applied, h') \<and>
    stands D b H (length H) (room_or_new D r h') \<and> server h' = server h"
proof -
  let ?s = "room_or_new D r h" and ?xs = "map travelled (drop p H)"
  obtain res h' where call: "ingest_records D io r ?xs h = (res, h')" by (rule prod.exhaust)
  note i = ingest_records_room [OF call]
  have "fresh_records (rs_seen ?s) ?xs = ?xs"
    using fresh_suffix [OF assms(2), of p] assms(1) by (simp add: stands_def fresh_travelled)
  moreover have "stands D b H (length H) (fold (commit_record D) ?xs ?s)"
  proof -
    have "doc_of D (doc_of D (opened_doc b) (take p H)) (drop p H) = doc_of D (opened_doc b) H"
      by (simp flip: doc_of_append)
    moreover have "ids (take p H) |\<union>| ids (drop p H) = ids H" by (rule ids_take_drop)
    ultimately show ?thesis
      using assms(1,3)
      by (simp add: stands_def fold_commit doc_of_travelled ids_travelled head_def of_nat_diff
          sup_assoc algebra_simps)
  qed
  moreover have "room_or_new D r h' = room_at r h'" using i(1) by (simp add: room_or_new_def)
  ultimately have "stands D b H (length H) (room_or_new D r h')"
    using i(4) assms(4) by auto
  moreover have "ingest D io r (map so_op (drop p H)) None h = (res, h')"
    using call by (simp add: ingest_def travelled_def [abs_def] comp_def)
  ultimately show ?thesis using i(2,5) assms(4,5) by auto
qed

section \<open>Adopting the metadata\<close>

lemma meta_stands:
  "room_or_new D r (bind_governing r app v h) = room_or_new D r h"
  "stands D b H p (room_or_new D r (snd (ensure_creator r a h))) = stands D b H p (room_or_new D r h)"
  "stands D b H p (room_or_new D r (raise_max_op_version r w h)) = stands D b H p (room_or_new D r h)"
  "server (snd (ensure_creator r a h)) = server h" "server (raise_max_op_version r w h) = server h"
  by (auto simp: bind_governing_def room_or_new_def ensure_creator_def raise_max_op_version_def stands_def head_def
      split: option.split)

lemma adopt_meta_stands:
  "stands D b H p (room_or_new D r (rg_hub (adopt_replicated_meta r m g))) = stands D b H p (room_or_new D r (rg_hub g))"
  by (simp add: adopt_replicated_meta_def adopt_replicated_binding_def bind_room_app_def Let_def meta_stands
      split: option.split)

lemma hub_seq_head: "hub_seq h r = head (room_or_new D r h)"
  by (simp add: hub_seq_def room_or_new_def room_new_def head_def split: option.split)

lemma ack_head_fields [simp]: "rg_hub (ack_head i r g) = rg_hub g"
    "rg_conns (ack_head i r g) = push_to i (ReplicaAck r (hub_seq (rg_hub g) r)) (rg_conns g)"
  by (simp_all add: ack_head_def)

lemma snapshot_stands:
  assumes "decode_doc D state = Some (doc_of D (opened_doc b) H)" "compact_ok io"
    and "seen_ids D (doc_of D (opened_doc b) H) = opened_seen b |\<union>| ids H"
  shows "\<exists>h'. install_snapshot D io r state (opened_at b + word_of_nat (length H)) creator h = (Inr (), h') \<and>
    stands D b H (length H) (room_or_new D r h')"
  using assms
  by (auto simp: install_snapshot_def install_room_state_def Let_def stands_def room_or_new_def head_def
      split: option.split)

section \<open>The frame, delivered\<close>

lemma frame_cases:
  assumes "fmlookup (hub_rooms (rg_hub g)) r = Some s" "carries D b H s" "sized b H" "p \<le> length H"
    and "catch_up_room_frame D r (opened_at b + word_of_nat p) g = (Some f, g')"
  obtains (ops) meta where "f = Replicate r MAIN_BRANCH (map so_op (drop p H)) (hub_base_seq (rg_hub g) r)
      (fst (claim_and_persist_epoch r g)) meta"
  | (root) creator where "f = ReplicateMeta r (fst (claim_and_persist_epoch r g)) creator" "p = length H"
  | (state) meta where "f = ReplicateSnapshot r MAIN_BRANCH (opened_at b + word_of_nat (length H))
      (encode_doc D (doc_of D (opened_doc b) H)) (fst (claim_and_persist_epoch r g)) meta"
proof -
  obtain e k where e: "claim_and_persist_epoch r g = (e, k)" by (rule prod.exhaust)
  from catch_up_carries [OF assms(1-4)] show thesis
  proof
    assume "catch_up D r (opened_at b + word_of_nat p) (rg_hub g) = CatchupOps (drop p H)"
    with assms(4,5) e that(1,2) show thesis
      by (auto simp: catch_up_room_frame_def Let_def split: if_splits)
  next
    assume "catch_up D r (opened_at b + word_of_nat p) (rg_hub g) =
      CatchupSnapshot (opened_at b + word_of_nat (length H)) (encode_doc D (doc_of D (opened_doc b) H))"
    with assms(5) e that(3) show thesis by (auto simp: catch_up_room_frame_def Let_def)
  qed
qed


section \<open>Reports\<close>

lemma enqueue_watermark [simp]: "watermark (fold (enqueue n) fs p) = watermark p"
  by (induction fs arbitrary: p) (auto simp: enqueue_def watermark_def fun_eq_iff)

lemma claim_fields:
  assumes "claim_and_persist_epoch r g = (e, g')"
  shows "rg_hub g' = rg_hub g" "rg_conns g' = rg_conns g" "pending_acks g' = pending_acks g"
    "rg_replication g' = rg_replication g" "rg_membership g' = rg_membership g"
  using assms by (auto simp: claim_and_persist_epoch_def Let_def persist_fields split: prod.splits)

lemma frame_fields:
  assumes "catch_up_room_frame D r q g = (f, g')"
  shows "rg_hub g' = rg_hub g" "rg_conns g' = rg_conns g" "pending_acks g' = pending_acks g"
    "rg_replication g' = rg_replication g" "rg_membership g' = rg_membership g"
  using assms claim_fields [of r g "fst (claim_and_persist_epoch r g)" "snd (claim_and_persist_epoch r g)"]
  by (auto simp: catch_up_room_frame_def Let_def split: catchup.splits if_splits prod.splits)

lemma credited_rooms:
  "dial_rooms D (credited n heads) rs (d, g) = (d', g') \<Longrightarrow> rg_hub g' = rg_hub g \<and> rg_conns g' = rg_conns g \<and>
    pending_acks g' = pending_acks g \<and> rg_membership g' = rg_membership g \<and>
    (\<forall>r k. watermark (rg_replication g') r k =
      (if r \<in> set rs \<and> k = n then min (reported_head heads r) (hub_seq (rg_hub g) r)
       else watermark (rg_replication g) r k))"
proof (induction rs arbitrary: d g)
  case (Cons r rs)
  let ?g = "snd (credited n heads g r)"
  obtain f g2 where two: "catch_up_room_frame D r (min (reported_head heads r) (hub_seq (rg_hub g) r)) ?g = (f, g2)"
    by (rule prod.exhaust)
  note fields = frame_fields [OF two]
  have "dial_rooms D (credited n heads) rs (dial_push f d, g2) = (d', g')"
    using Cons.prems two by (simp add: credited_def [of n heads g r] Let_def)
  from Cons.IH [OF this] fields show ?case
    by (auto simp: credited_def Let_def set_watermark_def watermark_def)
qed simp

text \<open>C18. A report of heads credits the follower and answers nobody. From a member's report of its own
  heads the leader takes, for every room it leads that the member replicates, the reported head, never past
  its own, as what the member holds - but it releases none of the acknowledgements it holds back, also
  where the credit completes their majority.\<close>
theorem report_releases_nothing:
  assumes "rg_membership g \<noteq> None"
  shows "\<exists>g'. apply_follower_heads D n n heads g = (True, g') \<and>
    pending_acks g' = pending_acks g \<and> rg_conns g' = rg_conns g \<and> rg_membership g' = rg_membership g \<and>
    (\<forall>r. watermark (rg_replication g') r n =
      (if r \<in> set (rooms_led_for g n) then min (reported_head heads r) (hub_seq (rg_hub g) r)
       else watermark (rg_replication g) r n))"
proof -
  obtain d k where dial: "dial_rooms D (credited n heads) (rooms_led_for g n) (\<lparr>deltas = [], roots = []\<rparr>, g) = (d, k)"
    by (rule prod.exhaust)
  from credited_rooms [OF dial] assms show ?thesis
    by (simp add: apply_follower_heads_def catch_up_follower_reporting_def dial dial_enqueue_def)
qed

section \<open>Instances\<close>

text \<open>A leader of the pair whose peer link was down when it took its first write.\<close>

definition leader_hub :: "bytes hub" where
  "leader_hub = run_stream trace (ClientId 1) 0 [114] [EvBatch answered [set_op 1] None]"

definition leader :: "bytes registry" where
  "leader = (pair_registry leader_hub)
     \<lparr>rg_membership := Some (mark_node_down [98] pair),
      pending_acks := [\<lparr>pa_room = [114], pa_seq = 1, pa_conn = 5, pa_accepted = Accepted 1 1\<rparr>]\<rparr>"

lemma leader_history: "history [EvBatch answered [set_op 1] None] = [stored_op_new (set_op 1) None]"
  by (simp add: history_def answered_def stored_op_new_def set_op_admissible word_less_nat_alt)

lemma leader_room: "\<exists>s. fmlookup (hub_rooms leader_hub) [114] = Some s \<and>
    carries trace (empty_origin trace (ClientId 1)) [stored_op_new (set_op 1) None] s"
proof -
  obtain s where s: "fmlookup (hub_rooms leader_hub) [114] = Some s"
    using ingest_room [of trace answered "[114]" "[set_op 1]" None "set_compaction_threshold 0 (hub_new (ClientId 1))"]
    by (auto simp: leader_hub_def run_stream_def)
  with run_carries [of trace "ClientId 1" "[EvBatch answered [set_op 1] None]" "[114]" 0] show ?thesis
    by (simp add: leader_hub_def [symmetric] room_or_new_def leader_history)
qed

lemma leader_leads: "[114] \<in> set (rooms_led_for leader [98])"
proof -
  have m: "rg_membership leader = Some (mark_node_down [98] pair)" by (simp add: leader_def)
  have down: "replicas_for (mark_node_down [98] pair) r = replicas_for pair r" "self_id (mark_node_down [98] pair) = [97]"
      "relay_down (mark_node_down [98] pair) = finsert [98] (relay_down pair)" for r
    by (simp_all add: mark_node_down_def is_self_def pair_members replicas_for_def)
  have "is_effective_primary_for (mark_node_down [98] pair) [114]"
    using pair_ranked [of "[114]"]
    by (auto simp: is_effective_primary_for_def effective_primary_for_def down is_live_def is_self_def)
  moreover have "[114] \<in> set (room_ids (rg_hub leader))"
    using leader_room by (auto simp: room_ids_def leader_def pair_registry_def set_membership_def from_hub_def
        fmdom_notD intro: fmdomI)
  ultimately show ?thesis
    by (simp add: rooms_led_for_def m is_self_def down pair_replicas)
qed

lemma report_releases_nothing_witness:
  "\<exists>g'. apply_follower_heads trace [98] [98] [([114], 1)] leader = (True, g') \<and>
    write_has_majority g' [114] 1 \<and> pending_acks g' \<noteq> []"
proof -
  have m: "rg_membership leader \<noteq> None" by (simp add: leader_def)
  obtain g' where g': "apply_follower_heads trace [98] [98] [([114], 1)] leader = (True, g')"
    "pending_acks g' = pending_acks leader" "rg_membership g' = rg_membership leader"
    "watermark (rg_replication g') [114] [98] = min (reported_head [([114], 1)] [114]) (hub_seq (rg_hub leader) [114])"
    using report_releases_nothing [OF m, of trace "[98]" "[([114], 1)]"] leader_leads by metis
  obtain s where s: "fmlookup (hub_rooms leader_hub) [114] = Some s"
    "carries trace (empty_origin trace (ClientId 1)) [stored_op_new (set_op 1) None] s" using leader_room by blast
  have "hub_seq (rg_hub leader) [114] = 1"
    using s(1) carries_head [OF s(2)]
    by (simp add: leader_def pair_registry_def set_membership_def from_hub_def hub_seq_def empty_origin_def)
  then have w: "watermark (rg_replication g') [114] [98] = 1" using g'(4) by (simp add: reported_head_def)
  have "rg_membership g' = Some (mark_node_down [98] pair)" using g'(3) by (simp add: leader_def)
  then have "write_has_majority g' [114] 1"
    using pair_ranked [of "[114]"] w
    by (auto simp: write_has_majority_def quorum_def quorum_met_def is_self_def mark_node_down_def pair_members
        replicas_for_def split: if_splits)
  moreover have "pending_acks g' \<noteq> []" using g'(2) by (simp add: leader_def)
  ultimately show ?thesis using g'(1) by blast
qed

text \<open>The other member of the pair, leading after the first led once, catches the first up.\<close>

definition second_leader :: "bytes registry" where
  "second_leader = (set_membership (membership_new [98] [[97]] 2) (from_hub leader_hub))
     \<lparr>rg_epochs := observe [114] 1 leadership_default\<rparr>"

definition follower :: "bytes registry" where
  "follower = led_once\<lparr>rg_conns := fmupd 0 \<lparr>outbox = [], peer = Some [98], cert_hosts = None\<rparr> fmempty\<rparr>"

definition nobody :: "bytes audience" where
  "nobody = \<lparr>evict_by_lift = \<lambda>_ _. rg_conns, fan_out = \<lambda>_ _ _. rg_conns\<rparr>"

lemma second_leader_epoch: "fst (claim_and_persist_epoch [114] second_leader) = 2"
  by (simp add: second_leader_def claim_and_persist_epoch_def claim_leadership_def observe_seen Let_def)
    (simp add: highest_seen_def leadership_default_def observe_def)

lemma follower_gate: "\<exists>k0. gate_replica_frame (frame_at 2) follower = (Apply, k0)"
  using led_once_epochs
  by (simp add: gate_replica_frame_def frame_at_def Let_def is_self_def pair_members pair_replicas pair_owns
      leads_below_def highest_epoch_def follower_def)


end
