(* ===== verification/Spec2Isabelle.thy ===== *)
theory Spec2Isabelle
  imports Acl_Authority Codec_Safety Register Counter TreeMoves Zone Sequence_Edit Maps_Codec Maps_Handles
    Cluster_Catch_Up
begin

text \<open>
  A verification development for crdtsync.
\<close>

end
